(* ===== verification/Xv6_Prelude.thy ===== *)
theory Xv6_Prelude
  imports Main "HOL-Library.Word"
begin

text \<open>
  Shared vocabulary of the development: the machine's integer types, the outcome of a kernel
  function, byte-addressed physical memory with its 64-bit accessors, the little-endian
  encoding that C structures are laid out with, and the constants of \<^verbatim>\<open>kernel/param.h\<close>,
  \<^verbatim>\<open>kernel/riscv.h\<close>, \<^verbatim>\<open>kernel/memlayout.h\<close> and \<^verbatim>\<open>kernel/fs.h\<close>, with the
  lemmas on lists, words and memory that the component theories share.
\<close>

unbundle bit_operations_syntax

section \<open>Integer types and outcomes\<close>

text \<open>The integer types of \<^verbatim>\<open>kernel/types.h\<close>.  A C \<open>int\<close> is modelled as \<^typ>\<open>int\<close> or
  \<^typ>\<open>nat\<close> where it cannot overflow, and as a word where the code depends on wrap-around.\<close>

type_synonym byte = "8 word"
type_synonym ushort = "16 word"
type_synonym uint = "32 word"
type_synonym uint64 = "64 word"

text \<open>Physical memory, byte addressed.\<close>

type_synonym memory = "uint64 \<Rightarrow> byte"

text \<open>
  What a kernel function does when called in some state: it returns a value (with the new
  state), it calls \<open>panic\<close> with a message, or it reaches a \<open>sleep\<close> (or a spin) that no step of
  its own can end, so that it does not return before another thread runs.
\<close>

datatype 'a res = Ok 'a | Panic string | Blocked

primrec bindR :: "'a res \<Rightarrow> ('a \<Rightarrow> 'b res) \<Rightarrow> 'b res" where
  "bindR (Ok x) f = f x"
| "bindR (Panic msg) f = Panic msg"
| "bindR Blocked f = Blocked"

lemma bindR_eq_Ok: "bindR m f = Ok y \<longleftrightarrow> (\<exists>x. m = Ok x \<and> f x = Ok y)"
  by (cases m) auto

lemma bindR_eq_OkE:
  assumes "bindR m f = Ok y"
  obtains x where "m = Ok x" "f x = Ok y"
  using assms by (auto simp: bindR_eq_Ok)

lemma bindR_cong [fundef_cong]:
  "m = m' \<Longrightarrow> (\<And>x. m' = Ok x \<Longrightarrow> f x = g x) \<Longrightarrow> bindR m f = bindR m' g"
  by (cases m') auto

lemma bindR_assoc: "bindR (bindR m f) g = bindR m (\<lambda>x. bindR (f x) g)"
  by (cases m) auto

text \<open>A loop over a list of indices whose body may panic.\<close>

primrec foldR :: "('a \<Rightarrow> 's \<Rightarrow> 's res) \<Rightarrow> 'a list \<Rightarrow> 's \<Rightarrow> 's res" where
  "foldR f [] s = Ok s"
| "foldR f (x # xs) s = bindR (f x s) (foldR f xs)"

section \<open>Constants\<close>

named_theorems params \<open>the values of the kernel's compile-time constants\<close>

text \<open>\<^verbatim>\<open>kernel/param.h\<close>\<close>

definition NPROC :: nat where [params]: "NPROC = 64"
definition NCPU :: nat where [params]: "NCPU = 8"
definition NOFILE :: nat where [params]: "NOFILE = 16"
definition NFILE :: nat where [params]: "NFILE = 100"
definition NINODE :: nat where [params]: "NINODE = 50"
definition NDEV :: nat where [params]: "NDEV = 10"
definition ROOTDEV :: nat where [params]: "ROOTDEV = 1"
definition MAXARG :: nat where [params]: "MAXARG = 32"
definition MAXOPBLOCKS :: nat where [params]: "MAXOPBLOCKS = 10"
definition LOGSIZE :: nat where [params]: "LOGSIZE = MAXOPBLOCKS * 3"
definition NBUF :: nat where [params]: "NBUF = MAXOPBLOCKS * 3"
definition FSSIZE :: nat where [params]: "FSSIZE = 1000"
definition MAXPATH :: nat where [params]: "MAXPATH = 128"

section \<open>Little-endian layout\<close>

primrec of_le :: "byte list \<Rightarrow> 'a::len word" where
  "of_le [] = 0"
| "of_le (b # bs) = ucast b OR push_bit 8 (of_le bs)"

definition le_bytes :: "nat \<Rightarrow> 'a::len word \<Rightarrow> byte list" where
  "le_bytes n w = map (\<lambda>i. ucast (drop_bit (8 * i) w)) [0..<n]"

lemma length_le_bytes [simp]: "length (le_bytes n w) = n"
  by (simp add: le_bytes_def)

lemma le_bytes_nth: "i < n \<Longrightarrow> le_bytes n w ! i = ucast (drop_bit (8 * i) w)"
  by (simp add: le_bytes_def)

lemma bit_of_le:
  "bit (of_le bs :: 'a::len word) k \<longleftrightarrow>
     k < LENGTH('a) \<and> k div 8 < length bs \<and> bit (bs ! (k div 8)) (k mod 8)"
proof (induction bs arbitrary: k)
  case Nil
  then show ?case by simp
next
  case (Cons b bs)
  show ?case
  proof (cases "k < 8")
    case True
    then show ?thesis by (auto simp: bit_simps)
  next
    case False
    then obtain j where j: "k = j + 8" by (metis add.commute le_Suc_ex not_less)
    have d: "(j + 8) div 8 = Suc (j div 8)" by simp
    have "\<not> bit b (j + 8)" by (simp add: bit_word.rep_eq)
    then show ?thesis using j
      by (auto simp add: bit_simps Cons.IH d simp del: div_add_self2)
  qed
qed

lemma of_le_le_bytes:
  fixes w :: "'a::len word"
  assumes "LENGTH('a) \<le> 8 * n"
  shows "of_le (le_bytes n w) = w"
proof (rule bit_word_eqI)
  fix k assume k: "k < LENGTH('a)"
  then have lt: "k div 8 < n" using assms by linarith
  have eq: "8 * (k div 8) + k mod 8 = k" by simp
  show "bit (of_le (le_bytes n w) :: 'a word) k = bit w k"
    using k lt eq by (simp add: bit_of_le le_bytes_nth bit_simps add.commute del: One_nat_def)
qed

lemma le_bytes_of_le:
  assumes "length bs = n" and "8 * n \<le> LENGTH('a::len)"
  shows "le_bytes n (of_le bs :: 'a word) = bs"
proof (rule nth_equalityI)
  show "length (le_bytes n (of_le bs :: 'a word)) = length bs" using assms by simp
  fix i assume "i < length (le_bytes n (of_le bs :: 'a word))"
  then have i: "i < n" by simp
  show "le_bytes n (of_le bs :: 'a word) ! i = bs ! i"
  proof (rule bit_word_eqI)
    fix k :: nat assume k: "k < LENGTH(8)"
    then have k8: "k < 8" by simp
    have d: "(8 * i + k) div 8 = i" using k8 by simp
    have m: "(8 * i + k) mod 8 = k" using k8 by simp
    have l: "8 * i + k < LENGTH('a)" using i k8 assms(2) by linarith
    show "bit (le_bytes n (of_le bs :: 'a word) ! i) k = bit (bs ! i) k"
      using i k8 d m l assms(1) by (simp add: le_bytes_nth bit_simps bit_of_le)
  qed
qed

section \<open>Memory\<close>

definition load_bytes :: "memory \<Rightarrow> uint64 \<Rightarrow> nat \<Rightarrow> byte list" where
  "load_bytes m a n = map (\<lambda>i. m (a + of_nat i)) [0..<n]"

definition store_bytes :: "memory \<Rightarrow> uint64 \<Rightarrow> byte list \<Rightarrow> memory" where
  "store_bytes m a bs = (\<lambda>x. if unat (x - a) < length bs then bs ! unat (x - a) else m x)"

definition load64 :: "memory \<Rightarrow> uint64 \<Rightarrow> uint64" where
  "load64 m a = of_le (load_bytes m a 8)"

definition store64 :: "memory \<Rightarrow> uint64 \<Rightarrow> uint64 \<Rightarrow> memory" where
  "store64 m a v = store_bytes m a (le_bytes 8 v)"

text \<open>\<open>aligned n a\<close>: the address is a multiple of \<open>n\<close>.\<close>

definition aligned :: "nat \<Rightarrow> uint64 \<Rightarrow> bool" where
  "aligned n a \<longleftrightarrow> n dvd unat a"

lemma length_load_bytes [simp]: "length (load_bytes m a n) = n"
  by (simp add: load_bytes_def)

lemma load_bytes_nth [simp]: "i < n \<Longrightarrow> load_bytes m a n ! i = m (a + of_nat i)"
  by (simp add: load_bytes_def)

lemma load_bytes_0 [simp]: "load_bytes m a 0 = []"
  by (simp add: load_bytes_def)

lemma store_bytes_Nil [simp]: "store_bytes m a [] = m"
  by (simp add: store_bytes_def)

lemma load_store_same:
  assumes "length bs \<le> 2 ^ 64"
  shows "load_bytes (store_bytes m a bs) a (length bs) = bs"
  using assms by (intro nth_equalityI) (auto simp: store_bytes_def unat_of_nat)

lemma load_store_other:
  assumes "\<And>i. i < n \<Longrightarrow> length bs \<le> unat (b + of_nat i - a)"
  shows "load_bytes (store_bytes m a bs) b n = load_bytes m b n"
proof (rule nth_equalityI)
  fix i assume "i < length (load_bytes (store_bytes m a bs) b n)"
  then have i: "i < n" by simp
  then have "\<not> unat (b + of_nat i - a) < length bs"
    using assms by (simp add: not_less)
  then show "load_bytes (store_bytes m a bs) b n ! i = load_bytes m b n ! i"
    using i by (simp add: store_bytes_def)
qed simp

lemma unat64_lt: "unat (x :: uint64) < 2 ^ 64"
  using unsigned_less [of x] by simp

lemma unat64_of_nat: "n < 2 ^ 64 \<Longrightarrow> unat (of_nat n :: uint64) = n"
  by (simp add: unat_of_nat)

lemma of_nat_unat64 [simp]: "of_nat (unat x) = (x :: uint64)"
  by simp

lemma unat64_add:
  fixes a :: uint64
  assumes "unat a + n < 2 ^ 64"
  shows "unat (a + of_nat n) = unat a + n"
proof -
  have "unat (of_nat n :: uint64) = n" using assms by (intro unat64_of_nat) linarith
  then show ?thesis using assms by (simp add: unat_word_ariths)
qed

lemma unat64_sub: "b \<le> a \<Longrightarrow> unat (a - b :: uint64) = unat a - unat b"
  by (rule unat_sub)

lemma addr_offset_iff:
  fixes x a :: uint64
  assumes "i < 2 ^ 64"
  shows "x = a + of_nat i \<longleftrightarrow> unat (x - a) = i"
proof
  assume "x = a + of_nat i"
  then show "unat (x - a) = i" using unat64_of_nat [OF assms] by simp
next
  assume "unat (x - a) = i"
  then have "of_nat i = x - a" using of_nat_unat64 [of "x - a"] by (simp only:)
  then show "x = a + of_nat i" by simp
qed

text \<open>Two different blocks of the same power-of-two size do not overlap.\<close>

lemma aligned_diff_ge:
  assumes N: "N dvd 2 ^ 64" and p: "aligned N p" and q: "aligned N q"
    and ne: "p \<noteq> q" and i: "i < N"
  shows "N \<le> unat (q + of_nat i - p)"
proof -
  let ?d = "unat (q - p)"
  have pq: "N dvd unat p" "N dvd unat q" using p q by (simp_all add: aligned_def)
  have N': "N dvd unat q + 2 ^ 64" using pq(2) N by (rule dvd_add)
  have "?d = unat q - unat p \<or> ?d = unat q + 2 ^ 64 - unat p"
    by (simp add: unat_sub_if_size word_size)
  then have "N dvd ?d" using pq N' by (metis dvd_diff_nat)
  moreover have "?d \<noteq> 0" using ne by (simp add: unat_eq_0)
  ultimately have ge: "N \<le> ?d" by (meson dvd_imp_le neq0_conv)
  have "?d < 2 ^ 64" by (rule unat64_lt)
  then have "0 < 2 ^ 64 - ?d" by simp
  moreover have "N dvd 2 ^ 64 - ?d" using \<open>N dvd ?d\<close> N by (rule dvd_diff_nat [rotated])
  ultimately have "N \<le> 2 ^ 64 - ?d" by (rule dvd_imp_le [rotated])
  then have "?d + N \<le> 2 ^ 64" using \<open>?d < 2 ^ 64\<close> by linarith
  then have lt: "?d + i < 2 ^ 64" using i by linarith
  have i64: "i < 2 ^ 64" using lt by linarith
  have "unat (q - p + of_nat i) = ?d + i"
    using lt i64 by (simp add: unat_word_ariths unat_of_nat)
  moreover have "q + of_nat i - p = q - p + of_nat i" by (simp add: algebra_simps)
  ultimately have "unat (q + of_nat i - p) = ?d + i" by (simp only:)
  then show ?thesis using ge by linarith
qed

lemma load64_store64:
  assumes "aligned 8 a" "aligned 8 b"
  shows "load64 (store64 m a v) b = (if a = b then v else load64 m b)"
proof (cases "a = b")
  case True
  have "load_bytes (store_bytes m b (le_bytes 8 v)) b 8 = le_bytes 8 v"
    using load_store_same [of "le_bytes 8 v" m b] by simp
  then show ?thesis
    using True by (simp add: load64_def store64_def of_le_le_bytes)
next
  case False
  have "load_bytes (store_bytes m a (le_bytes 8 v)) b 8 = load_bytes m b 8"
    using aligned_diff_ge [OF _ assms(1,2) False] by (intro load_store_other) auto
  then show ?thesis
    using False by (simp add: load64_def store64_def)
qed

end
