(* ===== verification/Kstring.thy ===== *)
theory Kstring
  imports Xv6_Prelude
begin

text \<open>
  The memory and string routines of \<^verbatim>\<open>kernel/string.c\<close>.  Routines that only read their
  operands take them as functions from the index to the byte (\<open>p i\<close> is \<open>p[i]\<close>); routines that
  write take the memory, or the destination array as a list.  Each loop of the source is one
  recursive function; the theorems give its closed form.
\<close>

section \<open>Definitions\<close>

function memset_loop :: "memory \<Rightarrow> uint64 \<Rightarrow> byte \<Rightarrow> nat \<Rightarrow> nat \<Rightarrow> memory" where
  "memset_loop m cdst c i n =
     (if i < n then memset_loop (m(cdst + of_nat i := c)) cdst c (Suc i) n else m)"
  by pat_completeness auto
termination
  by (relation "measure (\<lambda>(m, cdst, c, i, n). n - i)") auto

definition memset :: "memory \<Rightarrow> uint64 \<Rightarrow> int \<Rightarrow> nat \<Rightarrow> memory" where
  "memset m dst c n = memset_loop m dst (word_of_int c) 0 n"

fun memcmp_loop :: "(nat \<Rightarrow> byte) \<Rightarrow> (nat \<Rightarrow> byte) \<Rightarrow> nat \<Rightarrow> nat \<Rightarrow> int" where
  "memcmp_loop s1 s2 i 0 = 0"
| "memcmp_loop s1 s2 i (Suc n) =
     (if s1 i \<noteq> s2 i then uint (s1 i) - uint (s2 i) else memcmp_loop s1 s2 (Suc i) n)"

definition memcmp :: "(nat \<Rightarrow> byte) \<Rightarrow> (nat \<Rightarrow> byte) \<Rightarrow> nat \<Rightarrow> int" where
  "memcmp v1 v2 n = memcmp_loop v1 v2 0 n"

fun memmove_down :: "memory \<Rightarrow> uint64 \<Rightarrow> uint64 \<Rightarrow> nat \<Rightarrow> memory" where
  "memmove_down m d s 0 = m"
| "memmove_down m d s (Suc n) = memmove_down (m(d - 1 := m (s - 1))) (d - 1) (s - 1) n"

fun memmove_up :: "memory \<Rightarrow> uint64 \<Rightarrow> uint64 \<Rightarrow> nat \<Rightarrow> memory" where
  "memmove_up m d s 0 = m"
| "memmove_up m d s (Suc n) = memmove_up (m(d := m s)) (d + 1) (s + 1) n"

definition memmove :: "memory \<Rightarrow> uint64 \<Rightarrow> uint64 \<Rightarrow> nat \<Rightarrow> memory" where
  "memmove m dst src n =
     (if n = 0 then m
      else if src < dst \<and> src + of_nat n > dst
      then memmove_down m (dst + of_nat n) (src + of_nat n) n
      else memmove_up m dst src n)"

definition memcpy :: "memory \<Rightarrow> uint64 \<Rightarrow> uint64 \<Rightarrow> nat \<Rightarrow> memory" where
  "memcpy m dst src n = memmove m dst src n"

fun strncmp_loop :: "(nat \<Rightarrow> byte) \<Rightarrow> (nat \<Rightarrow> byte) \<Rightarrow> nat \<Rightarrow> nat \<Rightarrow> int" where
  "strncmp_loop p q i 0 = 0"
| "strncmp_loop p q i (Suc n) =
     (if p i \<noteq> 0 \<and> p i = q i then strncmp_loop p q (Suc i) n
      else uint (p i) - uint (q i))"

definition strncmp :: "(nat \<Rightarrow> byte) \<Rightarrow> (nat \<Rightarrow> byte) \<Rightarrow> nat \<Rightarrow> int" where
  "strncmp p q n = strncmp_loop p q 0 n"

fun strncpy_pad :: "byte list \<Rightarrow> nat \<Rightarrow> nat \<Rightarrow> byte list" where
  "strncpy_pad s i 0 = s"
| "strncpy_pad s i (Suc n) = strncpy_pad (s[i := 0]) (Suc i) n"

fun strncpy_loop :: "byte list \<Rightarrow> (nat \<Rightarrow> byte) \<Rightarrow> nat \<Rightarrow> nat \<Rightarrow> byte list" where
  "strncpy_loop s t i 0 = s"
| "strncpy_loop s t i (Suc n) =
     (if t i \<noteq> 0 then strncpy_loop (s[i := t i]) t (Suc i) n
      else strncpy_pad (s[i := t i]) (Suc i) n)"

definition strncpy :: "byte list \<Rightarrow> (nat \<Rightarrow> byte) \<Rightarrow> int \<Rightarrow> byte list" where
  "strncpy s t n = strncpy_loop s t 0 (nat n)"

fun safestrcpy_loop :: "byte list \<Rightarrow> (nat \<Rightarrow> byte) \<Rightarrow> nat \<Rightarrow> nat \<Rightarrow> byte list" where
  "safestrcpy_loop s t i 0 = s[i := 0]"
| "safestrcpy_loop s t i (Suc n) =
     (if t i \<noteq> 0 then safestrcpy_loop (s[i := t i]) t (Suc i) n
      else (s[i := t i])[Suc i := 0])"

definition safestrcpy :: "byte list \<Rightarrow> (nat \<Rightarrow> byte) \<Rightarrow> int \<Rightarrow> byte list" where
  "safestrcpy s t n = (if n \<le> 0 then s else safestrcpy_loop s t 0 (nat (n - 1)))"

partial_function (option) strlen_loop :: "(nat \<Rightarrow> byte) \<Rightarrow> nat \<Rightarrow> nat option" where
  "strlen_loop s n = (if s n \<noteq> 0 then strlen_loop s (Suc n) else Some n)"

definition strlen :: "(nat \<Rightarrow> byte) \<Rightarrow> nat option" where
  "strlen s = strlen_loop s 0"

section \<open>Filling and moving memory\<close>

declare memset_loop.simps [simp del]

lemma memset_loop_eq:
  assumes "i \<le> n" "n \<le> 2 ^ 64"
  shows "memset_loop m a c i n =
     (\<lambda>x. if i \<le> unat (x - a) \<and> unat (x - a) < n then c else m x)"
  using assms
proof (induction m a c i n rule: memset_loop.induct)
  case (1 m a c i n)
  show ?case
  proof (cases "i < n")
    case False
    then show ?thesis by (auto simp: memset_loop.simps [of m a c i n] fun_eq_iff)
  next
    case True
    have at: "x = a + of_nat i \<longleftrightarrow> unat (x - a) = i" for x
      using True "1.prems" by (intro addr_offset_iff) simp
    have "memset_loop m a c i n = memset_loop (m(a + of_nat i := c)) a c (Suc i) n"
      using True by (simp add: memset_loop.simps [of m a c i n])
    also have "\<dots> = (\<lambda>x. if Suc i \<le> unat (x - a) \<and> unat (x - a) < n then c
        else (m(a + of_nat i := c)) x)"
      using "1.IH" [OF True] "1.prems" True by (simp del: fun_upd_apply)
    also have "\<dots> = (\<lambda>x. if i \<le> unat (x - a) \<and> unat (x - a) < n then c else m x)"
    proof
      fix x
      show "(if Suc i \<le> unat (x - a) \<and> unat (x - a) < n then c else (m(a + of_nat i := c)) x) =
          (if i \<le> unat (x - a) \<and> unat (x - a) < n then c else m x)"
        using True at [of x] by (auto simp: not_less_eq_eq)
    qed
    finally show ?thesis .
  qed
qed

lemma memset_eq:
  assumes "n \<le> 2 ^ 64"
  shows "memset m a c n = store_bytes m a (replicate n (word_of_int c))"
  using memset_loop_eq [of 0 n m a "word_of_int c"] assms
  by (auto simp: memset_def store_bytes_def fun_eq_iff)


text \<open>
  Copying upwards is right unless the destination starts inside the source, copying downwards
  unless the source starts inside the destination; \<open>moved\<close> is what both compute.
\<close>

definition moved :: "memory \<Rightarrow> uint64 \<Rightarrow> uint64 \<Rightarrow> nat \<Rightarrow> memory" where
  "moved m d s n = (\<lambda>x. if unat d \<le> unat x \<and> unat x < unat d + n then m (s + (x - d)) else m x)"

lemma moved_0 [simp]: "moved m d s 0 = m"
  by (auto simp: moved_def fun_eq_iff)

lemma unat_shift:
  fixes s d x :: uint64
  assumes "unat s + n \<le> 2 ^ 64" "unat d \<le> unat x" "unat x < unat d + n"
  shows "unat (s + (x - d)) = unat s + (unat x - unat d)"
proof -
  let ?k = "unat x - unat d"
  have "unat (x - d) = ?k"
    using assms(2) by (simp add: unat64_sub word_le_nat_alt)
  then have "x - d = of_nat ?k" by (metis of_nat_unat64)
  moreover have "unat s + ?k < 2 ^ 64" using assms by linarith
  ultimately show ?thesis using unat64_add [of s ?k] by (simp only:)
qed

lemma memmove_up_eq:
  assumes "unat d + n \<le> 2 ^ 64" "unat s + n \<le> 2 ^ 64" "d \<le> s \<or> unat s + n \<le> unat d"
  shows "memmove_up m d s n = moved m d s n"
  using assms
proof (induction n arbitrary: m d s)
  case 0
  then show ?case by simp
next
  case (Suc n)
  let ?m = "m(d := m s)"
  have step: "unat (d + 1) = unat d + 1 \<and> unat (s + 1) = unat s + 1" if "n \<noteq> 0"
    using Suc.prems that unat64_add [of d 1] unat64_add [of s 1] by simp
  have "memmove_up ?m (d + 1) (s + 1) n = moved ?m (d + 1) (s + 1) n"
  proof (cases "n = 0")
    case True
    then show ?thesis by (simp add: moved_0)
  next
    case False
    then show ?thesis
      using Suc.prems step by (intro Suc.IH) (auto simp: word_le_nat_alt)
  qed
  also have "\<dots> = moved m d s (Suc n)"
  proof
    fix x
    show "moved ?m (d + 1) (s + 1) n x = moved m d s (Suc n) x"
    proof (cases "unat d < unat x \<and> unat x < unat d + Suc n")
      case True
      then have "unat (s + (x - d)) = unat s + (unat x - unat d)"
        using Suc.prems(2) by (intro unat_shift [of s "Suc n"]) auto
      then have "unat (s + (x - d)) \<noteq> unat d"
        using True Suc.prems(3) by (auto simp: word_le_nat_alt)
      then have "s + (x - d) \<noteq> d" by metis
      moreover have "n \<noteq> 0" using True by linarith
      ultimately show ?thesis using True step by (simp add: moved_def)
    next
      case False
      moreover have "unat x = unat d \<longleftrightarrow> x = d" by (metis word_unat_eq_iff)
      ultimately show ?thesis using step by (cases "n = 0") (auto simp: moved_def)
    qed
  qed
  finally show ?case by simp
qed

lemma memmove_down_eq:
  assumes "unat d + n < 2 ^ 64" "unat s + n < 2 ^ 64" "s \<le> d \<or> unat d + n \<le> unat s"
  shows "memmove_down m (d + of_nat n) (s + of_nat n) n = moved m d s n"
  using assms
proof (induction n arbitrary: m)
  case 0
  then show ?case by simp
next
  case (Suc n)
  let ?m = "m(d + of_nat n := m (s + of_nat n))"
  have dn: "unat (d + of_nat n) = unat d + n"
    using Suc.prems by (intro unat64_add) linarith
  have "memmove_down m (d + of_nat (Suc n)) (s + of_nat (Suc n)) (Suc n)
      = memmove_down ?m (d + of_nat n) (s + of_nat n) n"
    by (simp add: algebra_simps)
  also have "\<dots> = moved ?m d s n"
    using Suc.prems by (intro Suc.IH) auto
  also have "\<dots> = moved m d s (Suc n)"
  proof
    fix x
    show "moved ?m d s n x = moved m d s (Suc n) x"
    proof (cases "unat d \<le> unat x \<and> unat x < unat d + n")
      case True
      then have "unat (s + (x - d)) = unat s + (unat x - unat d)"
        using Suc.prems(2) by (intro unat_shift [of s n]) auto
      then have "unat (s + (x - d)) \<noteq> unat (d + of_nat n)"
        using True Suc.prems(3) dn by (auto simp: word_le_nat_alt)
      then have "s + (x - d) \<noteq> d + of_nat n" by metis
      then show ?thesis using True by (simp add: moved_def)
    next
      case False
      moreover have "unat x = unat d + n \<longleftrightarrow> x = d + of_nat n"
        by (metis dn word_unat_eq_iff)
      ultimately show ?thesis using dn by (auto simp: moved_def)
    qed
  qed
  finally show ?case .
qed

lemma memmove_moved:
  assumes "unat d + n < 2 ^ 64" "unat s + n < 2 ^ 64"
  shows "memmove m d s n = moved m d s n"
proof (cases "s < d \<and> s + of_nat n > d")
  case True
  then have "memmove_down m (d + of_nat n) (s + of_nat n) n = moved m d s n"
    using assms by (intro memmove_down_eq) auto
  then show ?thesis using True by (auto simp: memmove_def)
next
  case False
  have "unat (s + of_nat n) = unat s + n" using assms(2) by (rule unat64_add)
  then have "d \<le> s \<or> unat s + n \<le> unat d"
    using False by (auto simp: word_less_nat_alt word_le_nat_alt not_less)
  then have "memmove_up m d s n = moved m d s n"
    using assms by (intro memmove_up_eq) auto
  then show ?thesis using False by (auto simp: memmove_def)
qed

lemma moved_store:
  assumes "unat d + n < 2 ^ 64"
  shows "moved m d s n = store_bytes m d (load_bytes m s n)"
proof
  fix x
  have "unat d \<le> unat x \<and> unat x < unat d + n \<longleftrightarrow> unat (x - d) < n"
  proof (cases "d \<le> x")
    case True
    then show ?thesis by (auto simp: unat64_sub word_le_nat_alt)
  next
    case False
    then have "unat (x - d) = 2 ^ 64 + unat x - unat d"
      using unat_sub_if_size [of x d] by (simp add: word_size word_le_nat_alt)
    then show ?thesis using False assms by (simp add: word_le_nat_alt)
  qed
  then show "moved m d s n x = store_bytes m d (load_bytes m s n) x"
    by (simp add: moved_def store_bytes_def)
qed

section \<open>Strings\<close>

text \<open>The characters of a C string within its first \<open>n\<close> bytes, without the terminator.\<close>

definition cstrn :: "(nat \<Rightarrow> byte) \<Rightarrow> nat \<Rightarrow> byte list" where
  "cstrn p n = takeWhile (\<lambda>b. b \<noteq> 0) (map p [0..<n])"

lemma length_cstrn: "length (cstrn p n) \<le> n"
  using length_takeWhile_le [of "\<lambda>b. b \<noteq> 0" "map p [0..<n]"] by (simp add: cstrn_def)

lemma strncmp_loop_0:
  "strncmp_loop p q i n = 0 \<longleftrightarrow>
     takeWhile (\<lambda>b. b \<noteq> 0) (map p [i..<i + n]) = takeWhile (\<lambda>b. b \<noteq> 0) (map q [i..<i + n])"
  by (induction p q i n rule: strncmp_loop.induct) (auto simp: upt_rec word_uint_eq_iff)

lemma strncpy_pad_eq:
  "i + n \<le> length s \<Longrightarrow> strncpy_pad s i n = take i s @ replicate n 0 @ drop (i + n) s"
  by (induction s i n rule: strncpy_pad.induct)
    (auto simp: take_Suc_conv_app_nth replicate_app_Cons_same)

lemma strncpy_loop_eq:
  assumes "i + n \<le> length s" "c = takeWhile (\<lambda>b. b \<noteq> 0) (map t [i..<i + n])"
  shows "strncpy_loop s t i n = take i s @ c @ replicate (n - length c) 0 @ drop (i + n) s"
  using assms
proof (induction s t i n arbitrary: c rule: strncpy_loop.induct)
  case (1 s t i)
  then show ?case by simp
next
  case (2 s t i n)
  have up: "[i..<i + Suc n] = i # [Suc i..<Suc i + n]" by (simp add: upt_rec)
  have c: "c = (if t i = 0 then [] else t i # takeWhile (\<lambda>b. b \<noteq> 0) (map t [Suc i..<Suc i + n]))"
    unfolding "2.prems"(2) up by simp
  have tk: "take (Suc i) (s[i := v]) = take i s @ [v]" for v
    using "2.prems"(1) by (simp add: take_Suc_conv_app_nth)
  show ?case
  proof (cases "t i = 0")
    case True
    then show ?thesis
      using "2.prems"(1) c tk by (simp add: strncpy_pad_eq)
  next
    case False
    then show ?thesis
      using "2.prems"(1) c tk "2.IH" [OF False, OF _ refl] by simp
  qed
qed

lemma safestrcpy_loop_prefix:
  assumes "i + n < length s" "c = takeWhile (\<lambda>b. b \<noteq> 0) (map t [i..<i + n])"
  shows "take (i + length c + 1) (safestrcpy_loop s t i n) = take i s @ c @ [0] \<and>
    length (safestrcpy_loop s t i n) = length s \<and>
    drop (i + n + 1) (safestrcpy_loop s t i n) = drop (i + n + 1) s"
  using assms
proof (induction s t i n arbitrary: c rule: safestrcpy_loop.induct)
  case (1 s t i)
  then show ?case by (simp add: take_Suc_conv_app_nth)
next
  case (2 s t i n)
  have up: "[i..<i + Suc n] = i # [Suc i..<Suc i + n]" by (simp add: upt_rec)
  have c: "c = (if t i = 0 then [] else t i # takeWhile (\<lambda>b. b \<noteq> 0) (map t [Suc i..<Suc i + n]))"
    unfolding "2.prems"(2) up by simp
  have tk: "take (Suc i) (s[i := v]) = take i s @ [v]" for v
    using "2.prems"(1) by (simp add: take_Suc_conv_app_nth)
  show ?case
  proof (cases "t i = 0")
    case True
    then show ?thesis
      using "2.prems"(1) c tk by simp
  next
    case False
    then show ?thesis
      using "2.prems"(1) c tk "2.IH" [OF False, OF _ refl] by simp
  qed
qed

lemma strlen_loop_found:
  assumes "s k = 0" "i \<le> k" "\<And>j. i \<le> j \<Longrightarrow> j < k \<Longrightarrow> s j \<noteq> 0"
  shows "strlen_loop s i = Some k"
  using assms
proof (induction "k - i" arbitrary: i)
  case 0
  then show ?case by (simp add: strlen_loop.simps)
next
  case (Suc d)
  then have "s i \<noteq> 0" "Suc i \<le> k" by auto
  moreover have "strlen_loop s (Suc i) = Some k"
    using Suc by (intro Suc.hyps) auto
  ultimately show ?case by (simp add: strlen_loop.simps [of s i])
qed

section \<open>Properties\<close>

text \<open>C14. \<open>memmove\<close> stores at the destination exactly the bytes the source range held before
  the call, also when the two ranges overlap in either direction, and changes nothing else
  (neither range reaching the end of the address space).\<close>

theorem memmove_correct:
  assumes "unat dst + n < 2 ^ 64" and "unat src + n < 2 ^ 64"
  shows "memmove m dst src n = store_bytes m dst (load_bytes m src n)"
  using assms by (simp only: memmove_moved moved_store)

theorem memmove_correct_witness:
  "memmove (\<lambda>x. ucast x) 1 0 3 = store_bytes (\<lambda>x. ucast x) 1 [0, 1, 2 :: byte]"
proof -
  have "load_bytes (\<lambda>x. ucast x) 0 3 = [0, 1, 2 :: byte]"
    by (simp add: load_bytes_def upt_rec)
  then show ?thesis
    using memmove_correct [of 1 3 0 "\<lambda>x. ucast x"] by simp
qed

text \<open>\<open>strncpy\<close> writes the source string, pads the rest of the first \<open>n\<close> bytes with zeros and
  leaves what follows alone, so the copy compares equal to the source under \<open>strncmp\<close>.\<close>

lemma strncpy_correct:
  assumes "n \<le> length s"
  shows "strncpy s t (int n) = cstrn t n @ replicate (n - length (cstrn t n)) 0 @ drop n s \<and>
    strncmp (\<lambda>i. strncpy s t (int n) ! i) t n = 0"
proof -
  let ?c = "cstrn t n" and ?r = "strncpy s t (int n)"
  have r: "?r = ?c @ replicate (n - length ?c) 0 @ drop n s"
    using strncpy_loop_eq [of 0 n s ?c t] assms by (simp add: strncpy_def cstrn_def)
  have le: "length ?c \<le> n" by (rule length_cstrn)
  then have "map (\<lambda>i. ?r ! i) [0..<n] = ?c @ replicate (n - length ?c) 0"
    using assms map_nth [of "?c @ replicate (n - length ?c) 0"]
    by (intro nth_equalityI) (auto simp: r nth_append)
  moreover have "takeWhile (\<lambda>b. b \<noteq> 0) (?c @ replicate k 0) = ?c" for k
    by (cases k) (auto simp: cstrn_def takeWhile_append takeWhile_idem dest: set_takeWhileD)
  ultimately have "cstrn (\<lambda>i. ?r ! i) n = ?c" by (simp add: cstrn_def)
  then show ?thesis using r strncmp_loop_0 [of "\<lambda>i. ?r ! i" t 0 n]
    by (simp add: strncmp_def cstrn_def)
qed

lemma strncpy_correct_witness:
  "strncpy [9, 9, 9, 9, 9] (\<lambda>i. [97, 98, 0, 7] ! i) 4 = [97, 98, 0, 0, 9]"
proof -
  have "cstrn (\<lambda>i. [97, 98, 0, 7] ! i) 4 = [97, 98 :: byte]"
    by (simp add: cstrn_def upt_rec)
  moreover have "replicate 2 0 = [0, 0 :: byte]" by (simp add: numeral_2_eq_2)
  ultimately show ?thesis
    using strncpy_correct [of 4 "[9, 9, 9, 9, 9]" "\<lambda>i. [97, 98, 0, 7] ! i"] by simp
qed

text \<open>\<open>safestrcpy\<close> into a buffer of at least \<open>n > 0\<close> bytes stores the first \<open>n - 1\<close> characters
  of the source (or fewer, if it ends earlier) followed by a terminating zero, and never
  touches the bytes from index \<open>n\<close> on.\<close>

lemma safestrcpy_terminates:
  assumes "0 < n" and "n \<le> length s"
  shows "take (length (cstrn t (n - 1)) + 1) (safestrcpy s t (int n)) = cstrn t (n - 1) @ [0] \<and>
    length (safestrcpy s t (int n)) = length s \<and>
    drop n (safestrcpy s t (int n)) = drop n s"
proof -
  have "nat (int n - 1) = n - 1" by simp
  then show ?thesis
    using safestrcpy_loop_prefix [of 0 "n - 1" s "cstrn t (n - 1)" t] assms
    by (simp add: safestrcpy_def cstrn_def)
qed

lemma safestrcpy_terminates_witness:
  "take 3 (safestrcpy [9, 9, 9, 9] (\<lambda>i. [97, 98, 99] ! i) 3) = [97, 98, 0]"
  using safestrcpy_terminates [of 3 "[9, 9, 9, 9]" "\<lambda>i. [97, 98, 99] ! i"]
  by (simp add: cstrn_def upt_rec numeral_3_eq_3)

lemma strlen_correct:
  "s k = 0 \<Longrightarrow> (\<And>j. j < k \<Longrightarrow> s j \<noteq> 0) \<Longrightarrow> strlen s = Some k"
  by (simp add: strlen_def strlen_loop_found)

end
