(* ===== verification/Kalloc.thy ===== *)
theory Kalloc
  imports Kstring
begin

text \<open>
  The physical page allocator, \<^verbatim>\<open>kernel/kalloc.c\<close>.  Free pages form a linked list that
  is threaded through the pages themselves: the first eight bytes of a free page hold the
  address of the next one.  The model keeps that representation (byte memory, a head pointer)
  and the lemmas show that it implements a list of distinct free pages.  The locale
  \<open>page_allocator\<close> is the contract the rest of the kernel uses.
\<close>

section \<open>State and operations\<close>

text \<open>\<^verbatim>\<open>PGSIZE\<close> of \<^verbatim>\<open>kernel/riscv.h\<close>, \<^verbatim>\<open>KERNBASE\<close> and \<^verbatim>\<open>PHYSTOP\<close> of \<^verbatim>\<open>kernel/memlayout.h\<close>.\<close>

definition PGSIZE :: uint64 where "PGSIZE = 4096"
definition KERNBASE :: uint64 where "KERNBASE = 0x80000000"
definition PHYSTOP :: uint64 where "PHYSTOP = KERNBASE + 128 * 1024 * 1024"

definition PGROUNDUP :: "uint64 \<Rightarrow> uint64" where
  "PGROUNDUP sz = (sz + PGSIZE - 1) AND NOT (PGSIZE - 1)"

definition PGROUNDDOWN :: "uint64 \<Rightarrow> uint64" where
  "PGROUNDDOWN a = a AND NOT (PGSIZE - 1)"

text \<open>
  Physical memory, the linker symbol \<open>end\<close> (the first address after the kernel) and
  \<open>kmem.freelist\<close>.  Every later component's state extends this record.
\<close>

record kmem =
  phys :: memory
  kend :: uint64
  freelist :: uint64

definition kfree :: "uint64 \<Rightarrow> 'z kmem_scheme \<Rightarrow> 'z kmem_scheme res" where
  "kfree pa s =
     (if pa mod PGSIZE \<noteq> 0 \<or> pa < kend s \<or> pa \<ge> PHYSTOP then Panic ''kfree''
      else let m = memset (phys s) pa 1 4096;
               m' = store64 m pa (freelist s)
           in Ok (s\<lparr>phys := m', freelist := pa\<rparr>))"

definition kalloc :: "'z kmem_scheme \<Rightarrow> uint64 \<times> 'z kmem_scheme" where
  "kalloc s =
     (let r = freelist s;
          s' = (if r \<noteq> 0 then s\<lparr>freelist := load64 (phys s) r\<rparr> else s)
      in if r \<noteq> 0 then (r, s'\<lparr>phys := memset (phys s') r 5 4096\<rparr>) else (r, s'))"

function freerange_loop :: "uint64 \<Rightarrow> uint64 \<Rightarrow> 'z kmem_scheme \<Rightarrow> 'z kmem_scheme res" where
  "freerange_loop p pa_end s =
     (if p + PGSIZE \<le> pa_end
      then bindR (kfree p s) (\<lambda>s. freerange_loop (p + PGSIZE) pa_end s)
      else Ok s)"
  by pat_completeness auto
termination
proof (relation "measure (\<lambda>(p, e, s). unat PHYSTOP - unat p)", goal_cases)
  case 1
  then show ?case by simp
next
  case (2 p pa_end s s')
  then have "p < PHYSTOP"
    by (auto simp: kfree_def not_le split: if_splits)
  then have "unat p < unat PHYSTOP" by (simp add: word_less_nat_alt)
  moreover have "unat PHYSTOP = 2281701376" by (simp add: PHYSTOP_def KERNBASE_def)
  ultimately have "unat (p + PGSIZE) = unat p + 4096"
    using unat64_add [of p 4096] by (simp add: PGSIZE_def)
  then show ?case using \<open>unat p < unat PHYSTOP\<close> by simp
qed

definition freerange :: "uint64 \<Rightarrow> uint64 \<Rightarrow> 'z kmem_scheme \<Rightarrow> 'z kmem_scheme res" where
  "freerange pa_start pa_end s = freerange_loop (PGROUNDUP pa_start) pa_end s"

text \<open>\<open>kinit\<close> (after \<open>initlock\<close>): \<open>kmem\<close> is zero-initialised static storage.\<close>

definition kinit :: "'z kmem_scheme \<Rightarrow> 'z kmem_scheme res" where
  "kinit s = freerange (kend s) PHYSTOP s"

declare freerange_loop.simps [simp del]

section \<open>The free list in memory\<close>

text \<open>\<open>flist m p xs\<close>: following the links from \<open>p\<close> visits exactly \<open>xs\<close>.\<close>

primrec flist :: "memory \<Rightarrow> uint64 \<Rightarrow> uint64 list \<Rightarrow> bool" where
  "flist m p [] \<longleftrightarrow> p = 0"
| "flist m p (x # xs) \<longleftrightarrow> p = x \<and> flist m (load64 m x) xs"

text \<open>A page the allocator may hold: aligned, in the managed range.\<close>

definition page_ok :: "'z kmem_scheme \<Rightarrow> uint64 \<Rightarrow> bool" where
  "page_ok s pa \<longleftrightarrow> pa mod PGSIZE = 0 \<and> kend s \<le> pa \<and> pa < PHYSTOP \<and> pa \<noteq> 0"

definition kmem_inv :: "'z kmem_scheme \<Rightarrow> uint64 list \<Rightarrow> bool" where
  "kmem_inv s xs \<longleftrightarrow> flist (phys s) (freelist s) xs \<and> distinct xs \<and> (\<forall>x\<in>set xs. page_ok s x)"

text \<open>The bytes of a page, and memories that agree outside one page.\<close>

definition in_page :: "uint64 \<Rightarrow> uint64 \<Rightarrow> bool" where
  "in_page p x \<longleftrightarrow> unat (x - p) < 4096"

definition same_outside :: "uint64 \<Rightarrow> memory \<Rightarrow> memory \<Rightarrow> bool" where
  "same_outside p m m' \<longleftrightarrow> (\<forall>x. \<not> in_page p x \<longrightarrow> m' x = m x)"

lemma unat_mod_4096: "unat (p mod 4096 :: uint64) = unat p mod 4096"
  by (simp add: unat_mod)

lemma aligned_page_iff: "aligned 4096 p \<longleftrightarrow> p mod PGSIZE = 0"
  using unat_mod_4096 [of p]
  by (auto simp: aligned_def PGSIZE_def dvd_eq_mod_eq_0 word_unat_eq_iff)

lemma page_ok_aligned: "page_ok s p \<Longrightarrow> aligned 4096 p"
  by (simp add: page_ok_def aligned_page_iff)

lemma other_page:
  assumes "aligned 4096 p" "aligned 4096 q" "p \<noteq> q" "k < 4096"
  shows "\<not> in_page p (q + of_nat k)"
  using aligned_diff_ge [OF _ assms] by (simp add: in_page_def not_less)

lemma load_bytes_outside:
  assumes "same_outside p m m'" "aligned 4096 p" "aligned 4096 q" "p \<noteq> q" "k + n \<le> 4096"
  shows "load_bytes m' (q + of_nat k) n = load_bytes m (q + of_nat k) n"
proof (rule nth_equalityI)
  fix i assume "i < length (load_bytes m' (q + of_nat k) n)"
  then have i: "i < n" by simp
  then have "\<not> in_page p (q + of_nat (k + i))"
    using assms by (intro other_page) auto
  then show "load_bytes m' (q + of_nat k) n ! i = load_bytes m (q + of_nat k) n ! i"
    using assms(1) i by (simp add: same_outside_def add.assoc)
qed simp

lemma load64_outside:
  assumes "same_outside p m m'" "aligned 4096 p" "aligned 4096 q" "p \<noteq> q" "k + 8 \<le> 4096"
  shows "load64 m' (q + of_nat k) = load64 m (q + of_nat k)"
  using load_bytes_outside [OF assms] by (simp add: load64_def)

lemma same_outside_refl [simp]: "same_outside p m m"
  by (simp add: same_outside_def)

lemma same_outside_trans:
  "same_outside p m m' \<Longrightarrow> same_outside p m' m'' \<Longrightarrow> same_outside p m m''"
  by (simp add: same_outside_def)

lemma same_outside_memset: "n \<le> 4096 \<Longrightarrow> same_outside p m (memset m p c n)"
  by (auto simp: same_outside_def in_page_def memset_eq store_bytes_def)

lemma same_outside_store:
  assumes "k + length bs \<le> 4096"
  shows "same_outside p m (store_bytes m (p + of_nat k) bs)"
proof -
  have "in_page p x" if x: "unat (x - (p + of_nat k)) < length bs" for x
  proof -
    let ?j = "unat (x - (p + of_nat k))"
    have "x = p + of_nat k + of_nat ?j" by simp
    then have "x = p + of_nat (k + ?j)" by (simp add: add.assoc)
    moreover have "k + ?j < 4096" using x assms by linarith
    ultimately have "unat (x - p) = k + ?j"
      by (subst addr_offset_iff [symmetric]) auto
    then show ?thesis using \<open>k + ?j < 4096\<close> by (simp add: in_page_def)
  qed
  then show ?thesis by (auto simp: same_outside_def store_bytes_def)
qed

lemma same_outside_store64:
  "k + 8 \<le> 4096 \<Longrightarrow> same_outside p m (store64 m (p + of_nat k) v)"
  using same_outside_store [of k "le_bytes 8 v" p m] by (simp add: store64_def)

lemma flist_frame:
  "(\<And>x. x \<in> set xs \<Longrightarrow> load64 m' x = load64 m x) \<Longrightarrow> flist m' p xs = flist m p xs"
  by (induction xs arbitrary: p) auto

lemma flist_outside:
  assumes "same_outside q m m'" "aligned 4096 q" "q \<notin> set xs" "\<And>x. x \<in> set xs \<Longrightarrow> aligned 4096 x"
  shows "flist m' p xs = flist m p xs"
proof (rule flist_frame)
  fix x assume "x \<in> set xs"
  then show "load64 m' x = load64 m x"
    using load64_outside [OF assms(1,2), of x 0] assms(3,4) by auto
qed

lemma aligned_4096_8: "aligned 4096 p \<Longrightarrow> aligned 8 p"
  using dvd_trans [of 8 4096 "unat p"] by (simp add: aligned_def)

section \<open>Correctness of the operations\<close>

lemma kfree_Ok:
  assumes "page_ok s pa"
  shows "kfree pa s = Ok (s\<lparr>phys := store64 (memset (phys s) pa 1 4096) pa (freelist s), freelist := pa\<rparr>)"
  using assms by (auto simp: kfree_def page_ok_def not_less)

lemma kfree_inv:
  assumes inv: "kmem_inv s xs" and ok: "page_ok s pa" and new: "pa \<notin> set xs"
  shows "\<exists>m f. kfree pa s = Ok (s\<lparr>phys := m, freelist := f\<rparr>) \<and>
    kmem_inv (s\<lparr>phys := m, freelist := f\<rparr>) (pa # xs) \<and> same_outside pa (phys s) m"
proof -
  let ?m = "store64 (memset (phys s) pa 1 4096) pa (freelist s)"
  have out: "same_outside pa (phys s) ?m"
    using same_outside_trans [OF same_outside_memset same_outside_store64 [of 0]] by simp
  have al: "aligned 4096 pa" "aligned 8 pa"
    using ok by (auto intro: page_ok_aligned aligned_4096_8)
  have "load64 ?m pa = freelist s" using al by (simp add: load64_store64)
  moreover have "flist ?m (freelist s) xs"
    using inv by (subst flist_outside [OF out al(1) new]) (auto simp: kmem_inv_def page_ok_aligned)
  ultimately have "kmem_inv (s\<lparr>phys := ?m, freelist := pa\<rparr>) (pa # xs)"
    using inv ok new by (auto simp: kmem_inv_def page_ok_def)
  then show ?thesis using kfree_Ok [OF ok] out by blast
qed

lemma kalloc_Nil: "kmem_inv s [] \<Longrightarrow> kalloc s = (0, s)"
  by (simp add: kmem_inv_def kalloc_def)

lemma kalloc_Cons:
  assumes inv: "kmem_inv s (x # xs)"
  shows "\<exists>m f. kalloc s = (x, s\<lparr>phys := m, freelist := f\<rparr>) \<and>
    kmem_inv (s\<lparr>phys := m, freelist := f\<rparr>) xs \<and> same_outside x (phys s) m \<and>
    load_bytes m x 4096 = replicate 4096 5"
proof -
  let ?m = "memset (phys s) x 5 4096"
  have x: "page_ok s x" "freelist s = x" "x \<notin> set xs" and al: "aligned 4096 x"
    using inv by (auto simp: kmem_inv_def intro: page_ok_aligned)
  have out: "same_outside x (phys s) ?m" by (simp add: same_outside_memset)
  have "flist ?m (load64 (phys s) x) xs"
    using inv by (subst flist_outside [OF out al x(3)]) (auto simp: kmem_inv_def page_ok_aligned)
  then have "kmem_inv (s\<lparr>phys := ?m, freelist := load64 (phys s) x\<rparr>) xs"
    using inv by (auto simp: kmem_inv_def page_ok_def)
  moreover have "load_bytes ?m x 4096 = replicate 4096 5"
    using load_store_same [of "replicate 4096 5" "phys s" x] by (simp add: memset_eq)
  moreover have "kalloc s = (x, s\<lparr>phys := ?m, freelist := load64 (phys s) x\<rparr>)"
    using x by (simp add: kalloc_def page_ok_def)
  ultimately show ?thesis using out by blast
qed

section \<open>The contract of the allocator\<close>

text \<open>
  What the users of the allocator rely on: allocation takes the first free page and returns
  the null pointer exactly when there is none, freeing gives the page back, both leave the
  memory outside that page alone, and the free pages are always distinct usable pages.
\<close>

locale page_allocator =
  fixes alloc :: "'s \<Rightarrow> uint64 \<times> 's"
    and free :: "uint64 \<Rightarrow> 's \<Rightarrow> 's res"
    and inv :: "'s \<Rightarrow> uint64 list \<Rightarrow> bool"
    and ok :: "'s \<Rightarrow> uint64 \<Rightarrow> bool"
    and ram :: "'s \<Rightarrow> memory"
  assumes alloc_none: "inv s [] \<Longrightarrow> alloc s = (0, s)"
    and alloc_page: "inv s (x # xs) \<Longrightarrow>
      \<exists>s'. alloc s = (x, s') \<and> inv s' xs \<and> same_outside x (ram s) (ram s') \<and> ok s' = ok s"
    and free_page: "inv s xs \<Longrightarrow> ok s p \<Longrightarrow> p \<notin> set xs \<Longrightarrow>
      \<exists>s'. free p s = Ok s' \<and> inv s' (p # xs) \<and> same_outside p (ram s) (ram s') \<and> ok s' = ok s"
    and inv_ok: "inv s xs \<Longrightarrow> x \<in> set xs \<Longrightarrow> ok s x"
    and inv_distinct: "inv s xs \<Longrightarrow> distinct xs"
    and ok_nonnull: "ok s x \<Longrightarrow> x \<noteq> 0"
begin

lemma alloc_null_iff: "inv s xs \<Longrightarrow> fst (alloc s) = 0 \<longleftrightarrow> xs = []"
  using alloc_none alloc_page inv_ok ok_nonnull by (cases xs) fastforce+

text \<open>The allocator and its users own disjoint sets of distinct usable pages.\<close>

definition owned :: "'s \<Rightarrow> uint64 list \<Rightarrow> uint64 list \<Rightarrow> bool" where
  "owned s xs live \<longleftrightarrow> inv s xs \<and> distinct live \<and> set live \<inter> set xs = {} \<and> (\<forall>p\<in>set live. ok s p)"

lemma owned_alloc:
  assumes "owned s (x # xs) live"
  shows "\<exists>s'. alloc s = (x, s') \<and> x \<noteq> 0 \<and> x \<notin> set live \<and> owned s' xs (x # live)"
proof -
  have inv: "inv s (x # xs)" using assms by (simp add: owned_def)
  obtain s' where s': "alloc s = (x, s')" "inv s' xs" "ok s' = ok s"
    using alloc_page [OF inv] by blast
  have "ok s x" "distinct (x # xs)" using inv inv_ok inv_distinct by (blast intro: list.set_intros)+
  then show ?thesis using s' assms by (auto simp: owned_def ok_nonnull)
qed

lemma owned_free:
  assumes "owned s xs live" "p \<in> set live"
  shows "\<exists>s'. free p s = Ok s' \<and> owned s' (p # xs) (remove1 p live)"
proof -
  have "inv s xs" "ok s p" "p \<notin> set xs" using assms by (auto simp: owned_def)
  then obtain s' where s': "free p s = Ok s'" "inv s' (p # xs)" "ok s' = ok s"
    using free_page by blast
  then show ?thesis using assms by (auto simp: owned_def)
qed

end

lemma page_ok_update [simp]:
  "page_ok (s\<lparr>phys := m\<rparr>) = page_ok s" "page_ok (s\<lparr>freelist := f\<rparr>) = page_ok s"
  by (simp_all add: page_ok_def fun_eq_iff)

interpretation ka: page_allocator kalloc kfree kmem_inv page_ok phys
proof
  fix s :: "'z kmem_scheme" and x xs
  show "kmem_inv s [] \<Longrightarrow> kalloc s = (0, s)" by (rule kalloc_Nil)
  show "\<exists>s'. kalloc s = (x, s') \<and> kmem_inv s' xs \<and> same_outside x (phys s) (phys s')
      \<and> page_ok s' = page_ok s" if "kmem_inv s (x # xs)"
    using kalloc_Cons [OF that] by fastforce
  show "\<exists>s'. kfree p s = Ok s' \<and> kmem_inv s' (p # xs) \<and> same_outside p (phys s) (phys s')
      \<and> page_ok s' = page_ok s" if "kmem_inv s xs" "page_ok s p" "p \<notin> set xs" for p
    using kfree_inv [OF that] by fastforce
qed (auto simp: kmem_inv_def page_ok_def)

lemma kmem_self [simp]: "s\<lparr>phys := phys s, freelist := freelist s\<rparr> = s"
  by simp

section \<open>Rounding to pages\<close>

lemma and_not_4095: "x AND - 4096 = x - x mod (4096 :: uint64)"
proof -
  have "x AND NOT (mask 12) = push_bit 12 (drop_bit 12 x)"
    by (rule bit_word_eqI) (auto simp: bit_simps)
  moreover have "push_bit 12 (drop_bit 12 x) + take_bit 12 x = x" by (rule bits_ident)
  moreover have "NOT (mask 12) = (- 4096 :: uint64)" by (simp add: mask_eq_exp_minus_1)
  moreover have "take_bit 12 x = x mod 4096" by (simp add: take_bit_eq_mod)
  ultimately show ?thesis by (metis add_diff_cancel_right')
qed

lemma unat_PGROUNDDOWN: "unat (PGROUNDDOWN a) = unat a div 4096 * 4096"
proof -
  have "a mod 4096 \<le> a" by (simp add: word_le_nat_alt unat_mod_4096)
  then have "unat (a - a mod 4096) = unat a - unat a mod 4096"
    by (simp add: unat64_sub unat_mod_4096)
  then show ?thesis
    by (simp add: PGROUNDDOWN_def PGSIZE_def and_not_4095 minus_mod_eq_div_mult)
qed

lemma PGROUNDUP_DOWN: "PGROUNDUP a = PGROUNDDOWN (a + 4095)"
  by (simp add: PGROUNDUP_def PGROUNDDOWN_def PGSIZE_def algebra_simps)

lemma unat_PGROUNDUP:
  "unat a + 4095 < 2 ^ 64 \<Longrightarrow> unat (PGROUNDUP a) = (unat a + 4095) div 4096 * 4096"
  using unat64_add [of a 4095] by (simp add: PGROUNDUP_DOWN unat_PGROUNDDOWN)

lemma aligned_PGROUNDDOWN [simp]: "aligned 4096 (PGROUNDDOWN a)"
  by (simp add: aligned_def unat_PGROUNDDOWN)

lemma aligned_PGROUNDUP [simp]: "aligned 4096 (PGROUNDUP a)"
  by (simp add: PGROUNDUP_DOWN)

section \<open>Boot: every page of the managed range becomes free\<close>

definition page_range :: "uint64 \<Rightarrow> nat \<Rightarrow> uint64 list" where
  "page_range p n = map (\<lambda>i. p + of_nat (4096 * i)) [0..<n]"

lemma page_range_Suc: "page_range p (Suc n) = p # page_range (p + PGSIZE) n"
proof -
  have "[0..<Suc n] = 0 # map Suc [0..<n]" by (simp add: upt_conv_Cons map_Suc_upt del: upt_Suc)
  then show ?thesis by (simp add: page_range_def PGSIZE_def algebra_simps del: upt_Suc)
qed

lemma unat_PHYSTOP: "unat PHYSTOP = 2281701376"
  by (simp add: PHYSTOP_def KERNBASE_def)

lemma freerange_loop_correct:
  assumes "kmem_inv s xs" "aligned 4096 p" "kend s \<le> p" "p \<noteq> 0"
    "unat p + 4096 * n \<le> unat PHYSTOP" "unat PHYSTOP < unat p + 4096 * Suc n"
    "\<And>x. x \<in> set xs \<Longrightarrow> x < p"
  shows "\<exists>m f. freerange_loop p PHYSTOP s = Ok (s\<lparr>phys := m, freelist := f\<rparr>) \<and>
    kmem_inv (s\<lparr>phys := m, freelist := f\<rparr>) (rev (page_range p n) @ xs)"
  using assms
proof (induction n arbitrary: p s xs)
  case 0
  have "unat (p + PGSIZE) = unat p + 4096"
    using 0 unat64_add [of p 4096] by (simp add: PGSIZE_def unat_PHYSTOP)
  then have "\<not> p + PGSIZE \<le> PHYSTOP" using 0 by (simp add: word_le_nat_alt)
  then have "freerange_loop p PHYSTOP s = Ok (s\<lparr>phys := phys s, freelist := freelist s\<rparr>)"
    by (simp add: freerange_loop.simps [of p])
  moreover have "kmem_inv (s\<lparr>phys := phys s, freelist := freelist s\<rparr>) (rev (page_range p 0) @ xs)"
    using 0 by (simp add: page_range_def)
  ultimately show ?case by blast
next
  case (Suc n)
  have pp: "unat (p + PGSIZE) = unat p + 4096"
    using Suc.prems unat64_add [of p 4096] by (simp add: PGSIZE_def unat_PHYSTOP)
  have go: "p + PGSIZE \<le> PHYSTOP" using Suc.prems(5) pp by (simp add: word_le_nat_alt)
  have ok: "page_ok s p"
    using Suc.prems by (auto simp: page_ok_def aligned_page_iff word_less_nat_alt)
  have new: "p \<notin> set xs" using Suc.prems(7) by blast
  obtain m f where kf: "kfree p s = Ok (s\<lparr>phys := m, freelist := f\<rparr>)"
    and inv: "kmem_inv (s\<lparr>phys := m, freelist := f\<rparr>) (p # xs)"
    using kfree_inv [OF Suc.prems(1) ok new] by blast
  let ?s = "s\<lparr>phys := m, freelist := f\<rparr>"
  have al: "aligned 4096 (p + PGSIZE)"
    using Suc.prems(2) pp by (simp add: aligned_def)
  have lt: "p < p + PGSIZE" using pp by (simp add: word_less_nat_alt)
  have "\<exists>m f. freerange_loop (p + PGSIZE) PHYSTOP ?s = Ok (?s\<lparr>phys := m, freelist := f\<rparr>) \<and>
      kmem_inv (?s\<lparr>phys := m, freelist := f\<rparr>) (rev (page_range (p + PGSIZE) n) @ p # xs)"
  proof (rule Suc.IH [OF inv al])
    show "kend ?s \<le> p + PGSIZE" using Suc.prems(3) lt by simp
    show "p + PGSIZE \<noteq> 0" using lt by auto
    show "x < p + PGSIZE" if "x \<in> set (p # xs)" for x
      using that Suc.prems(7) lt by (auto intro: less_trans)
  qed (use pp Suc.prems in auto)
  then show ?case using kf go
    by (simp add: freerange_loop.simps [of p] page_range_Suc)
qed

lemma page_count_bounds:
  fixes P K :: nat
  assumes "P \<le> K"
  shows "P + 4096 * ((K - P) div 4096) \<le> K" "K < P + 4096 * Suc ((K - P) div 4096)"
proof -
  obtain d where "K = P + d" using assms by (rule le_Suc_ex [elim_format]) blast
  then show "P + 4096 * ((K - P) div 4096) \<le> K" "K < P + 4096 * Suc ((K - P) div 4096)"
    using div_mult_mod_eq [of d 4096] mod_less_divisor [of 4096 d] by simp_all
qed

lemma kmem_inv_empty: "freelist s = 0 \<Longrightarrow> kmem_inv s []"
  by (simp add: kmem_inv_def)

text \<open>C13. Booting hands every page between \<open>end\<close> (rounded up) and \<open>PHYSTOP\<close> to the
  allocator, once each, without panicking.\<close>

theorem kinit_frees_all:
  assumes "freelist s = 0" and "0 < kend s" and "kend s \<le> PHYSTOP"
    and "n = (unat PHYSTOP - unat (PGROUNDUP (kend s))) div 4096"
  shows "\<exists>m f. kinit s = Ok (s\<lparr>phys := m, freelist := f\<rparr>) \<and>
    kmem_inv (s\<lparr>phys := m, freelist := f\<rparr>) (rev (page_range (PGROUNDUP (kend s)) n))"
proof -
  let ?p = "PGROUNDUP (kend s)"
  have e: "unat (kend s) \<le> 2281701376" "0 < unat (kend s)"
    using assms(2,3) by (simp_all add: word_le_nat_alt word_less_nat_alt unat_PHYSTOP)
  have p: "unat ?p = (unat (kend s) + 4095) div 4096 * 4096"
    using e by (intro unat_PGROUNDUP) simp
  have ge: "unat (kend s) \<le> unat ?p"
    using p div_mult_mod_eq [of "unat (kend s) + 4095" 4096]
      mod_less_divisor [of 4096 "unat (kend s) + 4095"] by linarith
  have "(unat (kend s) + 4095) div 4096 \<le> 557056"
    using div_le_mono [of "unat (kend s) + 4095" 2281705471 4096] e by simp
  then have le: "unat ?p \<le> 2281701376" using p by linarith
  have "\<exists>m f. freerange_loop ?p PHYSTOP s = Ok (s\<lparr>phys := m, freelist := f\<rparr>) \<and>
    kmem_inv (s\<lparr>phys := m, freelist := f\<rparr>) (rev (page_range ?p n) @ [])"
  proof (rule freerange_loop_correct)
    show "kend s \<le> ?p" using ge by (simp add: word_le_nat_alt)
    show "?p \<noteq> 0" using ge e by (auto simp: word_unat_eq_iff)
    show "unat ?p + 4096 * n \<le> unat PHYSTOP" "unat PHYSTOP < unat ?p + 4096 * Suc n"
      using page_count_bounds [OF le] assms(4) by (simp_all add: unat_PHYSTOP)
  qed (use assms(1) in \<open>auto intro: kmem_inv_empty\<close>)
  then show ?thesis by (simp add: kinit_def freerange_def)
qed

text \<open>A machine whose kernel leaves one page free, before and after \<open>kinit\<close>.\<close>

definition tiny :: "uint64 \<Rightarrow> kmem" where
  "tiny f = \<lparr>phys = (\<lambda>_. 0), kend = 0x87FFF000, freelist = f\<rparr>"

lemma PGROUNDUP_tiny: "PGROUNDUP 0x87FFF000 = 0x87FFF000"
  by (simp add: PGROUNDUP_def PGSIZE_def)

theorem kinit_frees_all_witness:
  "\<exists>m f. kinit (tiny 0) = Ok ((tiny 0)\<lparr>phys := m, freelist := f\<rparr>) \<and>
    kmem_inv ((tiny 0)\<lparr>phys := m, freelist := f\<rparr>) [0x87FFF000]"
proof -
  have n: "(1::nat) = (unat PHYSTOP - unat (PGROUNDUP (kend (tiny 0)))) div 4096"
    by (simp add: tiny_def PGROUNDUP_tiny unat_PHYSTOP)
  have "freelist (tiny 0) = 0" "0 < kend (tiny 0)" "kend (tiny 0) \<le> PHYSTOP"
    by (simp_all add: tiny_def PHYSTOP_def KERNBASE_def)
  from kinit_frees_all [OF this n] show ?thesis
    by (simp add: page_range_def tiny_def PGROUNDUP_tiny)
qed

section \<open>Users of the allocator\<close>

text \<open>
  Every sequence of calls by users that free only pages they were given: \<open>live\<close> lists the
  pages handed out and not yet freed.
\<close>

inductive kmem_reach ::
  "'z kmem_scheme \<Rightarrow> uint64 list \<Rightarrow> 'z kmem_scheme \<Rightarrow> bool" for s0 where
  start: "kmem_reach s0 [] s0"
| alloc: "kmem_reach s0 live s \<Longrightarrow> kalloc s = (r, s') \<Longrightarrow>
    kmem_reach s0 (if r = 0 then live else r # live) s'"
| free: "kmem_reach s0 live s \<Longrightarrow> p \<in> set live \<Longrightarrow> kfree p s = Ok s' \<Longrightarrow>
    kmem_reach s0 (remove1 p live) s'"

lemma kmem_reach_owned:
  assumes "kmem_reach s0 live s" "kmem_inv s0 xs0"
  shows "\<exists>xs. ka.owned s xs live \<and> set live \<union> set xs = set xs0"
  using assms
proof (induction rule: kmem_reach.induct)
  case start
  then show ?case by (auto simp: ka.owned_def)
next
  case (alloc live s r s')
  then obtain xs where xs: "ka.owned s xs live" "set live \<union> set xs = set xs0" by blast
  show ?case
  proof (cases xs)
    case Nil
    then have "r = 0 \<and> s' = s"
      using alloc.hyps xs kalloc_Nil [of s] by (simp add: ka.owned_def)
    then show ?thesis using xs by auto
  next
    case (Cons y ys)
    then have "r = y" "r \<noteq> 0" "ka.owned s' ys (y # live)"
      using alloc.hyps xs ka.owned_alloc [of s y ys live] by auto
    then show ?thesis using xs Cons by auto
  qed
next
  case (free live s p s')
  then obtain xs where xs: "ka.owned s xs live" "set live \<union> set xs = set xs0" by blast
  then have "ka.owned s' (p # xs) (remove1 p live)"
    using free.hyps ka.owned_free [of s xs live p] by auto
  moreover have "distinct live" using xs by (simp add: ka.owned_def)
  ultimately show ?case using xs free.hyps by (intro exI [of _ "p # xs"]) auto
qed

text \<open>C2. Whatever users do, no page is handed out twice, a page in use can always be freed,
  and \<open>kalloc\<close> returns null exactly when every page is in use.\<close>

theorem kmem_ownership:
  assumes "kmem_inv s0 xs0" and "kmem_reach s0 live s"
  shows "distinct live \<and> fst (kalloc s) \<notin> set live \<and>
    (fst (kalloc s) = 0 \<longleftrightarrow> set live = set xs0) \<and> (\<forall>p\<in>set live. \<exists>s'. kfree p s = Ok s')"
proof -
  obtain xs where own: "ka.owned s xs live" and all: "set live \<union> set xs = set xs0"
    using kmem_reach_owned [OF assms(2,1)] by blast
  have null: "fst (kalloc s) = 0 \<longleftrightarrow> set live = set xs0"
    using own all ka.alloc_null_iff [of s xs] by (cases xs) (auto simp: ka.owned_def)
  have fresh: "fst (kalloc s) \<notin> set live"
  proof (cases xs)
    case Nil
    then show ?thesis using own kalloc_Nil [of s]
      by (auto simp: ka.owned_def page_ok_def)
  next
    case (Cons y ys)
    then show ?thesis using own ka.owned_alloc [of s y ys live] by auto
  qed
  have "distinct live" using own by (simp add: ka.owned_def)
  moreover have "\<forall>p\<in>set live. \<exists>s'. kfree p s = Ok s'"
    using ka.owned_free [OF own] by blast
  ultimately show ?thesis using null fresh by blast
qed

lemma load64_zero [simp]: "load64 (\<lambda>_. 0) a = 0"
  by (simp add: load64_def load_bytes_def numeral_eq_Suc)

lemma tiny_inv: "kmem_inv (tiny 0x87FFF000) [0x87FFF000]"
  by (simp add: kmem_inv_def tiny_def page_ok_def PGSIZE_def PHYSTOP_def KERNBASE_def)

theorem kmem_ownership_witness:
  "\<exists>s. kmem_reach (tiny 0x87FFF000) [0x87FFF000] s \<and> fst (kalloc s) = 0 \<and>
    (\<exists>s'. kfree 0x87FFF000 s = Ok s')"
proof -
  let ?s = "snd (kalloc (tiny 0x87FFF000))"
  have "kalloc (tiny 0x87FFF000) = (0x87FFF000, ?s)"
    by (simp add: kalloc_def tiny_def)
  from kmem_reach.alloc [OF kmem_reach.start this]
  have r: "kmem_reach (tiny 0x87FFF000) [0x87FFF000] ?s" by simp
  from kmem_ownership [OF tiny_inv r] r show ?thesis by auto
qed

end
