(* ===== verification/Vm.thy ===== *)
theory Vm
  imports Kalloc
begin

text \<open>
  Virtual memory, \<^verbatim>\<open>kernel/vm.c\<close>: the Sv39 page tables, which live in pages of physical
  memory obtained from the allocator, and the operations that build, copy, walk and free them
  and that copy data between the kernel and a user address space.  This theory has the
  definitions; \<open>Vm_Walk\<close> and \<open>Vm_Copy\<close> have the theorems.
\<close>

section \<open>Page-table entries (kernel/riscv.h)\<close>

definition PTE_V :: uint64 where "PTE_V = 1"
definition PTE_R :: uint64 where "PTE_R = 2"
definition PTE_W :: uint64 where "PTE_W = 4"
definition PTE_X :: uint64 where "PTE_X = 8"
definition PTE_U :: uint64 where "PTE_U = 16"

definition PA2PTE :: "uint64 \<Rightarrow> uint64" where
  "PA2PTE pa = push_bit 10 (drop_bit 12 pa)"

definition PTE2PA :: "uint64 \<Rightarrow> uint64" where
  "PTE2PA pte = push_bit 12 (drop_bit 10 pte)"

definition PTE_FLAGS :: "uint64 \<Rightarrow> uint64" where
  "PTE_FLAGS pte = pte AND 0x3FF"

definition PX :: "nat \<Rightarrow> uint64 \<Rightarrow> uint64" where
  "PX level va = drop_bit (12 + 9 * level) va AND 0x1FF"

definition MAXVA :: uint64 where "MAXVA = push_bit (9 + 9 + 9 + 12 - 1) 1"

lemma MAXVA_eq: "MAXVA = 0x4000000000"
  by (simp add: MAXVA_def)

lemma unat_MAXVA: "unat MAXVA = 274877906944"
  by (simp add: MAXVA_eq)

section \<open>Walking and mapping\<close>

text \<open>The loop of \<open>walk\<close> from a given level down; null is 0.\<close>

primrec walk_loop ::
  "nat \<Rightarrow> uint64 \<Rightarrow> uint64 \<Rightarrow> bool \<Rightarrow> 'z kmem_scheme \<Rightarrow> uint64 \<times> 'z kmem_scheme" where
  "walk_loop 0 pagetable va alloc s = (pagetable + 8 * PX 0 va, s)"
| "walk_loop (Suc level) pagetable va alloc s =
     (let pte = pagetable + 8 * PX (Suc level) va;
          e = load64 (phys s) pte
      in if e AND PTE_V \<noteq> 0 then walk_loop level (PTE2PA e) va alloc s
         else if \<not> alloc then (0, s)
         else case kalloc s of (r, s) \<Rightarrow>
           if r = 0 then (0, s)
           else let m = memset (phys s) r 0 4096
                in walk_loop level r va alloc
                     (s\<lparr>phys := store64 m pte (PA2PTE r OR PTE_V)\<rparr>))"

definition walk ::
  "uint64 \<Rightarrow> uint64 \<Rightarrow> bool \<Rightarrow> 'z kmem_scheme \<Rightarrow> (uint64 \<times> 'z kmem_scheme) res" where
  "walk pagetable va alloc s =
     (if va \<ge> MAXVA then Panic ''walk'' else Ok (walk_loop 2 pagetable va alloc s))"

definition walkaddr :: "uint64 \<Rightarrow> uint64 \<Rightarrow> 'z kmem_scheme \<Rightarrow> uint64 res" where
  "walkaddr pagetable va s =
     (if va \<ge> MAXVA then Ok 0
      else bindR (walk pagetable va False s) (\<lambda>(pte, s).
        if pte = 0 then Ok 0
        else let e = load64 (phys s) pte
             in if e AND PTE_V = 0 then Ok 0
                else if e AND PTE_U = 0 then Ok 0
                else Ok (PTE2PA e)))"

text \<open>A successful \<open>walk\<close> was given an address below \<open>MAXVA\<close>; the loops below end by this.\<close>

lemma walk_Ok_less: "walk pt va alloc s = Ok r \<Longrightarrow> unat va < 274877906944"
  by (auto simp: walk_def not_le word_less_nat_alt unat_MAXVA split: if_splits)

lemma next_page_less:
  assumes "unat (a :: uint64) < 274877906944 + 4096"
  shows "unat (a + PGSIZE) = unat a + 4096"
  using assms unat64_add [of a 4096] by (simp add: PGSIZE_def)

function mappages_loop ::
  "uint64 \<Rightarrow> uint64 \<Rightarrow> uint64 \<Rightarrow> uint64 \<Rightarrow> uint64 \<Rightarrow> 'z kmem_scheme \<Rightarrow> (int \<times> 'z kmem_scheme) res"
where
  "mappages_loop pagetable a lst pa perm s =
     bindR (walk pagetable a True s) (\<lambda>(pte, s).
       if pte = 0 then Ok (-1, s)
       else if load64 (phys s) pte AND PTE_V \<noteq> 0 then Panic ''mappages: remap''
       else let s = s\<lparr>phys := store64 (phys s) pte (PA2PTE pa OR perm OR PTE_V)\<rparr>
            in if a = lst then Ok (0, s)
               else mappages_loop pagetable (a + PGSIZE) lst (pa + PGSIZE) perm s)"
  by pat_completeness auto
termination
  by (relation "measure (\<lambda>(pt, a, lst, pa, perm, s). 274877906944 - unat a)")
    (auto simp: next_page_less dest: walk_Ok_less)

definition mappages ::
  "uint64 \<Rightarrow> uint64 \<Rightarrow> uint64 \<Rightarrow> uint64 \<Rightarrow> uint64 \<Rightarrow> 'z kmem_scheme \<Rightarrow> (int \<times> 'z kmem_scheme) res"
where
  "mappages pagetable va sz pa perm s =
     (if sz = 0 then Panic ''mappages: size''
      else mappages_loop pagetable (PGROUNDDOWN va) (PGROUNDDOWN (va + sz - 1)) pa perm s)"

declare mappages_loop.simps [simp del]

function uvmunmap_loop ::
  "uint64 \<Rightarrow> uint64 \<Rightarrow> uint64 \<Rightarrow> bool \<Rightarrow> 'z kmem_scheme \<Rightarrow> 'z kmem_scheme res" where
  "uvmunmap_loop pagetable a limit do_free s =
     (if a < limit
      then bindR (walk pagetable a False s) (\<lambda>(pte, s).
        if pte = 0 then Panic ''uvmunmap: walk''
        else let e = load64 (phys s) pte
             in if e AND PTE_V = 0 then Panic ''uvmunmap: not mapped''
                else if PTE_FLAGS e = PTE_V then Panic ''uvmunmap: not a leaf''
                else bindR (if do_free then kfree (PTE2PA e) s else Ok s) (\<lambda>s.
                  uvmunmap_loop pagetable (a + PGSIZE) limit do_free
                    (s\<lparr>phys := store64 (phys s) pte 0\<rparr>)))
      else Ok s)"
  by pat_completeness auto
termination
  by (relation "measure (\<lambda>(pt, a, limit, f, s). 274877906944 - unat a)")
    (auto simp: next_page_less dest: walk_Ok_less)

definition uvmunmap ::
  "uint64 \<Rightarrow> uint64 \<Rightarrow> uint64 \<Rightarrow> bool \<Rightarrow> 'z kmem_scheme \<Rightarrow> 'z kmem_scheme res" where
  "uvmunmap pagetable va npages do_free s =
     (if va mod PGSIZE \<noteq> 0 then Panic ''uvmunmap: not aligned''
      else uvmunmap_loop pagetable va (va + npages * PGSIZE) do_free s)"

declare uvmunmap_loop.simps [simp del]

definition uvmcreate :: "'z kmem_scheme \<Rightarrow> uint64 \<times> 'z kmem_scheme" where
  "uvmcreate s =
     (case kalloc s of (pagetable, s) \<Rightarrow>
        if pagetable = 0 then (0, s)
        else (pagetable, s\<lparr>phys := memset (phys s) pagetable 0 4096\<rparr>))"

text \<open>\<open>src\<close> is the \<open>initcode\<close> array; its size is \<open>sz\<close>.\<close>

definition uvminit :: "uint64 \<Rightarrow> byte list \<Rightarrow> 'z kmem_scheme \<Rightarrow> 'z kmem_scheme res" where
  "uvminit pagetable src s =
     (if length src \<ge> 4096 then Panic ''inituvm: more than a page''
      else case kalloc s of (frame, s) \<Rightarrow>
        let s = s\<lparr>phys := memset (phys s) frame 0 4096\<rparr>
        in bindR (mappages pagetable 0 PGSIZE frame (PTE_W OR PTE_R OR PTE_X OR PTE_U) s) (\<lambda>(_, s).
             Ok (s\<lparr>phys := store_bytes (phys s) frame src\<rparr>)))"

text \<open>\<open>int npages\<close> is 32 bits wide: the conversions from and to \<open>uint64\<close> are written out.\<close>

definition uvmdealloc ::
  "uint64 \<Rightarrow> uint64 \<Rightarrow> uint64 \<Rightarrow> 'z kmem_scheme \<Rightarrow> (uint64 \<times> 'z kmem_scheme) res" where
  "uvmdealloc pagetable oldsz newsz s =
     (if newsz \<ge> oldsz then Ok (oldsz, s)
      else if PGROUNDUP newsz < PGROUNDUP oldsz
      then let npages = (ucast ((PGROUNDUP oldsz - PGROUNDUP newsz) div PGSIZE) :: 32 word)
           in bindR (uvmunmap pagetable (PGROUNDUP newsz) (scast npages) True s) (\<lambda>s.
                Ok (newsz, s))
      else Ok (newsz, s))"

lemma mappages_Ok_less:
  assumes "mappages pt va sz pa perm s = Ok r"
  shows "unat va < 274877906944 + 4096"
proof -
  have "unat (PGROUNDDOWN va) < 274877906944"
    using assms
    by (auto simp: mappages_def mappages_loop.simps [of pt "PGROUNDDOWN va"] bindR_eq_Ok
        dest!: walk_Ok_less split: if_splits)
  then show ?thesis
    using div_mult_mod_eq [of "unat va" 4096] mod_less_divisor [of 4096 "unat va"]
    by (simp add: unat_PGROUNDDOWN)
qed

function uvmalloc_loop ::
  "uint64 \<Rightarrow> uint64 \<Rightarrow> uint64 \<Rightarrow> uint64 \<Rightarrow> 'z kmem_scheme \<Rightarrow> (uint64 \<times> 'z kmem_scheme) res" where
  "uvmalloc_loop pagetable a oldsz newsz s =
     (if a < newsz
      then case kalloc s of (frame, s) \<Rightarrow>
        if frame = 0 then bindR (uvmdealloc pagetable a oldsz s) (\<lambda>(_, s). Ok (0, s))
        else bindR (mappages pagetable a PGSIZE frame (PTE_W OR PTE_X OR PTE_R OR PTE_U)
                      (s\<lparr>phys := memset (phys s) frame 0 4096\<rparr>)) (\<lambda>(r, s).
          if r \<noteq> 0
          then bindR (kfree frame s) (\<lambda>s.
               bindR (uvmdealloc pagetable a oldsz s) (\<lambda>(_, s). Ok (0, s)))
          else uvmalloc_loop pagetable (a + PGSIZE) oldsz newsz s)
      else Ok (newsz, s))"
  by pat_completeness auto
termination
  by (relation "measure (\<lambda>(pt, a, oldsz, newsz, s). 274877906944 + 4096 - unat a)")
    (auto simp: next_page_less dest: mappages_Ok_less)

definition uvmalloc ::
  "uint64 \<Rightarrow> uint64 \<Rightarrow> uint64 \<Rightarrow> 'z kmem_scheme \<Rightarrow> (uint64 \<times> 'z kmem_scheme) res" where
  "uvmalloc pagetable oldsz newsz s =
     (if newsz < oldsz then Ok (oldsz, s)
      else let oldsz = PGROUNDUP oldsz in uvmalloc_loop pagetable oldsz oldsz newsz s)"

declare uvmalloc_loop.simps [simp del]

section \<open>Freeing and copying page tables\<close>

text \<open>
  \<open>freewalk\<close> recurses through memory; \<open>depth\<close> bounds the recursion, and three levels are
  enough for every Sv39 table.
\<close>

primrec freewalk :: "nat \<Rightarrow> uint64 \<Rightarrow> 'z kmem_scheme \<Rightarrow> 'z kmem_scheme res" where
  "freewalk 0 pagetable s = Blocked"
| "freewalk (Suc depth) pagetable s =
     bindR (foldR (\<lambda>i s.
         let slot = pagetable + of_nat (8 * i);
             pte = load64 (phys s) slot
         in if pte AND PTE_V \<noteq> 0 \<and> pte AND (PTE_R OR PTE_W OR PTE_X) = 0
            then bindR (freewalk depth (PTE2PA pte) s) (\<lambda>s.
                   Ok (s\<lparr>phys := store64 (phys s) slot 0\<rparr>))
            else if pte AND PTE_V \<noteq> 0 then Panic ''freewalk: leaf''
            else Ok s) [0..<512] s)
       (kfree pagetable)"

definition uvmfree :: "uint64 \<Rightarrow> uint64 \<Rightarrow> 'z kmem_scheme \<Rightarrow> 'z kmem_scheme res" where
  "uvmfree pagetable sz s =
     bindR (if sz > 0 then uvmunmap pagetable 0 (PGROUNDUP sz div PGSIZE) True s else Ok s)
       (freewalk 3 pagetable)"

function uvmcopy_loop ::
  "uint64 \<Rightarrow> uint64 \<Rightarrow> uint64 \<Rightarrow> uint64 \<Rightarrow> 'z kmem_scheme \<Rightarrow> (int \<times> 'z kmem_scheme) res" where
  "uvmcopy_loop old new i sz s =
     (if i < sz
      then bindR (walk old i False s) (\<lambda>(pte, s).
        if pte = 0 then Panic ''uvmcopy: pte should exist''
        else let e = load64 (phys s) pte
             in if e AND PTE_V = 0 then Panic ''uvmcopy: page not present''
                else case kalloc s of (frame, s) \<Rightarrow>
                  if frame = 0
                  then bindR (uvmunmap new 0 (i div PGSIZE) True s) (\<lambda>s. Ok (-1, s))
                  else bindR (mappages new i PGSIZE frame (PTE_FLAGS e)
                                (s\<lparr>phys := memmove (phys s) frame (PTE2PA e) 4096\<rparr>)) (\<lambda>(r, s).
                    if r \<noteq> 0
                    then bindR (kfree frame s) (\<lambda>s.
                         bindR (uvmunmap new 0 (i div PGSIZE) True s) (\<lambda>s. Ok (-1, s)))
                    else uvmcopy_loop old new (i + PGSIZE) sz s))
      else Ok (0, s))"
  by pat_completeness auto
termination
  by (relation "measure (\<lambda>(old, new, i, sz, s). 274877906944 - unat i)")
    (auto simp: next_page_less dest: walk_Ok_less)

definition uvmcopy :: "uint64 \<Rightarrow> uint64 \<Rightarrow> uint64 \<Rightarrow> 'z kmem_scheme \<Rightarrow> (int \<times> 'z kmem_scheme) res" where
  "uvmcopy old new sz s = uvmcopy_loop old new 0 sz s"

declare uvmcopy_loop.simps [simp del]

definition uvmclear :: "uint64 \<Rightarrow> uint64 \<Rightarrow> 'z kmem_scheme \<Rightarrow> 'z kmem_scheme res" where
  "uvmclear pagetable va s =
     bindR (walk pagetable va False s) (\<lambda>(pte, s).
       if pte = 0 then Panic ''uvmclear''
       else Ok (s\<lparr>phys := store64 (phys s) pte (load64 (phys s) pte AND NOT PTE_U)\<rparr>))"

section \<open>Copying between the kernel and user memory\<close>

text \<open>
  The kernel side of a copy is a byte list.  An error leaves what was copied before it:
  \<open>copyout\<close> keeps the pages already written, \<open>copyin\<close> and \<open>copyinstr\<close> return the bytes already
  stored at \<open>dst\<close>.
\<close>

text \<open>The number of bytes from \<open>va\<close> to the end of its page: \<open>PGSIZE - (va - va0)\<close>.\<close>

definition page_rest :: "uint64 \<Rightarrow> nat" where
  "page_rest va = 4096 - unat (va - PGROUNDDOWN va)"

lemma unat_page_off: "unat (va - PGROUNDDOWN va) = unat va mod 4096"
  using unat64_sub [of "PGROUNDDOWN va" va]
  by (simp add: unat_PGROUNDDOWN word_le_nat_alt minus_div_mult_eq_mod)

lemma page_rest_eq: "page_rest va = 4096 - unat va mod 4096"
  by (simp add: page_rest_def unat_page_off)

lemma page_rest_pos [simp]: "0 < page_rest va"
  by (simp add: page_rest_eq)

function copyout ::
  "uint64 \<Rightarrow> uint64 \<Rightarrow> byte list \<Rightarrow> 'z kmem_scheme \<Rightarrow> (int \<times> 'z kmem_scheme) res" where
  "copyout pagetable dstva src s =
     (if src = [] then Ok (0, s)
      else let va0 = PGROUNDDOWN dstva
           in bindR (walkaddr pagetable va0 s) (\<lambda>pa0.
                if pa0 = 0 then Ok (-1, s)
                else let n = page_rest dstva;
                         n = (if n > length src then length src else n)
                     in copyout pagetable (va0 + PGSIZE) (drop n src)
                          (s\<lparr>phys := store_bytes (phys s) (pa0 + (dstva - va0)) (take n src)\<rparr>)))"
  by pat_completeness auto
termination
  by (relation "measure (\<lambda>(pt, va, src, s). length src)") (auto simp: Let_def)

function copyin ::
  "uint64 \<Rightarrow> uint64 \<Rightarrow> nat \<Rightarrow> 'z kmem_scheme \<Rightarrow> (int \<times> byte list) res" where
  "copyin pagetable srcva len s =
     (if len = 0 then Ok (0, [])
      else let va0 = PGROUNDDOWN srcva
           in bindR (walkaddr pagetable va0 s) (\<lambda>pa0.
                if pa0 = 0 then Ok (-1, [])
                else let n = page_rest srcva;
                         n = (if n > len then len else n)
                     in bindR (copyin pagetable (va0 + PGSIZE) (len - n) s) (\<lambda>(r, bs).
                          Ok (r, load_bytes (phys s) (pa0 + (srcva - va0)) n @ bs))))"
  by pat_completeness auto
termination
  by (relation "measure (\<lambda>(pt, va, len, s). len)") (auto simp: Let_def)

text \<open>The inner loop of \<open>copyinstr\<close>: the bytes stored and \<open>got_null\<close>.\<close>

primrec copyinstr_page :: "memory \<Rightarrow> uint64 \<Rightarrow> nat \<Rightarrow> byte list \<times> bool" where
  "copyinstr_page m p 0 = ([], False)"
| "copyinstr_page m p (Suc n) =
     (if m p = 0 then ([0], True)
      else case copyinstr_page m (p + 1) n of (bs, got_null) \<Rightarrow> (m p # bs, got_null))"

function copyinstr ::
  "uint64 \<Rightarrow> uint64 \<Rightarrow> nat \<Rightarrow> 'z kmem_scheme \<Rightarrow> (int \<times> byte list) res" where
  "copyinstr pagetable srcva maxn s =
     (if maxn = 0 then Ok (-1, [])
      else let va0 = PGROUNDDOWN srcva
           in bindR (walkaddr pagetable va0 s) (\<lambda>pa0.
                if pa0 = 0 then Ok (-1, [])
                else let n = page_rest srcva;
                         n = (if n > maxn then maxn else n)
                     in case copyinstr_page (phys s) (pa0 + (srcva - va0)) n of (bs, got_null) \<Rightarrow>
                          if got_null then Ok (0, bs)
                          else bindR (copyinstr pagetable (va0 + PGSIZE) (maxn - n) s) (\<lambda>(r, bs').
                                 Ok (r, bs @ bs'))))"
  by pat_completeness auto
termination
  by (relation "measure (\<lambda>(pt, va, maxn, s). maxn)") (auto simp: Let_def)

declare copyout.simps [simp del] copyin.simps [simp del] copyinstr.simps [simp del]

section \<open>The kernel page table\<close>

text \<open>Device addresses and the virtual layout (\<^verbatim>\<open>kernel/memlayout.h\<close>).\<close>

definition UART0 :: uint64 where "UART0 = 0x10000000"
definition VIRTIO0 :: uint64 where "VIRTIO0 = 0x10001000"
definition PLIC :: uint64 where "PLIC = 0x0c000000"
definition TRAMPOLINE :: uint64 where "TRAMPOLINE = MAXVA - PGSIZE"
definition TRAPFRAME :: uint64 where "TRAPFRAME = TRAMPOLINE - PGSIZE"
definition KSTACK :: "nat \<Rightarrow> uint64" where
  "KSTACK p = TRAMPOLINE - (of_nat p + 1) * 2 * PGSIZE"

definition kvmmap ::
  "uint64 \<Rightarrow> uint64 \<Rightarrow> uint64 \<Rightarrow> uint64 \<Rightarrow> uint64 \<Rightarrow> 'z kmem_scheme \<Rightarrow> 'z kmem_scheme res" where
  "kvmmap kpgtbl va pa sz perm s =
     bindR (mappages kpgtbl va sz pa perm s) (\<lambda>(r, s).
       if r \<noteq> 0 then Panic ''kvmmap'' else Ok s)"

definition proc_mapstacks :: "uint64 \<Rightarrow> 'z kmem_scheme \<Rightarrow> 'z kmem_scheme res" where
  "proc_mapstacks kpgtbl s =
     foldR (\<lambda>p s. case kalloc s of (pa, s) \<Rightarrow>
         if pa = 0 then Panic ''kalloc''
         else kvmmap kpgtbl (KSTACK p) pa PGSIZE (PTE_R OR PTE_W) s) [0..<NPROC] s"

text \<open>\<open>etext\<close> and \<open>trampoline\<close> are linker symbols.\<close>

definition kvmmake :: "uint64 \<Rightarrow> uint64 \<Rightarrow> 'z kmem_scheme \<Rightarrow> (uint64 \<times> 'z kmem_scheme) res" where
  "kvmmake etext trampoline s =
     (case kalloc s of (kpgtbl, s) \<Rightarrow>
        bindR (kvmmap kpgtbl UART0 UART0 PGSIZE (PTE_R OR PTE_W)
                 (s\<lparr>phys := memset (phys s) kpgtbl 0 4096\<rparr>)) (\<lambda>s.
        bindR (kvmmap kpgtbl VIRTIO0 VIRTIO0 PGSIZE (PTE_R OR PTE_W) s) (\<lambda>s.
        bindR (kvmmap kpgtbl PLIC PLIC 0x400000 (PTE_R OR PTE_W) s) (\<lambda>s.
        bindR (kvmmap kpgtbl KERNBASE KERNBASE (etext - KERNBASE) (PTE_R OR PTE_X) s) (\<lambda>s.
        bindR (kvmmap kpgtbl etext etext (PHYSTOP - etext) (PTE_R OR PTE_W) s) (\<lambda>s.
        bindR (kvmmap kpgtbl TRAMPOLINE trampoline PGSIZE (PTE_R OR PTE_X) s) (\<lambda>s.
        bindR (proc_mapstacks kpgtbl s) (\<lambda>s. Ok (kpgtbl, s)))))))))"

end
