(* ===== verification/Vm_Walk.thy ===== *)
theory Vm_Walk
  imports Vm
begin

text \<open>
  Correctness of the page-table walk.  A page table is a tree of pages in physical memory;
  \<open>leaf\<close> reads it as a function from virtual addresses to leaf entries, \<open>tabs\<close> is the set of
  pages it occupies and \<open>ptree\<close> says that the tree has no sharing.  The lemmas show how
  \<open>walk\<close> and \<open>mappages\<close> change that function, and that the pages a table grows by are taken
  from the allocator.
\<close>

section \<open>Entry encoding\<close>

lemma bits_small: "f AND 0x3FF = f \<Longrightarrow> bit (f :: uint64) n \<Longrightarrow> n < 10"
proof -
  assume a: "f AND 0x3FF = f" and b: "bit f n"
  have "(0x3FF :: uint64) = mask 10" by (simp add: mask_eq_exp_minus_1)
  then have "bit (f AND mask 10) n" using a b by simp
  then show "n < 10" by (simp add: bit_and_iff bit_mask_iff)
qed

lemma bit_aligned_page: "aligned 4096 p \<Longrightarrow> bit p n \<Longrightarrow> 12 \<le> n"
proof (rule ccontr)
  assume al: "aligned 4096 p" and b: "bit p n" and n: "\<not> 12 \<le> n"
  have "p mod 4096 = 0" using al by (simp add: aligned_page_iff PGSIZE_def)
  then have "take_bit 12 p = 0" by (simp add: take_bit_eq_mod)
  then have "\<not> bit (take_bit 12 p) n" by simp
  then show False using b n by (simp add: bit_take_bit_iff)
qed

lemma PTE2PA_entry:
  assumes "aligned 4096 pa" "f AND 0x3FF = f"
  shows "PTE2PA (PA2PTE pa OR f) = pa"
proof (rule bit_word_eqI)
  fix n assume "n < LENGTH(64)"
  then show "bit (PTE2PA (PA2PTE pa OR f)) n = bit pa n"
    using bit_aligned_page [OF assms(1), of n] bits_small [OF assms(2), of "n - 2"]
    by (auto simp: PTE2PA_def PA2PTE_def bit_simps)
qed

lemma PTE_FLAGS_entry:
  assumes "f AND 0x3FF = f"
  shows "PTE_FLAGS (PA2PTE pa OR f) = f"
proof (rule bit_word_eqI)
  fix n assume n: "n < LENGTH(64)"
  have m: "(0x3FF :: uint64) = mask 10" by (simp add: mask_eq_exp_minus_1)
  show "bit (PTE_FLAGS (PA2PTE pa OR f)) n = bit f n"
    using bits_small [OF assms, of n] n
    by (auto simp: PTE_FLAGS_def PA2PTE_def bit_simps m)
qed

text \<open>The flag bits of an entry are those of the permissions it was built from.\<close>

lemma entry_flag:
  assumes "b \<in> {PTE_V, PTE_R, PTE_W, PTE_X, PTE_U}"
  shows "(PA2PTE pa OR f) AND b = f AND b"
proof -
  have b: "\<exists>k<10. b = push_bit k 1"
    using assms by (auto simp: PTE_V_def PTE_R_def PTE_W_def PTE_X_def PTE_U_def
        intro: exI [of _ 0] exI [of _ 1] exI [of _ 2] exI [of _ 3] exI [of _ 4])
  show ?thesis
  proof (rule bit_word_eqI)
    fix n assume "n < LENGTH(64)"
    then show "bit ((PA2PTE pa OR f) AND b) n = bit (f AND b) n"
      using b by (auto simp: PA2PTE_def bit_simps)
  qed
qed

section \<open>Slots of a page-table page\<close>

definition slot :: "uint64 \<Rightarrow> nat \<Rightarrow> uint64" where
  "slot p i = p + of_nat (8 * i)"

definition PXn :: "nat \<Rightarrow> uint64 \<Rightarrow> nat" where
  "PXn l va = unat (PX l va)"

lemma PXn_less [simp]: "PXn l va < 512"
proof -
  have "(0x1FF :: uint64) = mask 9" by (simp add: mask_eq_exp_minus_1)
  then have "PX l va = take_bit 9 (drop_bit (12 + 9 * l) va)"
    by (simp add: PX_def take_bit_eq_mask)
  then have "unat (PX l va) < 2 ^ 9" using take_bit_nat_less_exp [of 9 "unat (drop_bit (12 + 9 * l) va)"]
    by (simp add: unsigned_take_bit_eq)
  then show ?thesis by (simp add: PXn_def)
qed

lemma walk_slot: "p + 8 * PX l va = slot p (PXn l va)"
  by (simp add: slot_def PXn_def)

lemma unat_off8: "i < 512 \<Longrightarrow> unat (8 * of_nat i :: uint64) = 8 * i"
  using unat64_of_nat [of "8 * i"] by simp

lemma in_page_slot: "i < 512 \<Longrightarrow> in_page p (slot p i)"
  by (simp add: in_page_def slot_def unat_off8)

lemma aligned_slot:
  assumes "aligned 4096 p" "i < 512"
  shows "aligned 8 (slot p i)"
proof -
  have "unat p + 8 * i < 2 ^ 64"
  proof -
    obtain k where k: "unat p = 4096 * k" using assms(1) by (auto simp: aligned_def)
    have "4096 * k < 4096 * 2 ^ 52" using unat64_lt [of p] k by simp
    then have "k < 2 ^ 52" by simp
    then have "4096 * k + 4096 \<le> 2 ^ 64" by simp
    then show ?thesis using k assms(2) by simp
  qed
  then have "unat (slot p i) = unat p + 8 * i" unfolding slot_def by (rule unat64_add)
  moreover have "8 dvd unat p" using aligned_4096_8 [OF assms(1)] by (simp add: aligned_def)
  ultimately show ?thesis by (simp add: aligned_def)
qed

lemma slot_inj:
  assumes "aligned 4096 p" "aligned 4096 q" "i < 512" "j < 512"
  shows "slot p i = slot q j \<longleftrightarrow> p = q \<and> i = j"
proof
  assume eq: "slot p i = slot q j"
  show "p = q \<and> i = j"
  proof (cases "p = q")
    case True
    then have "of_nat (8 * i) = (of_nat (8 * j) :: uint64)" using eq by (simp add: slot_def)
    then have "unat (of_nat (8 * i) :: uint64) = unat (of_nat (8 * j) :: uint64)" by simp
    then show ?thesis using True assms by (simp add: unat_off8)
  next
    case False
    have "\<not> in_page p (slot q j)"
      using other_page [OF assms(1,2) False, of "8 * j"] assms(4) by (simp add: slot_def)
    then show ?thesis using in_page_slot [OF assms(3), of p] eq by simp
  qed
qed simp

lemma load64_slot_store:
  assumes "aligned 4096 p" "aligned 4096 q" "i < 512" "j < 512"
  shows "load64 (store64 m (slot p i) v) (slot q j) =
    (if p = q \<and> i = j then v else load64 m (slot q j))"
  using load64_store64 [OF aligned_slot [OF assms(1,3)] aligned_slot [OF assms(2,4)]]
    slot_inj [OF assms] by simp

section \<open>Memories that agree outside a set of pages\<close>

definition outside :: "uint64 set \<Rightarrow> memory \<Rightarrow> memory \<Rightarrow> bool" where
  "outside T m m' \<longleftrightarrow> (\<forall>x. (\<forall>p\<in>T. \<not> in_page p x) \<longrightarrow> m' x = m x)"

lemma outside_refl [simp]: "outside T m m"
  by (simp add: outside_def)

lemma outside_mono: "outside T m m' \<Longrightarrow> T \<subseteq> U \<Longrightarrow> outside U m m'"
  by (auto simp: outside_def)

lemma outside_trans: "outside T m m' \<Longrightarrow> outside T m' m'' \<Longrightarrow> outside T m m''"
  by (simp add: outside_def)

lemma same_outside_imp: "same_outside p m m' \<Longrightarrow> p \<in> T \<Longrightarrow> outside T m m'"
  by (auto simp: same_outside_def outside_def)

lemma outside_store_slot: "i < 512 \<Longrightarrow> p \<in> T \<Longrightarrow> outside T m (store64 m (slot p i) v)"
  using same_outside_store64 [of "8 * i" p m v]
  by (auto simp: slot_def intro: same_outside_imp)

lemma outside_load_bytes:
  assumes "outside T m m'" "\<And>p. p \<in> T \<Longrightarrow> aligned 4096 p" "aligned 4096 q" "q \<notin> T" "k + n \<le> 4096"
  shows "load_bytes m' (q + of_nat k) n = load_bytes m (q + of_nat k) n"
proof (rule nth_equalityI)
  fix i assume "i < length (load_bytes m' (q + of_nat k) n)"
  then have i: "i < n" by simp
  then have "\<not> in_page p (q + of_nat (k + i))" if "p \<in> T" for p
    using assms that by (intro other_page) auto
  then show "load_bytes m' (q + of_nat k) n ! i = load_bytes m (q + of_nat k) n ! i"
    using assms(1) i by (simp add: outside_def add.assoc)
qed simp

lemma outside_slot:
  assumes "outside T m m'" "\<And>p. p \<in> T \<Longrightarrow> aligned 4096 p" "aligned 4096 q" "q \<notin> T" "i < 512"
  shows "load64 m' (slot q i) = load64 m (slot q i)"
  using outside_load_bytes [OF assms(1-4), of "8 * i" 8] assms(5)
  by (simp add: load64_def slot_def)

lemma outside_flist:
  assumes "outside T m m'" "\<And>p. p \<in> T \<Longrightarrow> aligned 4096 p" "\<And>x. x \<in> set xs \<Longrightarrow> aligned 4096 x"
    "T \<inter> set xs = {}"
  shows "flist m' p xs = flist m p xs"
proof (rule flist_frame)
  fix x assume "x \<in> set xs"
  then show "load64 m' x = load64 m x"
    using outside_slot [OF assms(1,2), of x 0] assms(3,4) by (auto simp: slot_def)
qed

lemma outside_inv:
  assumes "kmem_inv s xs" "outside T (phys s) m" "\<And>p. p \<in> T \<Longrightarrow> aligned 4096 p" "T \<inter> set xs = {}"
  shows "kmem_inv (s\<lparr>phys := m\<rparr>) xs"
proof -
  have "flist m (freelist s) xs = flist (phys s) (freelist s) xs"
    using assms(1) by (intro outside_flist [OF assms(2,3) _ assms(4)])
      (auto simp: kmem_inv_def page_ok_aligned)
  then show ?thesis using assms(1) by (simp add: kmem_inv_def)
qed

section \<open>Page-table trees\<close>

definition good :: "uint64 \<Rightarrow> bool" where
  "good p \<longleftrightarrow> aligned 4096 p \<and> p \<noteq> 0"

definition child :: "memory \<Rightarrow> uint64 \<Rightarrow> nat \<Rightarrow> uint64 option" where
  "child m pt i =
     (let e = load64 m (slot pt i) in if e AND PTE_V \<noteq> 0 then Some (PTE2PA e) else None)"

primrec tabs :: "memory \<Rightarrow> nat \<Rightarrow> uint64 \<Rightarrow> uint64 set" where
  "tabs m 0 pt = {pt}"
| "tabs m (Suc l) pt = insert pt (\<Union>i\<in>{..<512}. \<Union>c\<in>set_option (child m pt i). tabs m l c)"

primrec ptree :: "memory \<Rightarrow> nat \<Rightarrow> uint64 \<Rightarrow> bool" where
  "ptree m 0 pt \<longleftrightarrow> good pt"
| "ptree m (Suc l) pt \<longleftrightarrow> good pt \<and>
     (\<forall>i<512. \<forall>c. child m pt i = Some c \<longrightarrow> ptree m l c \<and> pt \<notin> tabs m l c) \<and>
     (\<forall>i<512. \<forall>j<512. \<forall>c d. i \<noteq> j \<and> child m pt i = Some c \<and> child m pt j = Some d \<longrightarrow>
        tabs m l c \<inter> tabs m l d = {})"

text \<open>The address of the leaf entry, if the tables for it exist, and its contents (0 if not).\<close>

primrec walkp :: "memory \<Rightarrow> nat \<Rightarrow> uint64 \<Rightarrow> uint64 \<Rightarrow> uint64 option" where
  "walkp m 0 pt va = Some (slot pt (PXn 0 va))"
| "walkp m (Suc l) pt va =
     (case child m pt (PXn (Suc l) va) of None \<Rightarrow> None | Some c \<Rightarrow> walkp m l c va)"

primrec leaf :: "memory \<Rightarrow> nat \<Rightarrow> uint64 \<Rightarrow> uint64 \<Rightarrow> uint64" where
  "leaf m 0 pt va = load64 m (slot pt (PXn 0 va))"
| "leaf m (Suc l) pt va =
     (case child m pt (PXn (Suc l) va) of None \<Rightarrow> 0 | Some c \<Rightarrow> leaf m l c va)"

lemma leaf_walkp:
  "leaf m l pt va = (case walkp m l pt va of None \<Rightarrow> 0 | Some a \<Rightarrow> load64 m a)"
  by (induction l arbitrary: pt) (auto split: option.splits)

lemma ptree_good: "ptree m l pt \<Longrightarrow> good pt"
  by (cases l) auto

lemma ptree_child:
  "ptree m (Suc l) pt \<Longrightarrow> i < 512 \<Longrightarrow> child m pt i = Some c \<Longrightarrow> ptree m l c"
  by simp

lemma tabs_root [simp]: "pt \<in> tabs m l pt"
  by (cases l) auto

lemma tabs_good: "ptree m l pt \<Longrightarrow> t \<in> tabs m l pt \<Longrightarrow> good t"
proof (induction l arbitrary: pt)
  case (Suc l)
  then show ?case by (fastforce simp: ptree_good)
qed simp

lemma good_aligned: "good p \<Longrightarrow> aligned 4096 p"
  by (simp add: good_def)

lemma child_outside:
  assumes "outside T m m'" "\<And>p. p \<in> T \<Longrightarrow> aligned 4096 p" "good pt" "pt \<notin> T" "i < 512"
  shows "child m' pt i = child m pt i"
  using outside_slot [OF assms(1,2) good_aligned [OF assms(3)] assms(4,5)] by (simp add: child_def)

text \<open>Changes outside its pages do not affect a table.\<close>

lemma ptree_frame:
  assumes "outside T m m'" "\<And>p. p \<in> T \<Longrightarrow> aligned 4096 p"
  shows "ptree m l pt \<Longrightarrow> tabs m l pt \<inter> T = {} \<Longrightarrow>
    ptree m' l pt \<and> tabs m' l pt = tabs m l pt \<and>
    walkp m' l pt = walkp m l pt \<and> leaf m' l pt = leaf m l pt"
proof (induction l arbitrary: pt)
  case 0
  then show ?case using outside_slot [OF assms] by (auto simp: fun_eq_iff good_aligned)
next
  case (Suc l)
  have ch: "child m' pt i = child m pt i" if "i < 512" for i
    using Suc.prems that by (intro child_outside [OF assms]) auto
  have IH: "ptree m' l c \<and> tabs m' l c = tabs m l c \<and> walkp m' l c = walkp m l c
      \<and> leaf m' l c = leaf m l c" if "i < 512" "child m pt i = Some c" for i c
  proof (rule Suc.IH)
    show "ptree m l c" using Suc.prems that by simp
    have "tabs m l c \<subseteq> tabs m (Suc l) pt" using that by force
    then show "tabs m l c \<inter> T = {}" using Suc.prems(2) by blast
  qed
  have "tabs m' (Suc l) pt = tabs m (Suc l) pt" using ch IH by simp
  moreover have "ptree m' (Suc l) pt" using Suc.prems(1) ch IH by simp
  moreover have "walkp m' (Suc l) pt = walkp m (Suc l) pt"
    by (rule ext) (use ch IH [OF PXn_less] in \<open>auto split: option.splits\<close>)
  moreover have "leaf m' (Suc l) pt = leaf m (Suc l) pt"
    by (rule ext) (use ch IH [OF PXn_less] in \<open>auto split: option.splits\<close>)
  ultimately show ?case by blast
qed

text \<open>The pages of a table other than those below entry \<open>i\<close>.\<close>

definition others :: "memory \<Rightarrow> nat \<Rightarrow> uint64 \<Rightarrow> nat \<Rightarrow> uint64 set" where
  "others m l pt i = insert pt (\<Union>j\<in>{..<512} - {i}. \<Union>c\<in>set_option (child m pt j). tabs m l c)"

lemma tabs_others:
  assumes "i < 512"
  shows "tabs m (Suc l) pt = others m l pt i \<union> (\<Union>c\<in>set_option (child m pt i). tabs m l c)"
  using assms by (auto simp: others_def)

lemma others_disjoint:
  "ptree m (Suc l) pt \<Longrightarrow> i < 512 \<Longrightarrow> child m pt i = Some c \<Longrightarrow> others m l pt i \<inter> tabs m l c = {}"
  by (fastforce simp: others_def)

text \<open>Replacing the subtree below one entry.\<close>

lemma graft:
  assumes pt: "ptree m (Suc l) pt" and i: "i < 512"
    and ch: "\<And>j. j < 512 \<Longrightarrow> j \<noteq> i \<Longrightarrow> child m' pt j = child m pt j"
    and ci: "child m' pt i = Some c" "ptree m' l c"
    and out: "outside T m m'" "\<And>p. p \<in> T \<Longrightarrow> aligned 4096 p" "T \<inter> (others m l pt i - {pt}) = {}"
    and dis: "tabs m' l c \<inter> others m l pt i = {}"
  shows "ptree m' (Suc l) pt \<and> tabs m' (Suc l) pt = others m l pt i \<union> tabs m' l c \<and>
    (\<forall>va. leaf m' (Suc l) pt va = (if PXn (Suc l) va = i then leaf m' l c va else leaf m (Suc l) pt va)) \<and>
    (\<forall>va. walkp m' (Suc l) pt va = (if PXn (Suc l) va = i then walkp m' l c va else walkp m (Suc l) pt va))"
proof -
  have fr: "ptree m' l d \<and> tabs m' l d = tabs m l d \<and> walkp m' l d = walkp m l d
      \<and> leaf m' l d = leaf m l d \<and> tabs m l d \<inter> tabs m' l c = {} \<and> pt \<notin> tabs m l d"
    if d: "j < 512" "j \<noteq> i" "child m pt j = Some d" for j d
  proof -
    have sub: "tabs m l d \<subseteq> others m l pt i" using d by (force simp: others_def)
    have p: "ptree m l d" "pt \<notin> tabs m l d" using pt d by auto
    then have "tabs m l d \<inter> T = {}" using out(3) sub by blast
    then show ?thesis using ptree_frame [OF out(1,2) p(1)] p dis sub by blast
  qed
  have g: "good pt" using pt by simp
  have ptc: "pt \<notin> tabs m' l c" using dis by (auto simp: others_def)
  have "ptree m' l d \<and> pt \<notin> tabs m' l d" if "j < 512" "child m' pt j = Some d" for j d
    using fr [of j d] ch [of j] ci that ptc by (cases "j = i") auto
  moreover have "tabs m' l d \<inter> tabs m' l e = {}"
    if "j < 512" "k < 512" "j \<noteq> k" "child m' pt j = Some d" "child m' pt k = Some e" for j k d e
  proof -
    consider "j = i" | "k = i" | "j \<noteq> i" "k \<noteq> i" by blast
    then show ?thesis
    proof cases
      case 1 then show ?thesis using fr [of k e] ch [of k] ci that by auto
    next
      case 2 then show ?thesis using fr [of j d] ch [of j] ci that by auto
    next
      case 3
      then have "child m pt j = Some d" "child m pt k = Some e" using that ch by auto
      then show ?thesis using fr [of k e] fr [of j d] 3 that pt by auto
    qed
  qed
  ultimately have "ptree m' (Suc l) pt" using g by auto
  moreover have "others m' l pt i = others m l pt i"
    unfolding others_def
    by (intro arg_cong [where f = "insert pt"] SUP_cong refl) (use ch fr in auto)
  then have "tabs m' (Suc l) pt = others m l pt i \<union> tabs m' l c"
    using tabs_others [OF i, of m' l pt] ci by simp
  moreover have "leaf m' (Suc l) pt va = (if PXn (Suc l) va = i then leaf m' l c va else leaf m (Suc l) pt va)" for va
    using fr [of "PXn (Suc l) va"] ch [of "PXn (Suc l) va"] ci by (auto split: option.splits)
  moreover have "walkp m' (Suc l) pt va = (if PXn (Suc l) va = i then walkp m' l c va else walkp m (Suc l) pt va)" for va
    using fr [of "PXn (Suc l) va"] ch [of "PXn (Suc l) va"] ci by (auto split: option.splits)
  ultimately show ?thesis by blast
qed

section \<open>Walking\<close>

text \<open>Without \<open>alloc\<close> the walk reads the tree and leaves the state alone.\<close>

lemma walk_loop_read:
  "walk_loop l pt va False s = (case walkp (phys s) l pt va of None \<Rightarrow> 0 | Some a \<Rightarrow> a, s)"
proof (induction l arbitrary: pt)
  case 0
  then show ?case by (simp add: walk_slot)
next
  case (Suc l)
  then show ?case by (simp add: walk_slot child_def Let_def)
qed

lemma walkp_slot:
  "walkp m l pt va = Some a \<Longrightarrow> \<exists>t\<in>tabs m l pt. a = slot t (PXn 0 va)"
proof (induction l arbitrary: pt)
  case (Suc l)
  then obtain c where c: "child m pt (PXn (Suc l) va) = Some c" "walkp m l c va = Some a"
    by (auto split: option.splits)
  have "tabs m l c \<subseteq> tabs m (Suc l) pt" using c(1) PXn_less [of "Suc l" va] by force
  then show ?case using Suc.IH [OF c(2)] by blast
qed simp

lemma slot_nonnull: "good p \<Longrightarrow> i < 512 \<Longrightarrow> slot p i \<noteq> 0"
  using slot_inj [of p 0 i 0] by (auto simp: good_def slot_def aligned_def)

lemma walkp_nonnull: "ptree m l pt \<Longrightarrow> walkp m l pt va = Some a \<Longrightarrow> a \<noteq> 0"
  using walkp_slot [of m l pt va a] tabs_good [of m l pt] slot_nonnull [of _ "PXn 0 va"] by auto

text \<open>Writing a leaf entry changes the entry of exactly the addresses with the same indices.\<close>

lemma leaf_store:
  assumes "ptree m l pt" "walkp m l pt va = Some a"
  shows "ptree (store64 m a v) l pt \<and> tabs (store64 m a v) l pt = tabs m l pt \<and>
    walkp (store64 m a v) l pt = walkp m l pt \<and>
    (\<forall>va'. leaf (store64 m a v) l pt va' =
       (if \<forall>k\<le>l. PXn k va' = PXn k va then v else leaf m l pt va'))"
  using assms
proof (induction l arbitrary: pt)
  case 0
  then show ?case by (auto simp: load64_slot_store good_aligned)
next
  case (Suc l)
  let ?i = "PXn (Suc l) va" and ?m = "store64 m a v"
  obtain c where c: "child m pt ?i = Some c" "walkp m l c va = Some a"
    using Suc.prems(2) by (auto split: option.splits)
  have pc: "ptree m l c" and gp: "good pt"
    using ptree_child [OF Suc.prems(1) PXn_less c(1)] Suc.prems(1) by auto
  note IH = Suc.IH [OF pc c(2)]
  obtain t where t: "t \<in> tabs m l c" "a = slot t (PXn 0 va)" using walkp_slot [OF c(2)] by blast
  have out: "outside (tabs m l c) m ?m" using t by (simp add: outside_store_slot)
  have al: "aligned 4096 p" if "p \<in> tabs m l c" for p
    using tabs_good [OF pc that] by (simp add: good_aligned)
  have dis: "others m l pt ?i \<inter> tabs m l c = {}" by (rule others_disjoint [OF Suc.prems(1) _ c(1)]) simp
  have ch: "child ?m pt j = child m pt j" if "j < 512" for j
  proof (rule child_outside [OF out al gp _ that])
    show "pt \<notin> tabs m l c" using dis by (auto simp: others_def)
  qed
  have G: "ptree ?m (Suc l) pt \<and> tabs ?m (Suc l) pt = others m l pt ?i \<union> tabs ?m l c \<and>
    (\<forall>va'. leaf ?m (Suc l) pt va' = (if PXn (Suc l) va' = ?i then leaf ?m l c va' else leaf m (Suc l) pt va')) \<and>
    (\<forall>va'. walkp ?m (Suc l) pt va' = (if PXn (Suc l) va' = ?i then walkp ?m l c va' else walkp m (Suc l) pt va'))"
    by (rule graft [OF Suc.prems(1) _ _ _ _ out al]) (use ch c IH dis in auto)
  have "leaf ?m (Suc l) pt va' =
      (if \<forall>k\<le>Suc l. PXn k va' = PXn k va then v else leaf m (Suc l) pt va')" for va'
    using G IH c(1) by (auto simp: le_Suc_eq)
  moreover have "walkp ?m (Suc l) pt = walkp m (Suc l) pt"
    using G IH c(1) by (auto simp: fun_eq_iff simp del: walkp.simps) (simp add: c(1))
  moreover have "tabs ?m (Suc l) pt = tabs m (Suc l) pt"
    using G IH c(1) tabs_others [of ?i m l pt] by simp
  ultimately show ?case using G by blast
qed

text \<open>A zeroed page is an empty table.\<close>

lemma zero_slot:
  assumes "i < 512"
  shows "load64 (memset m r 0 4096) (slot r i) = 0"
proof -
  have "load_bytes (memset m r 0 4096) (slot r i) 8 = replicate 8 0"
  proof (rule nth_equalityI)
    fix k assume "k < length (load_bytes (memset m r 0 4096) (slot r i) 8)"
    then have k: "k < 8" by simp
    have "unat (of_nat (8 * i + k) :: uint64) = 8 * i + k" using k assms by (intro unat64_of_nat) simp
    then have "unat (slot r i + of_nat k - r) = 8 * i + k" by (simp add: slot_def add.assoc)
    then show "load_bytes (memset m r 0 4096) (slot r i) 8 ! k = replicate 8 0 ! k"
      using k assms by (simp add: memset_eq store_bytes_def)
  qed simp
  then show ?thesis by (simp add: load64_def numeral_eq_Suc)
qed

lemma empty_table:
  assumes "good r" "\<And>i. i < 512 \<Longrightarrow> load64 m (slot r i) = 0"
  shows "ptree m l r \<and> tabs m l r = {r} \<and> (\<forall>va. leaf m l r va = 0)"
proof -
  have "child m r i = None" if "i < 512" for i using assms(2) [OF that] by (simp add: child_def)
  then show ?thesis using assms by (cases l) auto
qed

declare tabs.simps(2) [simp del] ptree.simps(2) [simp del]
  leaf.simps(2) [simp del] walkp.simps(2) [simp del]

text \<open>The state of a table and the allocator: the table's pages are not free.\<close>

definition tinv :: "nat \<Rightarrow> uint64 \<Rightarrow> 'z kmem_scheme \<Rightarrow> uint64 list \<Rightarrow> bool" where
  "tinv l pt s xs \<longleftrightarrow> kmem_inv s xs \<and> ptree (phys s) l pt \<and> tabs (phys s) l pt \<inter> set xs = {}"

text \<open>What an operation that only adds page-table pages does, with \<open>k\<close> pages taken.\<close>

definition grown :: "nat \<Rightarrow> uint64 \<Rightarrow> 'z kmem_scheme \<Rightarrow> uint64 list \<Rightarrow> memory \<Rightarrow> uint64 \<Rightarrow> nat \<Rightarrow> bool" where
  "grown l pt s xs m f k \<longleftrightarrow>
     tinv l pt (s\<lparr>phys := m, freelist := f\<rparr>) (drop k xs) \<and>
     tabs m l pt = tabs (phys s) l pt \<union> set (take k xs) \<and>
     outside (tabs m l pt) (phys s) m"

lemma kmem_upd_swap [simp]:
  "s\<lparr>freelist := f, phys := m\<rparr> = s\<lparr>phys := m, freelist := f\<rparr>" for s :: "'z kmem_scheme"
  by simp

lemma kmem_inv_good: "kmem_inv s xs \<Longrightarrow> x \<in> set xs \<Longrightarrow> good x"
  using page_ok_aligned [of s x] by (auto simp: kmem_inv_def good_def page_ok_def)

lemma graft_grow:
  assumes pt: "ptree m (Suc l) pt" and i: "i < 512"
    and ch: "\<And>j. j < 512 \<Longrightarrow> j \<noteq> i \<Longrightarrow> child m' pt j = child m pt j"
    and ci: "child m' pt i = Some c" "ptree m' l c"
    and out: "outside (insert pt (tabs m' l c)) m m'"
    and dis: "tabs m' l c \<inter> others m l pt i = {}"
    and lf: "\<And>va. PXn (Suc l) va = i \<Longrightarrow> leaf m' l c va = leaf m (Suc l) pt va"
  shows "ptree m' (Suc l) pt \<and> tabs m' (Suc l) pt = others m l pt i \<union> tabs m' l c \<and>
    leaf m' (Suc l) pt = leaf m (Suc l) pt \<and>
    (\<forall>va. PXn (Suc l) va = i \<longrightarrow> walkp m' (Suc l) pt va = walkp m' l c va)"
proof -
  have gp: "good pt" using pt by (rule ptree_good)
  have al: "aligned 4096 p" if "p \<in> insert pt (tabs m' l c)" for p
    using that tabs_good [OF ci(2)] gp by (auto simp: good_aligned)
  have "insert pt (tabs m' l c) \<inter> (others m l pt i - {pt}) = {}" using dis by blast
  note G = graft [OF pt i ch ci out al this dis]
  then have "leaf m' (Suc l) pt va = leaf m (Suc l) pt va" for va
    using lf by simp
  then show ?thesis using G by (auto)
qed

lemma walk_down:
  assumes T: "tinv (Suc l) pt s xs" and i: "i < 512" and c: "child (phys s) pt i = Some c"
    and g: "grown l c s xs m f k" and lf: "leaf m l c = leaf (phys s) l c"
  shows "grown (Suc l) pt s xs m f k \<and>
    leaf m (Suc l) pt = leaf (phys s) (Suc l) pt \<and>
    (\<forall>va. PXn (Suc l) va = i \<longrightarrow> walkp m (Suc l) pt va = walkp m l c va)"
proof -
  let ?m = "phys s"
  have pt: "ptree ?m (Suc l) pt" and inv: "kmem_inv s xs"
    and free: "tabs ?m (Suc l) pt \<inter> set xs = {}" using T by (auto simp: tinv_def)
  have pc: "ptree m l c" and tb: "tabs m l c = tabs ?m l c \<union> set (take k xs)"
    and out: "outside (tabs m l c) ?m m" using g by (auto simp: grown_def tinv_def)
  have split: "tabs ?m (Suc l) pt = others ?m l pt i \<union> tabs ?m l c"
    using tabs_others [OF i, of ?m l pt] c by simp
  have dis: "tabs m l c \<inter> others ?m l pt i = {}"
    using others_disjoint [OF pt i c] free set_take_subset [of k xs]
    unfolding tb split by blast
  have ch: "child m pt j = child ?m pt j" if "j < 512" for j
  proof (rule child_outside [OF out _ _ _ that])
    show "pt \<notin> tabs m l c" using dis by (auto simp: others_def)
    show "good pt" using pt by (rule ptree_good)
  qed (use tabs_good [OF pc] in \<open>auto simp: good_aligned\<close>)
  have G: "ptree m (Suc l) pt \<and> tabs m (Suc l) pt = others ?m l pt i \<union> tabs m l c \<and>
    leaf m (Suc l) pt = leaf ?m (Suc l) pt \<and>
    (\<forall>va. PXn (Suc l) va = i \<longrightarrow> walkp m (Suc l) pt va = walkp m l c va)"
    by (rule graft_grow [OF pt i _ _ pc _ dis])
      (use ch c lf i out in \<open>auto simp: leaf.simps intro: outside_mono\<close>)
  have tb': "tabs m (Suc l) pt = tabs ?m (Suc l) pt \<union> set (take k xs)"
    using G tb split by blast
  have "set (take k xs) \<inter> set (drop k xs) = {}"
    using inv by (simp add: kmem_inv_def set_take_disj_set_drop_if_distinct)
  then have "tabs m (Suc l) pt \<inter> set (drop k xs) = {}"
    using free by (subst tb') (auto dest: in_set_dropD)
  moreover have "outside (tabs m (Suc l) pt) ?m m" using G by (auto intro: outside_mono [OF out])
  ultimately show ?thesis using G g tb' by (auto simp: grown_def tinv_def)
qed

lemma grown_refl: "tinv l pt s xs \<Longrightarrow> grown l pt s xs (phys s) (freelist s) 0"
  by (simp add: grown_def)

lemma grown_tinv: "grown l pt s xs m f k \<Longrightarrow> tinv l pt (s\<lparr>phys := m, freelist := f\<rparr>) (drop k xs)"
  by (simp add: grown_def)

lemma grown_trans:
  assumes "grown l pt s xs m f k" "grown l pt (s\<lparr>phys := m, freelist := f\<rparr>) (drop k xs) m' f' k'"
  shows "grown l pt s xs m' f' (k + k')"
proof -
  have "tabs m l pt \<subseteq> tabs m' l pt" using assms(2) by (auto simp: grown_def)
  moreover have "outside (tabs m l pt) (phys s) m" "outside (tabs m' l pt) m m'"
    using assms by (auto simp: grown_def)
  ultimately have "outside (tabs m' l pt) (phys s) m'"
    by (blast intro: outside_trans outside_mono)
  then show ?thesis using assms by (auto simp: grown_def take_add add.commute)
qed

text \<open>An empty entry receives a fresh table: the page table still maps the same addresses.\<close>

lemma walk_fresh:
  assumes T: "tinv (Suc l) pt s (r # ys)" and i: "i < 512" and c: "child (phys s) pt i = None"
    and out: "same_outside r (phys s) m0" and inv: "kmem_inv (s\<lparr>phys := m0, freelist := f0\<rparr>) ys"
    and m1: "m1 = store64 (memset m0 r 0 4096) (slot pt i) (PA2PTE r OR PTE_V)"
  shows "grown (Suc l) pt s (r # ys) m1 f0 1 \<and> leaf m1 (Suc l) pt = leaf (phys s) (Suc l) pt \<and>
    child m1 pt i = Some r"
proof -
  let ?m = "phys s"
  have pt: "ptree ?m (Suc l) pt" and free: "tabs ?m (Suc l) pt \<inter> set (r # ys) = {}"
    and inv0: "kmem_inv s (r # ys)" using T by (auto simp: tinv_def)
  have gp: "good pt" using pt by (rule ptree_good)
  have gr: "good r" using kmem_inv_good [OF inv0] by simp
  have "pt \<notin> set (r # ys)" using free tabs_root [of pt ?m "Suc l"] by blast
  then have ne: "pt \<noteq> r" "r \<notin> set ys" "pt \<notin> set ys"
    using inv0 by (auto simp: kmem_inv_def)
  have al: "aligned 4096 pt" "aligned 4096 r" using gp gr by (auto simp: good_aligned)
  have m0: "outside {r} ?m m0" "outside {pt, r} m0 m1"
    using out i by (auto simp: m1 intro: same_outside_imp outside_store_slot
        outside_trans [OF same_outside_imp [OF same_outside_memset]])
  have o: "outside {pt, r} ?m m1" using m0 by (auto intro: outside_trans outside_mono)
  have rs: "load64 m1 (slot r j) = 0" if "j < 512" for j
    using that i ne al by (simp add: m1 load64_slot_store zero_slot)
  have r1: "ptree m1 l r" "tabs m1 l r = {r}" "leaf m1 l r va = 0" for va
    using empty_table [OF gr rs] by auto
  have ps: "load64 m1 (slot pt j) = (if j = i then PA2PTE r OR PTE_V else load64 ?m (slot pt j))"
    if "j < 512" for j
  proof -
    have "outside {r} ?m (memset m0 r 0 4096)"
      using m0(1) by (auto intro: outside_trans same_outside_imp [OF same_outside_memset])
    then have "load64 (memset m0 r 0 4096) (slot pt j) = load64 ?m (slot pt j)"
      using al ne that by (intro outside_slot [where T = "{r}"]) auto
    then show ?thesis using that i al by (auto simp: m1 load64_slot_store)
  qed
  have ci: "child m1 pt i = Some r"
    using ps [OF i] PTE2PA_entry [OF al(2), of PTE_V] entry_flag [of PTE_V r PTE_V]
    by (simp add: child_def PTE_V_def)
  have split: "tabs ?m (Suc l) pt = others ?m l pt i"
    using tabs_others [OF i, of ?m l pt] c by simp
  have G: "ptree m1 (Suc l) pt \<and> tabs m1 (Suc l) pt = others ?m l pt i \<union> tabs m1 l r \<and>
    leaf m1 (Suc l) pt = leaf ?m (Suc l) pt \<and>
    (\<forall>va. PXn (Suc l) va = i \<longrightarrow> walkp m1 (Suc l) pt va = walkp m1 l r va)"
    by (rule graft_grow [OF pt i _ ci r1(1)])
      (use ps c free split r1 o in \<open>auto simp: child_def leaf.simps(2)\<close>)
  have "kmem_inv ((s\<lparr>phys := m0, freelist := f0\<rparr>)\<lparr>phys := m1\<rparr>) ys"
    by (rule outside_inv [OF inv, of "{pt, r}"]) (use m0 al ne in auto)
  then show ?thesis using G ci free split ne o r1(2)
    by (auto simp: grown_def tinv_def intro: outside_mono)
qed

lemma tinv_child:
  assumes "tinv (Suc l) pt s xs" "i < 512" "child (phys s) pt i = Some c"
  shows "tinv l c s xs"
proof -
  have "tabs (phys s) l c \<subseteq> tabs (phys s) (Suc l) pt"
    using tabs_others [OF assms(2), of "phys s" l pt] assms(3) by simp
  then show ?thesis using assms ptree_child [of "phys s" l pt i c] by (auto simp: tinv_def)
qed

text \<open>
  \<open>walk\<close> with \<open>alloc\<close> finds the leaf slot unless the allocator runs out of pages, takes only
  pages it turns into tables, and maps nothing.
\<close>

lemma walk_alloc:
  assumes "tinv l pt s xs"
  shows "\<exists>a m f k. walk_loop l pt va True s = (a, s\<lparr>phys := m, freelist := f\<rparr>) \<and>
    grown l pt s xs m f k \<and> leaf m l pt = leaf (phys s) l pt \<and>
    (a = 0 \<and> drop k xs = [] \<or> walkp m l pt va = Some a)"
  using assms
proof (induction l arbitrary: pt s xs)
  case 0
  have "walk_loop 0 pt va True s =
      (slot pt (PXn 0 va), s\<lparr>phys := phys s, freelist := freelist s\<rparr>)"
    by (simp add: walk_slot)
  then show ?case using grown_refl [OF 0] by fastforce
next
  case (Suc l)
  let ?i = "PXn (Suc l) va"
  have down: "\<exists>a m f k. walk_loop l c va True s = (a, s\<lparr>phys := m, freelist := f\<rparr>) \<and>
    grown (Suc l) pt s xs m f k \<and> leaf m (Suc l) pt = leaf (phys s) (Suc l) pt \<and>
    (a = 0 \<and> drop k xs = [] \<or> walkp m (Suc l) pt va = Some a)"
    if T: "tinv (Suc l) pt s xs" and c: "child (phys s) pt ?i = Some c"
    for s :: "'a kmem_scheme" and xs c
  proof -
    obtain a m f k where w: "walk_loop l c va True s = (a, s\<lparr>phys := m, freelist := f\<rparr>)"
      and g: "grown l c s xs m f k" and lf: "leaf m l c = leaf (phys s) l c"
      and a: "a = 0 \<and> drop k xs = [] \<or> walkp m l c va = Some a"
      using Suc.IH [OF tinv_child [OF T PXn_less c]] by blast
    note W = walk_down [OF T PXn_less c g lf]
    then have "walkp m (Suc l) pt va = walkp m l c va" by simp
    then show ?thesis using W w a by fastforce
  qed
  show ?case
  proof (cases "child (phys s) pt ?i")
    case (Some c)
    then have "walk_loop (Suc l) pt va True s = walk_loop l c va True s"
      by (auto simp: walk_slot child_def Let_def split: if_splits)
    then show ?thesis using down [OF Suc.prems Some] by simp
  next
    case None
    then have e: "load64 (phys s) (slot pt ?i) AND PTE_V = 0"
      by (auto simp: child_def Let_def split: if_splits)
    show ?thesis
    proof (cases xs)
      case Nil
      then have "kalloc s = (0, s)" using Suc.prems kalloc_Nil [of s] by (simp add: tinv_def)
      then have "walk_loop (Suc l) pt va True s = (0, s\<lparr>phys := phys s, freelist := freelist s\<rparr>)"
        using e by (simp add: walk_slot)
      then show ?thesis using grown_refl [OF Suc.prems] Nil by (metis drop_Nil)
    next
      case (Cons r ys)
      then have inv: "kmem_inv s (r # ys)" using Suc.prems by (simp add: tinv_def)
      obtain m0 f0 where k0: "kalloc s = (r, s\<lparr>phys := m0, freelist := f0\<rparr>)"
        "kmem_inv (s\<lparr>phys := m0, freelist := f0\<rparr>) ys" "same_outside r (phys s) m0"
        using kalloc_Cons [OF inv] by blast
      let ?m1 = "store64 (memset m0 r 0 4096) (slot pt ?i) (PA2PTE r OR PTE_V)"
      let ?s1 = "s\<lparr>phys := ?m1, freelist := f0\<rparr>"
      note F = walk_fresh [OF Suc.prems [unfolded Cons] PXn_less None k0(3,2) refl]
      have "r \<noteq> 0" using kmem_inv_good [OF inv] by (auto simp: good_def)
      then have w: "walk_loop (Suc l) pt va True s = walk_loop l r va True ?s1"
        using e k0(1) by (simp add: walk_slot)
      have "tinv (Suc l) pt ?s1 ys" using F grown_tinv [of "Suc l" pt s "r # ys" ?m1 f0 1] by simp
      then obtain a m f k where d: "walk_loop l r va True ?s1 = (a, ?s1\<lparr>phys := m, freelist := f\<rparr>)"
        "grown (Suc l) pt ?s1 ys m f k" "leaf m (Suc l) pt = leaf ?m1 (Suc l) pt"
        "a = 0 \<and> drop k ys = [] \<or> walkp m (Suc l) pt va = Some a"
        using down [of ?s1 ys r] F by auto
      have "grown (Suc l) pt s xs m f (1 + k)"
        using F d(2) Cons by (intro grown_trans [of _ _ _ _ ?m1 f0]) auto
      then show ?thesis using w d F Cons
        by (intro exI [of _ a] exI [of _ m] exI [of _ f] exI [of _ "1 + k"]) auto
    qed
  qed
qed

section \<open>Mapping pages\<close>

text \<open>The page number of an address; two user addresses share a leaf entry iff it agrees.\<close>

definition pg :: "uint64 \<Rightarrow> nat" where
  "pg va = unat va div 4096"

lemma bit_PX: "j < 9 \<Longrightarrow> bit (PX k va) j \<longleftrightarrow> bit va (12 + 9 * k + j)"
proof -
  assume j: "j < 9"
  have m: "(0x1FF :: uint64) = mask 9" by (simp add: mask_eq_exp_minus_1)
  show ?thesis unfolding PX_def m using j by (auto simp: bit_simps dest: bit_imp_le_length)
qed

lemma bit_user: "va < MAXVA \<Longrightarrow> bit va n \<Longrightarrow> n < 39"
proof (rule ccontr)
  assume v: "va < MAXVA" and b: "bit va n" and n: "\<not> n < 39"
  have "bit (unat va) n" using b by (simp add: bit_unsigned_iff)
  moreover have "unat va < 2 ^ 38" using v by (simp add: word_less_nat_alt unat_MAXVA)
  then have "unat va < 2 ^ n" using n power_increasing [of 38 n "2 :: nat"] by simp
  then have "\<not> bit (unat va) n" by (simp add: bit_iff_odd)
  ultimately show False by blast
qed

lemma pg_iff: "pg va = pg va' \<longleftrightarrow> drop_bit 12 va = drop_bit 12 va'"
proof -
  have "unat (drop_bit 12 v) = pg v" for v :: uint64
    by (simp add: pg_def drop_bit_eq_div unat_div)
  then show ?thesis by (metis word_unat_eq_iff)
qed

lemma same_entry_iff:
  assumes "va < MAXVA" "va' < MAXVA"
  shows "(\<forall>k\<le>2. PXn k va' = PXn k va) \<longleftrightarrow> pg va' = pg va"
proof
  assume e: "\<forall>k\<le>2. PXn k va' = PXn k va"
  have "bit va' n = bit va n" if n: "12 \<le> n" for n
  proof (cases "n < 39")
    case True
    let ?k = "(n - 12) div 9" and ?j = "(n - 12) mod 9"
    have nk: "12 + 9 * ?k + ?j = n" using n mult_div_mod_eq [of 9 "n - 12"] by linarith
    have "?k \<le> 2" using True n by linarith
    then have "PX ?k va' = PX ?k va" using e by (simp add: PXn_def word_unat_eq_iff)
    then show ?thesis using bit_PX [of ?j ?k va] bit_PX [of ?j ?k va'] nk by simp
  next
    case False
    then show ?thesis using bit_user assms by blast
  qed
  then have "drop_bit 12 va' = drop_bit 12 va" by (intro bit_word_eqI) (simp add: bit_simps)
  then show "pg va' = pg va" by (simp add: pg_iff)
next
  assume "pg va' = pg va"
  then have d: "drop_bit 12 va' = drop_bit 12 va" by (simp add: pg_iff)
  have u: "drop_bit (12 + 9 * k) v = drop_bit (9 * k) (drop_bit 12 v)" for k and v :: uint64
    by (simp add: add.commute)
  have "PX k va' = PX k va" for k unfolding PX_def u d ..
  then show "\<forall>k\<le>2. PXn k va' = PXn k va" by (simp add: PXn_def)
qed

text \<open>The page table as a function: the leaf entry of a user address.\<close>

definition pte_of :: "memory \<Rightarrow> uint64 \<Rightarrow> uint64 \<Rightarrow> uint64" where
  "pte_of m pt va = leaf m 2 pt va"

lemma grown_store:
  assumes g: "grown 2 pt s xs m f k" and w: "walkp m 2 pt va = Some a"
  shows "grown 2 pt s xs (store64 m a v) f k \<and>
    (\<forall>va'. leaf (store64 m a v) 2 pt va' =
       (if \<forall>k\<le>2. PXn k va' = PXn k va then v else leaf m 2 pt va'))"
proof -
  let ?s = "s\<lparr>phys := m, freelist := f\<rparr>"
  have T: "kmem_inv ?s (drop k xs)" "ptree m 2 pt" "tabs m 2 pt \<inter> set (drop k xs) = {}"
    using g by (auto simp: grown_def tinv_def)
  note L = leaf_store [OF T(2) w, of v]
  obtain t where t: "t \<in> tabs m 2 pt" "a = slot t (PXn 0 va)" using walkp_slot [OF w] by blast
  have o: "outside (tabs m 2 pt) m (store64 m a v)" using t by (simp add: outside_store_slot)
  have "kmem_inv (?s\<lparr>phys := store64 m a v\<rparr>) (drop k xs)"
    by (rule outside_inv [OF T(1), of "tabs m 2 pt"])
      (use o T tabs_good [OF T(2)] in \<open>auto simp: good_aligned\<close>)
  moreover have "outside (tabs m 2 pt) (phys s) (store64 m a v)"
    using g o by (auto simp: grown_def intro: outside_trans)
  ultimately show ?thesis using g L T by (auto simp: grown_def tinv_def)
qed

lemma map_step:
  assumes T: "tinv 2 pt s xs" and va: "va < MAXVA"
  shows "\<exists>pte m f k. walk pt va True s = Ok (pte, s\<lparr>phys := m, freelist := f\<rparr>) \<and>
    grown 2 pt s xs m f k \<and> pte_of m pt = pte_of (phys s) pt \<and>
    (pte = 0 \<and> drop k xs = [] \<or>
     pte \<noteq> 0 \<and> load64 m pte = pte_of (phys s) pt va \<and>
     (\<forall>v. grown 2 pt s xs (store64 m pte v) f k \<and>
       (\<forall>va'. va' < MAXVA \<longrightarrow> pte_of (store64 m pte v) pt va' =
          (if pg va' = pg va then v else pte_of (phys s) pt va'))))"
proof -
  obtain pte m f k where w: "walk_loop 2 pt va True s = (pte, s\<lparr>phys := m, freelist := f\<rparr>)"
    and g: "grown 2 pt s xs m f k" and lf: "leaf m 2 pt = leaf (phys s) 2 pt"
    and a: "pte = 0 \<and> drop k xs = [] \<or> walkp m 2 pt va = Some pte"
    using walk_alloc [OF T] by blast
  have W: "walk pt va True s = Ok (pte, s\<lparr>phys := m, freelist := f\<rparr>)"
    using w va by (simp add: walk_def not_le)
  show ?thesis
  proof (cases "walkp m 2 pt va = Some pte")
    case True
    have "ptree m 2 pt" using g by (simp add: grown_def tinv_def)
    then have "pte \<noteq> 0" using True by (rule walkp_nonnull)
    moreover have "load64 m pte = pte_of (phys s) pt va"
      using True lf leaf_walkp [of m 2 pt va] by (simp add: pte_of_def)
    ultimately show ?thesis using W g lf grown_store [OF g True] same_entry_iff [OF va]
      unfolding pte_of_def
      by (intro exI [of _ pte] exI [of _ m] exI [of _ f] exI [of _ k]) simp
  next
    case False
    then show ?thesis using W g lf a unfolding pte_of_def
      by (intro exI [of _ pte] exI [of _ m] exI [of _ f] exI [of _ k]) simp
  qed
qed

text \<open>
  The effect of \<open>mappages\<close> on the page table: the first \<open>j\<close> pages from page number \<open>p\<close> on are
  mapped to consecutive physical pages, every other address is as before.
\<close>

definition maps_to :: "uint64 \<Rightarrow> memory \<Rightarrow> memory \<Rightarrow> nat \<Rightarrow> nat \<Rightarrow> uint64 \<Rightarrow> uint64 \<Rightarrow> bool" where
  "maps_to pt m m' p j pa perm \<longleftrightarrow> (\<forall>va. va < MAXVA \<longrightarrow> pte_of m' pt va =
     (if p \<le> pg va \<and> pg va < p + j
      then PA2PTE (pa + of_nat (4096 * (pg va - p))) OR perm OR PTE_V else pte_of m pt va))"

lemma maps_to_0: "pte_of m' pt = pte_of m pt \<Longrightarrow> maps_to pt m m' p 0 pa perm"
  by (auto simp: maps_to_def)

lemma maps_to_Suc:
  assumes "\<And>va. va < MAXVA \<Longrightarrow>
      pte_of m1 pt va = (if pg va = p then PA2PTE pa OR perm OR PTE_V else pte_of m pt va)"
    and "maps_to pt m1 m' (Suc p) j (pa + PGSIZE) perm"
  shows "maps_to pt m m' p (Suc j) pa perm"
  unfolding maps_to_def
proof (intro allI impI)
  fix va assume va: "va < MAXVA"
  have e: "pa + PGSIZE + of_nat (4096 * (pg va - Suc p)) = pa + of_nat (4096 * (pg va - p))"
    if "p < pg va"
  proof -
    have "4096 * (pg va - p) = 4096 + 4096 * (pg va - Suc p)" using that by simp
    then show ?thesis by (simp only: of_nat_add PGSIZE_def of_nat_numeral add.assoc)
  qed
  show "pte_of m' pt va =
     (if p \<le> pg va \<and> pg va < p + Suc j
      then PA2PTE (pa + of_nat (4096 * (pg va - p))) OR perm OR PTE_V else pte_of m pt va)"
  proof (cases "p < pg va")
    case True
    have "pte_of m' pt va = (if Suc p \<le> pg va \<and> pg va < Suc p + j
      then PA2PTE (pa + PGSIZE + of_nat (4096 * (pg va - Suc p))) OR perm OR PTE_V
      else pte_of m1 pt va)" using assms(2) va unfolding maps_to_def by blast
    then show ?thesis unfolding e [OF True] using True assms(1) [OF va] by auto
  next
    case False
    then show ?thesis using assms va by (auto simp: maps_to_def)
  qed
qed

lemma mappages_loop_step:
  assumes T: "tinv 2 pt s xs" and a: "a < MAXVA" and free: "pte_of (phys s) pt a AND PTE_V = 0"
  shows "(\<exists>m f k. mappages_loop pt a lst pa perm s = Ok (-1, s\<lparr>phys := m, freelist := f\<rparr>) \<and>
      grown 2 pt s xs m f k \<and> pte_of m pt = pte_of (phys s) pt \<and> drop k xs = []) \<or>
    (\<exists>m f k. mappages_loop pt a lst pa perm s =
        (if a = lst then Ok (0, s\<lparr>phys := m, freelist := f\<rparr>)
         else mappages_loop pt (a + PGSIZE) lst (pa + PGSIZE) perm (s\<lparr>phys := m, freelist := f\<rparr>)) \<and>
      grown 2 pt s xs m f k \<and>
      (\<forall>va. va < MAXVA \<longrightarrow> pte_of m pt va =
         (if pg va = pg a then PA2PTE pa OR perm OR PTE_V else pte_of (phys s) pt va)))"
proof -
  obtain pte m f k where w: "walk pt a True s = Ok (pte, s\<lparr>phys := m, freelist := f\<rparr>)"
    "grown 2 pt s xs m f k" "pte_of m pt = pte_of (phys s) pt"
    and c: "pte = 0 \<and> drop k xs = [] \<or> pte \<noteq> 0 \<and> load64 m pte = pte_of (phys s) pt a \<and>
     (\<forall>v. grown 2 pt s xs (store64 m pte v) f k \<and>
       (\<forall>va'. va' < MAXVA \<longrightarrow> pte_of (store64 m pte v) pt va' =
          (if pg va' = pg a then v else pte_of (phys s) pt va')))"
    using map_step [OF T a] by blast
  show ?thesis
  proof (cases "pte = 0")
    case True
    then have "mappages_loop pt a lst pa perm s = Ok (-1, s\<lparr>phys := m, freelist := f\<rparr>)"
      using w by (simp add: mappages_loop.simps [of pt a])
    then show ?thesis using w c True by blast
  next
    case False
    let ?m = "store64 m pte (PA2PTE pa OR perm OR PTE_V)"
    have "mappages_loop pt a lst pa perm s = (if a = lst then Ok (0, s\<lparr>phys := ?m, freelist := f\<rparr>)
         else mappages_loop pt (a + PGSIZE) lst (pa + PGSIZE) perm (s\<lparr>phys := ?m, freelist := f\<rparr>))"
      using w c False free by (simp add: mappages_loop.simps [of pt a])
    then show ?thesis using c False by blast
  qed
qed

lemma mappages_loop_correct:
  assumes "tinv 2 pt s xs" "aligned 4096 a" "unat a + 4096 * n < unat MAXVA"
    and "\<And>va. va < MAXVA \<Longrightarrow> pg a \<le> pg va \<Longrightarrow> pg va \<le> pg a + n \<Longrightarrow> pte_of (phys s) pt va AND PTE_V = 0"
  shows "\<exists>r m f k j. mappages_loop pt a (a + of_nat (4096 * n)) pa perm s =
      Ok (r, s\<lparr>phys := m, freelist := f\<rparr>) \<and> grown 2 pt s xs m f k \<and>
    maps_to pt (phys s) m (pg a) j pa perm \<and>
    (r = 0 \<and> j = Suc n \<or> r = -1 \<and> j \<le> n \<and> drop k xs = [])"
  using assms
proof (induction n arbitrary: a pa s xs)
  case (0 a pa s xs)
  have a: "a < MAXVA" using 0 by (simp add: word_less_nat_alt)
  have "pte_of (phys s) pt a AND PTE_V = 0" using 0 a by simp
  from mappages_loop_step [OF 0(1) a this, of a pa perm] show ?case
  proof (elim disjE exE conjE, goal_cases)
    case 1
    then show ?case using maps_to_0 [where p = "pg a"] by fastforce
  next
    case (2 m f k)
    have "maps_to pt (phys s) m (pg a) (Suc 0) pa perm"
      by (rule maps_to_Suc [where ?m1.0 = m]) (use 2(3) in \<open>auto intro: maps_to_0\<close>)
    moreover have "mappages_loop pt a (a + of_nat (4096 * 0)) pa perm s =
        Ok (0, s\<lparr>phys := m, freelist := f\<rparr>)" using 2(1) by simp
    ultimately show ?case using 2(2) by blast
  qed
next
  case (Suc n a pa s xs)
  have a: "a < MAXVA" using Suc.prems by (simp add: word_less_nat_alt)
  have a4: "unat (a + PGSIZE) = unat a + 4096"
    using Suc.prems(3) by (intro next_page_less) (simp add: unat_MAXVA)
  have pa4: "pg (a + PGSIZE) = Suc (pg a)" by (simp add: pg_def a4)
  let ?last = "a + of_nat (4096 * Suc n)"
  have last: "?last = a + PGSIZE + of_nat (4096 * n)" by (simp add: PGSIZE_def algebra_simps)
  have "unat ?last = unat a + 4096 * Suc n"
    using Suc.prems(3) by (intro unat64_add) (simp add: unat_MAXVA)
  then have "unat a \<noteq> unat ?last" by simp
  then have ne: "a \<noteq> ?last" by metis
  have free: "pte_of (phys s) pt a AND PTE_V = 0" using Suc.prems(4) a by simp
  from mappages_loop_step [OF Suc.prems(1) a free, of ?last pa perm] show ?case
  proof (elim disjE exE conjE, goal_cases)
    case 1
    then show ?case using maps_to_0 [where p = "pg a"] by blast
  next
    case (2 m f k)
    let ?s1 = "s\<lparr>phys := m, freelist := f\<rparr>"
    have "\<exists>r m f k' j. mappages_loop pt (a + PGSIZE) (a + PGSIZE + of_nat (4096 * n)) (pa + PGSIZE) perm ?s1 =
      Ok (r, ?s1\<lparr>phys := m, freelist := f\<rparr>) \<and> grown 2 pt ?s1 (drop k xs) m f k' \<and>
      maps_to pt (phys ?s1) m (pg (a + PGSIZE)) j (pa + PGSIZE) perm \<and>
      (r = 0 \<and> j = Suc n \<or> r = -1 \<and> j \<le> n \<and> drop k' (drop k xs) = [])"
    proof (rule Suc.IH [OF grown_tinv [OF 2(2)]])
      show "aligned 4096 (a + PGSIZE)" using Suc.prems(2) a4 by (simp add: aligned_def)
      show "pte_of (phys ?s1) pt va AND PTE_V = 0"
        if "va < MAXVA" "pg (a + PGSIZE) \<le> pg va" "pg va \<le> pg (a + PGSIZE) + n" for va
        using that 2(3) Suc.prems(4) pa4 by simp
    qed (use Suc.prems a4 in auto)
    moreover have "mappages_loop pt a ?last pa perm s =
        mappages_loop pt (a + PGSIZE) (a + PGSIZE + of_nat (4096 * n)) (pa + PGSIZE) perm ?s1"
      unfolding 2(1) last [symmetric] using ne by (simp only: if_False)
    ultimately obtain r m2 f2 k2 j where I: "mappages_loop pt a ?last pa perm s = Ok (r, s\<lparr>phys := m2, freelist := f2\<rparr>)"
      "grown 2 pt ?s1 (drop k xs) m2 f2 k2" "maps_to pt m m2 (Suc (pg a)) j (pa + PGSIZE) perm"
      "r = 0 \<and> j = Suc n \<or> r = -1 \<and> j \<le> n \<and> drop k2 (drop k xs) = []"
      unfolding pa4 by auto
    have "maps_to pt (phys s) m2 (pg a) (Suc j) pa perm"
      by (rule maps_to_Suc [OF _ I(3)]) (use 2(3) in blast)
    then show ?case using I(1,4) grown_trans [OF 2(2) I(2)]
      by (intro exI [of _ r] exI [of _ m2] exI [of _ f2] exI [of _ "k + k2"] exI [of _ "Suc j"])
        (auto simp: add.commute)
  qed
qed

section \<open>Translating user addresses\<close>

lemma walkaddr_eq:
  assumes "ptree (phys s) 2 pt"
  shows "walkaddr pt va s =
    Ok (let e = pte_of (phys s) pt va
        in if va < MAXVA \<and> e AND PTE_V \<noteq> 0 \<and> e AND PTE_U \<noteq> 0 then PTE2PA e else 0)"
proof (cases "walkp (phys s) 2 pt va")
  case None
  then show ?thesis
    by (simp add: walkaddr_def walk_def walk_loop_read pte_of_def leaf_walkp [of _ 2])
next
  case (Some a)
  then have "a \<noteq> 0" using assms by (rule walkp_nonnull [rotated])
  then show ?thesis using Some
    by (auto simp: walkaddr_def walk_def walk_loop_read pte_of_def leaf_walkp [of _ 2] Let_def not_le)
qed

lemma aligned_add_pages:
  assumes "aligned 4096 p"
  shows "aligned 4096 (p + of_nat (4096 * k))"
proof -
  have 64: "(4096 :: nat) dvd 2 ^ LENGTH(64)" by simp
  have "(4096 :: nat) dvd (4096 * k) mod 2 ^ LENGTH(64)" using 64 by (intro dvd_mod) simp_all
  then have "4096 dvd unat (of_nat (4096 * k) :: uint64)" by (simp only: unat_of_nat)
  then have "4096 dvd unat p + unat (of_nat (4096 * k) :: uint64)"
    using assms unfolding aligned_def by (rule dvd_add [rotated])
  then have "4096 dvd (unat p + unat (of_nat (4096 * k) :: uint64)) mod 2 ^ LENGTH(64)"
    using 64 by (rule dvd_mod)
  then show ?thesis unfolding aligned_def unat_word_ariths(1) .
qed

lemma user_entry:
  assumes "aligned 4096 pa" "perm AND 0x3FF = perm" "perm AND PTE_U \<noteq> 0"
  defines "e \<equiv> PA2PTE pa OR perm OR PTE_V"
  shows "e AND PTE_V \<noteq> 0 \<and> e AND PTE_U \<noteq> 0 \<and> PTE2PA e = pa"
proof -
  have f: "(perm OR PTE_V) AND 0x3FF = perm OR PTE_V"
    using assms(2) by (simp add: bit.conj_disj_distrib2 PTE_V_def)
  have "e AND PTE_V = (perm OR PTE_V) AND PTE_V" "e AND PTE_U = (perm OR PTE_V) AND PTE_U"
    unfolding e_def by (rule entry_flag, simp)+
  moreover have "(perm OR PTE_V) AND PTE_V = PTE_V" by (simp add: PTE_V_def)
  moreover have "(perm OR PTE_V) AND PTE_U = perm AND PTE_U"
    by (simp add: bit.conj_disj_distrib2 PTE_V_def PTE_U_def)
  ultimately show ?thesis using assms(3) PTE2PA_entry [OF assms(1) f]
    by (simp add: e_def PTE_V_def)
qed

lemma mappages_correct:
  assumes T: "tinv 2 pt s xs" and sz: "0 < len" and le: "unat va + unat len \<le> unat MAXVA"
    and free: "\<And>v. v < MAXVA \<Longrightarrow> pg va \<le> pg v \<Longrightarrow> pg v \<le> pg (va + len - 1) \<Longrightarrow>
      pte_of (phys s) pt v AND PTE_V = 0"
  shows "\<exists>r m f k j. mappages pt va len pa perm s = Ok (r, s\<lparr>phys := m, freelist := f\<rparr>) \<and>
    grown 2 pt s xs m f k \<and> maps_to pt (phys s) m (pg va) j pa perm \<and>
    (r = 0 \<and> pg va + j = Suc (pg (va + len - 1)) \<or>
     r = -1 \<and> pg va + j \<le> pg (va + len - 1) \<and> drop k xs = [])"
proof -
  let ?a = "PGROUNDDOWN va" and ?e = "va + len - 1"
  have s0: "0 < unat len" using sz by (simp add: word_less_nat_alt)
  have "unat (va + of_nat (unat len - 1)) = unat va + (unat len - 1)"
    using le s0 by (intro unat64_add) (simp add: unat_MAXVA)
  moreover have "va + of_nat (unat len - 1) = ?e" using s0 by (simp add: of_nat_diff)
  ultimately have e: "unat ?e = unat va + unat len - 1" using s0 by (simp only:)
  have ua: "unat ?a = 4096 * pg va" "pg ?a = pg va" by (simp_all add: unat_PGROUNDDOWN pg_def)
  have ge: "pg va \<le> pg ?e" using e s0 by (simp add: pg_def div_le_mono)
  let ?n = "pg ?e - pg va"
  have ul: "unat (PGROUNDDOWN ?e) = 4096 * pg ?e" by (simp add: unat_PGROUNDDOWN pg_def)
  have el: "4096 * pg ?e \<le> unat ?e" by (simp add: pg_def)
  have bound: "unat ?a + 4096 * ?n < unat MAXVA" using ua ge el e le s0 by simp
  have "unat (?a + of_nat (4096 * ?n)) = unat ?a + 4096 * ?n"
    using bound by (intro unat64_add) (simp add: unat_MAXVA)
  then have last: "PGROUNDDOWN ?e = ?a + of_nat (4096 * ?n)"
    using ul ua ge by (simp add: word_unat_eq_iff)
  have sz': "len \<noteq> 0" using sz by auto
  from mappages_loop_correct [OF T aligned_PGROUNDDOWN bound, of pa perm]
  show ?thesis using free ge sz' unfolding mappages_def last ua(2) by fastforce
qed

text \<open>C9. \<open>mappages\<close> into an unmapped range never panics.  When it returns 0, every user
  address of the range translates to the corresponding page of the physical range and every
  other address translates as before; when it returns -1, physical memory is exhausted.\<close>

theorem mappages_walkaddr:
  assumes "tinv 2 pt s xs" and "0 < len" and "unat va + unat len \<le> unat MAXVA"
    and "\<And>v. v < MAXVA \<Longrightarrow> pg va \<le> pg v \<Longrightarrow> pg v \<le> pg (va + len - 1) \<Longrightarrow>
      pte_of (phys s) pt v AND PTE_V = 0"
    and "aligned 4096 pa" and "perm AND 0x3FF = perm" and "perm AND PTE_U \<noteq> 0"
  shows "\<exists>r s'. mappages pt va len pa perm s = Ok (r, s') \<and>
    (r = 0 \<and> (\<forall>v. walkaddr pt v s' =
       (if v < MAXVA \<and> pg va \<le> pg v \<and> pg v \<le> pg (va + len - 1)
        then Ok (pa + of_nat (4096 * (pg v - pg va))) else walkaddr pt v s)) \<or>
     r = -1 \<and> fst (kalloc s') = 0)"
proof -
  obtain r m f k j where M: "mappages pt va len pa perm s = Ok (r, s\<lparr>phys := m, freelist := f\<rparr>)"
    "grown 2 pt s xs m f k" "maps_to pt (phys s) m (pg va) j pa perm"
    and r: "r = 0 \<and> pg va + j = Suc (pg (va + len - 1)) \<or>
     r = -1 \<and> pg va + j \<le> pg (va + len - 1) \<and> drop k xs = []"
    using mappages_correct [OF assms(1-4), of pa perm] by blast
  let ?s = "s\<lparr>phys := m, freelist := f\<rparr>"
  have pt: "ptree (phys s) 2 pt" "ptree (phys ?s) 2 pt"
    and inv: "kmem_inv ?s (drop k xs)" using M(2) assms(1) by (auto simp: grown_def tinv_def)
  from r show ?thesis
  proof
    assume r0: "r = 0 \<and> pg va + j = Suc (pg (va + len - 1))"
    have "walkaddr pt v ?s = (if v < MAXVA \<and> pg va \<le> pg v \<and> pg v \<le> pg (va + len - 1)
        then Ok (pa + of_nat (4096 * (pg v - pg va))) else walkaddr pt v s)" for v
      using M(3) r0 user_entry [OF aligned_add_pages [OF assms(5), of "pg v - pg va"] assms(6,7)]
      by (auto simp: walkaddr_eq [OF pt(1)] walkaddr_eq [OF pt(2)] maps_to_def Let_def)
    then show ?thesis using M(1) r0 by blast
  next
    assume r1: "r = -1 \<and> pg va + j \<le> pg (va + len - 1) \<and> drop k xs = []"
    then have "fst (kalloc ?s) = 0" using inv ka.alloc_null_iff [OF inv] by simp
    then show ?thesis using M(1) r1 by blast
  qed
qed

text \<open>A machine with an empty page table at \<open>0x87FFD000\<close> and two free pages.\<close>

definition vm_demo :: kmem where
  "vm_demo = \<lparr>phys = store64 (\<lambda>_. 0) 0x87FFE000 0x87FFF000, kend = 0x87FFD000,
     freelist = 0x87FFE000\<rparr>"

lemma vm_demo_slot: "i < 512 \<Longrightarrow> load64 (phys vm_demo) (slot 0x87FFD000 i) = 0"
  using load64_slot_store [of "0x87FFE000" "0x87FFD000" 0 i "\<lambda>_. 0" "0x87FFF000"]
  by (simp add: vm_demo_def slot_def aligned_def)

lemma vm_demo_empty:
  "ptree (phys vm_demo) 2 0x87FFD000 \<and> tabs (phys vm_demo) 2 0x87FFD000 = {0x87FFD000} \<and>
   (\<forall>va. leaf (phys vm_demo) 2 0x87FFD000 va = 0)"
  by (rule empty_table) (auto simp: vm_demo_slot good_def aligned_def)

lemma vm_demo_tinv: "tinv 2 0x87FFD000 vm_demo [0x87FFE000, 0x87FFF000]"
proof -
  have "kmem_inv vm_demo [0x87FFE000, 0x87FFF000]"
    by (simp add: kmem_inv_def vm_demo_def load64_store64 aligned_def page_ok_def PGSIZE_def
        PHYSTOP_def KERNBASE_def)
  then show ?thesis using vm_demo_empty by (simp add: tinv_def)
qed

theorem mappages_walkaddr_witness:
  "\<exists>r s'. mappages 0x87FFD000 0x1000 PGSIZE 0x87FFC000 (PTE_R OR PTE_U) vm_demo = Ok (r, s') \<and>
    (r = 0 \<and> walkaddr 0x87FFD000 0x1008 s' = Ok 0x87FFC000 \<and>
       walkaddr 0x87FFD000 0x2000 s' = Ok 0 \<or>
     r = -1 \<and> fst (kalloc s') = 0)"
proof -
  have p: "pg 0x1000 = 1" "pg (0x1000 + PGSIZE - 1) = 1" "pg 0x1008 = 1" "pg 0x2000 = 2"
    "pg (4095 + PGSIZE) = 1"
    by (simp_all add: pg_def PGSIZE_def)
  have "walkaddr 0x87FFD000 0x2000 vm_demo = Ok 0"
    using vm_demo_empty by (simp add: walkaddr_eq pte_of_def)
  moreover have "(0x1008 :: uint64) < MAXVA" by (simp add: MAXVA_eq)
  moreover have "\<exists>r s'. mappages 0x87FFD000 0x1000 PGSIZE 0x87FFC000 (PTE_R OR PTE_U) vm_demo = Ok (r, s') \<and>
    (r = 0 \<and> (\<forall>v. walkaddr 0x87FFD000 v s' =
       (if v < MAXVA \<and> pg 0x1000 \<le> pg v \<and> pg v \<le> pg (0x1000 + PGSIZE - 1)
        then Ok (0x87FFC000 + of_nat (4096 * (pg v - pg 0x1000))) else walkaddr 0x87FFD000 v vm_demo)) \<or>
     r = -1 \<and> fst (kalloc s') = 0)"
    by (rule mappages_walkaddr [OF vm_demo_tinv])
      (use vm_demo_empty in \<open>auto simp: pte_of_def PGSIZE_def aligned_def PTE_R_def PTE_U_def unat_MAXVA\<close>)
  ultimately show ?thesis by (auto simp: p)
qed

end
