(* ===== verification/Vm_Copy.thy ===== *)
theory Vm_Copy
  imports Vm_Walk
begin

text \<open>
  Copying between the kernel and a user address space.  \<open>ubyte\<close> is the user's view of its
  memory: the byte at a virtual address, if a user page is mapped there.  \<open>copyin\<close> reads that
  view and \<open>copyout\<close> updates it, page by page, and neither touches anything else.
\<close>

section \<open>The user's view of memory\<close>

text \<open>
  What the hardware does with a user address under Sv39, from the bits of the address and of the
  page-table entries: bits 30-38, 21-29 and 12-20 of the address select entries of the three
  levels, bit 0 of an entry is valid, bit 4 of a leaf is user, and the frame is above bit 10.  Addresses
  from \<open>2 ^ 38\<close> up are not used.  No memory is at physical address 0: neither an entry nor a page.
\<close>

definition vpn :: "nat \<Rightarrow> uint64 \<Rightarrow> nat" where
  "vpn k va = unat va div 2 ^ (12 + 9 * k) mod 512"

definition frame_addr :: "uint64 \<Rightarrow> uint64" where
  "frame_addr e = of_nat (unat e div 2 ^ 10 * 2 ^ 12)"

definition user_page :: "memory \<Rightarrow> uint64 \<Rightarrow> uint64 \<Rightarrow> uint64 option" where
  "user_page m pt va =
     (let e2 = load64 m (pt + of_nat (8 * vpn 2 va));
          e1 = load64 m (frame_addr e2 + of_nat (8 * vpn 1 va));
          a0 = frame_addr e1 + of_nat (8 * vpn 0 va);
          e0 = load64 m a0
      in if unat va < 2 ^ 38 \<and> bit e2 0 \<and> bit e1 0 \<and> a0 \<noteq> 0 \<and> bit e0 0 \<and> bit e0 4 \<and> frame_addr e0 \<noteq> 0
         then Some (frame_addr e0) else None)"

definition ubyte :: "'z kmem_scheme \<Rightarrow> uint64 \<Rightarrow> uint64 \<Rightarrow> byte option" where
  "ubyte s pt va = map_option (\<lambda>pa. phys s (pa + of_nat (unat va mod 4096))) (user_page (phys s) pt va)"

text \<open>The kernel's translation is that of the hardware.\<close>

lemma PX_vpn: "8 * PX k va = of_nat (8 * vpn k va)"
proof -
  have "(0x1FF :: uint64) = mask 9" by (simp add: mask_eq_exp_minus_1)
  then have PX: "PX k va = take_bit 9 (drop_bit (12 + 9 * k) va)" by (simp add: PX_def take_bit_eq_mask)
  have "unat (take_bit 9 (drop_bit (12 + 9 * k) va)) = take_bit 9 (drop_bit (12 + 9 * k) (unat va))"
    by (simp only: unsigned_take_bit_eq unsigned_drop_bit_eq) (auto simp: bit_eq_iff bit_simps dest: bit_imp_le_length)
  also have "\<dots> = vpn k va" by (simp add: vpn_def take_bit_eq_mod drop_bit_eq_div)
  finally have "of_nat (unat (PX k va)) = (of_nat (vpn k va) :: uint64)" unfolding PX by (rule arg_cong)
  then have "PX k va = of_nat (vpn k va)" by (simp only: of_nat_unat64)
  then show ?thesis by simp
qed

lemma PTE2PA_frame: "PTE2PA e = frame_addr e"
proof -
  have "PTE2PA e = of_nat (unat (drop_bit 10 e)) * 2 ^ 12" by (simp add: PTE2PA_def push_bit_eq_mult)
  also have "unat (drop_bit 10 e) = unat e div 2 ^ 10" by (simp add: drop_bit_eq_div unat_div_distrib)
  finally show ?thesis by (simp add: frame_addr_def)
qed

lemma PTE_bits: "e AND PTE_V = 0 \<longleftrightarrow> \<not> bit e 0" "e AND PTE_U = 0 \<longleftrightarrow> \<not> bit e 4"
proof -
  have p: "PTE_V = 2 ^ 0" "PTE_U = 2 ^ 4" by (simp_all add: PTE_V_def PTE_U_def)
  show "e AND PTE_V = 0 \<longleftrightarrow> \<not> bit e 0" "e AND PTE_U = 0 \<longleftrightarrow> \<not> bit e 4"
    unfolding p by (rule and_exp_eq_0_iff_not_bit)+
qed

lemma walk_loop_entries:
  "walk_loop 2 pt va False s =
     (let e2 = load64 (phys s) (pt + of_nat (8 * vpn 2 va));
          e1 = load64 (phys s) (frame_addr e2 + of_nat (8 * vpn 1 va))
      in (if bit e2 0 \<and> bit e1 0 then frame_addr e1 + of_nat (8 * vpn 0 va) else 0, s))"
  by (simp only: PX_vpn [symmetric] PTE2PA_frame [symmetric]) (simp add: numeral_2_eq_2 Let_def PTE_bits)

lemma walkaddr_user_page:
  "walkaddr pt va s = Ok (case user_page (phys s) pt va of None \<Rightarrow> 0 | Some pa \<Rightarrow> pa)"
  by (simp add: walkaddr_def walk_def walk_loop_entries user_page_def PTE2PA_frame PTE_bits Let_def
      word_le_nat_alt unat_MAXVA)

lemma walkaddr_iff: "pa \<noteq> 0 \<Longrightarrow> walkaddr pt va s = Ok pa \<longleftrightarrow> user_page (phys s) pt va = Some pa"
  by (auto simp: walkaddr_user_page user_page_def Let_def split: option.splits if_splits)

lemma vpn_page: "vpn k (PGROUNDDOWN va) = vpn k va"
proof -
  have "unat va div 4096 * 4096 div (4096 * d) = unat va div (4096 * d)" for d :: nat
    by (simp add: div_mult2_eq)
  then show ?thesis by (simp add: vpn_def unat_PGROUNDDOWN power_add)
qed

lemma user_page_page: "user_page m pt (PGROUNDDOWN va) = user_page m pt va"
proof -
  have "unat va div 4096 * 4096 < 2 ^ 38 \<longleftrightarrow> unat va < 2 ^ 38"
  proof -
    have "unat va div 4096 * 4096 < 67108864 * 4096 \<longleftrightarrow> unat va div 4096 < 67108864" by (simp only: mult_less_cancel2) simp
    also have "\<dots> \<longleftrightarrow> unat va < 67108864 * 4096" by (simp add: div_less_iff_less_mult)
    finally show ?thesis by simp
  qed
  then show ?thesis by (simp add: user_page_def vpn_page unat_PGROUNDDOWN)
qed

lemma ubyte_walk:
  "ubyte s pt va =
     (case walkaddr pt (PGROUNDDOWN va) s of
        Ok pa0 \<Rightarrow> if pa0 = 0 then None else Some (phys s (pa0 + (va - PGROUNDDOWN va)))
      | _ \<Rightarrow> None)"
proof -
  have "of_nat (unat (va - PGROUNDDOWN va)) = (of_nat (unat va mod 4096) :: uint64)" by (simp only: unat_page_off)
  then have "va - PGROUNDDOWN va = of_nat (unat va mod 4096)" by (simp only: of_nat_unat64)
  moreover have "user_page (phys s) pt va \<noteq> Some 0" by (simp add: user_page_def Let_def)
  ultimately show ?thesis
    by (auto simp: ubyte_def walkaddr_user_page user_page_page split: option.splits)
qed

lemma walkaddr_Ok: "\<exists>pa. walkaddr pt va s = Ok pa"
  by (auto simp: walkaddr_def walk_def Let_def split: prod.splits)

lemma page_bound: "q < 4503599627370496 \<Longrightarrow> r + i < 4096 \<Longrightarrow> q * 4096 + r + i < 2 ^ 64" for q :: nat
  by simp

lemma PGROUNDDOWN_in_page:
  assumes "i < page_rest va"
  shows "PGROUNDDOWN (va + of_nat i) = PGROUNDDOWN va"
    and "va + of_nat i - PGROUNDDOWN va = va - PGROUNDDOWN va + of_nat i"
proof -
  let ?q = "unat va div 4096" and ?r = "unat va mod 4096"
  have d: "unat va = ?q * 4096 + ?r" by simp
  have i: "?r + i < 4096" using assms by (simp add: page_rest_eq less_diff_conv)
  have "unat va < 4503599627370496 * 4096" using unat64_lt [of va] by simp
  then have "?q < 4503599627370496" by (rule less_mult_imp_div_less)
  then have "?q * 4096 + ?r + i < 2 ^ 64" using i by (rule page_bound)
  then have "unat va + i < 2 ^ 64" by simp
  then have "unat (va + of_nat i) = unat va + i" by (rule unat64_add)
  then have "unat (va + of_nat i) = (?r + i) + ?q * 4096" using d by linarith
  moreover have "((?r + i) + ?q * 4096) div 4096 = ?q + (?r + i) div 4096"
    by (rule div_mult_self1) simp
  ultimately have "unat (va + of_nat i) div 4096 = ?q" using i by (simp only: div_less)
  then show "PGROUNDDOWN (va + of_nat i) = PGROUNDDOWN va"
    by (simp add: word_unat_eq_iff unat_PGROUNDDOWN)
qed simp

lemma next_page: "PGROUNDDOWN va + PGSIZE = va + of_nat (page_rest va)"
proof -
  have "page_rest va = 4096 - unat (va - PGROUNDDOWN va)" "unat (va - PGROUNDDOWN va) < 4096"
    by (simp_all add: page_rest_def unat_page_off)
  then have "of_nat (page_rest va) = (4096 - (va - PGROUNDDOWN va) :: uint64)"
    by (simp add: of_nat_diff)
  then show ?thesis by (simp add: PGSIZE_def)
qed

text \<open>The bytes of one page, as the user sees them.\<close>

lemma ubyte_in_page:
  assumes "walkaddr pt (PGROUNDDOWN va) s = Ok pa0" "i < page_rest va"
  shows "ubyte s pt (va + of_nat i) =
    (if pa0 = 0 then None else Some (phys s (pa0 + (va - PGROUNDDOWN va) + of_nat i)))"
  using assms PGROUNDDOWN_in_page [OF assms(2)] by (simp add: ubyte_walk algebra_simps)

definition ubytes :: "'z kmem_scheme \<Rightarrow> uint64 \<Rightarrow> uint64 \<Rightarrow> nat \<Rightarrow> byte option list" where
  "ubytes s pt va n = map (\<lambda>i. ubyte s pt (va + of_nat i)) [0..<n]"

lemma ubytes_add: "ubytes s pt va (n + k) = ubytes s pt va n @ ubytes s pt (va + of_nat n) k"
proof -
  have "[n..<n + k] = map (\<lambda>i. n + i) [0..<k]" by (simp add: map_add_upt add.commute)
  then show ?thesis by (simp add: ubytes_def upt_add_eq_append [of 0 n k] add.assoc o_def)
qed

lemma ubytes_page:
  assumes "walkaddr pt (PGROUNDDOWN va) s = Ok pa0" "pa0 \<noteq> 0" "n \<le> page_rest va"
  shows "ubytes s pt va n = map Some (load_bytes (phys s) (pa0 + (va - PGROUNDDOWN va)) n)"
  using assms ubyte_in_page [OF assms(1)] by (auto simp: ubytes_def load_bytes_def)

lemma ubytes_unmapped:
  assumes "walkaddr pt (PGROUNDDOWN va) s = Ok 0" "0 < n"
  shows "None \<in> set (ubytes s pt va n)"
  using ubyte_in_page [OF assms(1), of 0] assms(2) by (force simp: ubytes_def)

lemma map_Some_the: "None \<notin> set xs \<Longrightarrow> map Some (map the xs) = xs"
  by (induction xs) auto

section \<open>Reading user memory\<close>

lemma copyin_eq:
  "(None \<notin> set (ubytes s pt va n) \<longrightarrow> copyin pt va n s = Ok (0, map the (ubytes s pt va n))) \<and>
   (None \<in> set (ubytes s pt va n) \<longrightarrow> (\<exists>bs. copyin pt va n s = Ok (-1, bs)))"
proof (induction pt va n s rule: copyin.induct)
  case (1 pt va n s)
  obtain pa0 where pa0: "walkaddr pt (PGROUNDDOWN va) s = Ok pa0" using walkaddr_Ok by blast
  consider "n = 0" | "n \<noteq> 0" "pa0 = 0" | "n \<noteq> 0" "pa0 \<noteq> 0" by blast
  then show ?case
  proof cases
    case 1
    then show ?thesis by (simp add: copyin.simps [of pt va] ubytes_def)
  next
    case 2
    then show ?thesis using ubytes_unmapped [of pt va s n] pa0 by (simp add: copyin.simps [of pt va])
  next
    case 3
    define k where "k = (if page_rest va > n then n else page_rest va)"
    have k: "k \<le> page_rest va" "k \<le> n" by (auto simp: k_def)
    let ?b = "load_bytes (phys s) (pa0 + (va - PGROUNDDOWN va)) k"
    have IH: "(None \<notin> set (ubytes s pt (PGROUNDDOWN va + PGSIZE) (n - k)) \<longrightarrow>
        copyin pt (PGROUNDDOWN va + PGSIZE) (n - k) s =
        Ok (0, map the (ubytes s pt (PGROUNDDOWN va + PGSIZE) (n - k)))) \<and>
      (None \<in> set (ubytes s pt (PGROUNDDOWN va + PGSIZE) (n - k)) \<longrightarrow>
        (\<exists>bs. copyin pt (PGROUNDDOWN va + PGSIZE) (n - k) s = Ok (-1, bs)))"
      using "1.IH" [OF 3(1) refl pa0 3(2) refl k_def] .
    have "ubytes s pt va n = map Some ?b @ ubytes s pt (va + of_nat k) (n - k)"
      using ubytes_add [of s pt va k "n - k"] ubytes_page [OF pa0 3(2) k(1)] k(2) by simp
    moreover have "ubytes s pt (va + of_nat k) (n - k) = ubytes s pt (PGROUNDDOWN va + PGSIZE) (n - k)"
      by (cases "page_rest va > n") (simp_all add: k_def next_page ubytes_def)
    moreover have "copyin pt va n s = bindR (copyin pt (PGROUNDDOWN va + PGSIZE) (n - k) s) (\<lambda>(r, bs).
        Ok (r, ?b @ bs))"
      using 3 pa0 by (simp add: copyin.simps [of pt va n] k_def Let_def)
    ultimately show ?thesis using IH by (auto simp: o_def)
  qed
qed

text \<open>C16. \<open>copyin\<close> never panics.  It returns 0 exactly when every byte of the range is mapped
  for the user, and then yields exactly the user's bytes.\<close>

theorem copyin_correct:
  "\<exists>r bs. copyin pt va n s = Ok (r, bs) \<and>
     (if None \<in> set (ubytes s pt va n) then r = -1
      else r = 0 \<and> map Some bs = ubytes s pt va n)"
  using copyin_eq [of s pt va n] map_Some_the [of "ubytes s pt va n"] by auto

text \<open>The C string at the start of a sequence of bytes that may be unmapped, with its NUL.\<close>

fun cstr :: "byte option list \<Rightarrow> byte list option" where
  "cstr [] = None"
| "cstr (None # xs) = None"
| "cstr (Some c # xs) = (if c = 0 then Some [0] else map_option ((#) c) (cstr xs))"

lemma load_bytes_Suc: "load_bytes m p (Suc n) = m p # load_bytes m (p + 1) n"
  by (simp add: load_bytes_def upt_conv_Cons map_Suc_upt [symmetric] add.assoc del: upt_Suc)

lemma cstr_page:
  "copyinstr_page m p n = (bs, got_null) \<Longrightarrow>
   cstr (map Some (load_bytes m p n) @ r) = (if got_null then Some bs else map_option ((@) bs) (cstr r))"
proof (induction n arbitrary: p bs)
  case 0
  then show ?case by (cases "cstr r") auto
next
  case (Suc n)
  then show ?case
    by (cases "cstr r") (auto simp: load_bytes_Suc split: if_splits prod.splits)
qed

lemma copyinstr_eq:
  "case cstr (ubytes s pt va n) of
     Some bs \<Rightarrow> copyinstr pt va n s = Ok (0, bs)
   | None \<Rightarrow> (\<exists>bs. copyinstr pt va n s = Ok (-1, bs))"
proof (induction pt va n s rule: copyinstr.induct)
  case (1 pt va n s)
  obtain pa0 where pa0: "walkaddr pt (PGROUNDDOWN va) s = Ok pa0" using walkaddr_Ok by blast
  consider "n = 0" | "n \<noteq> 0" "pa0 = 0" | "n \<noteq> 0" "pa0 \<noteq> 0" by blast
  then show ?case
  proof cases
    case 1
    then show ?thesis by (simp add: copyinstr.simps [of pt va] ubytes_def)
  next
    case 2
    then have "ubytes s pt va n = None # ubytes s pt (va + 1) (n - 1)"
      using ubytes_add [of s pt va 1 "n - 1"] ubyte_in_page [OF pa0, of 0] by (simp add: ubytes_def)
    then show ?thesis using 2 pa0 by (simp add: copyinstr.simps [of pt va])
  next
    case 3
    define k where "k = (if page_rest va > n then n else page_rest va)"
    have k: "k \<le> page_rest va" "k \<le> n" by (auto simp: k_def)
    obtain bs got_null where p: "copyinstr_page (phys s) (pa0 + (va - PGROUNDDOWN va)) k = (bs, got_null)"
      by fastforce
    have u: "ubytes s pt va n = map Some (load_bytes (phys s) (pa0 + (va - PGROUNDDOWN va)) k) @
        ubytes s pt (va + of_nat k) (n - k)"
      using ubytes_add [of s pt va k "n - k"] ubytes_page [OF pa0 3(2) k(1)] k(2) by simp
    moreover have "ubytes s pt (va + of_nat k) (n - k) = ubytes s pt (PGROUNDDOWN va + PGSIZE) (n - k)"
      by (cases "page_rest va > n") (simp_all add: k_def next_page ubytes_def)
    ultimately have c: "cstr (ubytes s pt va n) = (if got_null then Some bs
        else map_option ((@) bs) (cstr (ubytes s pt (PGROUNDDOWN va + PGSIZE) (n - k))))"
      using cstr_page [OF p] by simp
    have e: "copyinstr pt va n s = (if got_null then Ok (0, bs)
        else bindR (copyinstr pt (PGROUNDDOWN va + PGSIZE) (n - k) s) (\<lambda>(r, bs'). Ok (r, bs @ bs')))"
      using 3 pa0 p by (simp add: copyinstr.simps [of pt va n] k_def Let_def)
    show ?thesis
    proof (cases got_null)
      case True
      then show ?thesis using c e by simp
    next
      case False
      have "case cstr (ubytes s pt (PGROUNDDOWN va + PGSIZE) (n - k)) of
         Some bs \<Rightarrow> copyinstr pt (PGROUNDDOWN va + PGSIZE) (n - k) s = Ok (0, bs)
       | None \<Rightarrow> \<exists>bs. copyinstr pt (PGROUNDDOWN va + PGSIZE) (n - k) s = Ok (-1, bs)"
        using "1.IH" [OF 3(1) refl pa0 3(2) refl k_def p [symmetric] False] .
      then show ?thesis using c e False by (auto split: option.splits)
    qed
  qed
qed

text \<open>C17. \<open>copyinstr\<close> never panics.  It returns 0 exactly when the user's memory holds a
  NUL-terminated string within \<open>n\<close> mapped bytes, and then yields that string.\<close>

theorem copyinstr_correct:
  "\<exists>r bs. copyinstr pt va n s = Ok (r, bs) \<and>
     (case cstr (ubytes s pt va n) of None \<Rightarrow> r = -1 | Some str \<Rightarrow> r = 0 \<and> bs = str)"
  using copyinstr_eq [of pt va n s] by (auto split: option.splits)

section \<open>Writing user memory\<close>

text \<open>The physical pages mapped for the user.\<close>

definition upages :: "'z kmem_scheme \<Rightarrow> uint64 \<Rightarrow> uint64 set" where
  "upages s pt = {pa. \<exists>v. user_page (phys s) pt v = Some pa}"

text \<open>
  An address space the kernel set up: the table is a tree, no user page is one of its
  tables, and no two virtual pages share a physical page.
\<close>

definition user_ok :: "'z kmem_scheme \<Rightarrow> uint64 \<Rightarrow> bool" where
  "user_ok s pt \<longleftrightarrow> ptree (phys s) 2 pt \<and> upages s pt \<inter> tabs (phys s) 2 pt = {} \<and>
     (\<forall>v v' pa. user_page (phys s) pt v = Some pa \<and> user_page (phys s) pt v' = Some pa \<longrightarrow> pg v = pg v')"

lemma user_page_nonnull: "user_page m pt v \<noteq> Some 0"
  by (simp add: user_page_def Let_def)

lemma upages_walk: "upages s pt = {pa. pa \<noteq> 0 \<and> (\<exists>v. walkaddr pt v s = Ok pa)}"
  using user_page_nonnull [of "phys s" pt] by (auto simp: upages_def walkaddr_iff) (metis walkaddr_iff)+

lemma user_ok_walk:
  "user_ok s pt \<longleftrightarrow> ptree (phys s) 2 pt \<and> upages s pt \<inter> tabs (phys s) 2 pt = {} \<and>
     (\<forall>v v' pa. pa \<noteq> 0 \<and> walkaddr pt v s = Ok pa \<and> walkaddr pt v' s = Ok pa \<longrightarrow> pg v = pg v')"
  using user_page_nonnull [of "phys s" pt] unfolding user_ok_def by (metis walkaddr_iff)

lemma aligned_PTE2PA: "aligned 4096 (PTE2PA e)"
proof -
  have "take_bit 12 (PTE2PA e) = 0" by (simp add: PTE2PA_def take_bit_push_bit)
  then show ?thesis by (simp add: aligned_page_iff PGSIZE_def take_bit_eq_mod)
qed

lemma upages_aligned: "user_ok s pt \<Longrightarrow> pa \<in> upages s pt \<Longrightarrow> aligned 4096 pa"
  by (auto simp: upages_walk user_ok_walk walkaddr_eq Let_def aligned_PTE2PA split: if_splits)

text \<open>Changes to user pages do not affect translation.\<close>

lemma walkaddr_frame:
  assumes u: "user_ok s pt" and T: "T \<subseteq> upages s pt" and o: "outside T (phys s) m"
  shows "walkaddr pt v (s\<lparr>phys := m\<rparr>) = walkaddr pt v s" "user_ok (s\<lparr>phys := m\<rparr>) pt"
    "upages (s\<lparr>phys := m\<rparr>) pt = upages s pt"
proof -
  have pt: "ptree (phys s) 2 pt" using u by (simp add: user_ok_walk)
  have "ptree m 2 pt \<and> tabs m 2 pt = tabs (phys s) 2 pt \<and>
      walkp m 2 pt = walkp (phys s) 2 pt \<and> leaf m 2 pt = leaf (phys s) 2 pt"
    by (rule ptree_frame [OF o _ pt])
      (use u T upages_aligned [OF u] in \<open>auto simp: user_ok_walk\<close>)
  then have f: "ptree m 2 pt" "tabs m 2 pt = tabs (phys s) 2 pt" "pte_of m pt = pte_of (phys s) pt"
    by (auto simp: pte_of_def fun_eq_iff)
  show w: "walkaddr pt v (s\<lparr>phys := m\<rparr>) = walkaddr pt v s" for v
    using pt f by (simp add: walkaddr_eq)
  then show up: "upages (s\<lparr>phys := m\<rparr>) pt = upages s pt" by (simp add: upages_walk)
  show "user_ok (s\<lparr>phys := m\<rparr>) pt" using u f w up by (simp add: user_ok_walk)
qed

lemma same_page_iff: "PGROUNDDOWN v = PGROUNDDOWN va \<longleftrightarrow> pg v = pg va"
  by (simp add: word_unat_eq_iff unat_PGROUNDDOWN pg_def)

lemma pg_PGROUNDDOWN [simp]: "pg (PGROUNDDOWN v) = pg v"
  by (simp add: pg_def unat_PGROUNDDOWN)

lemma in_page_off: "aligned 4096 p \<Longrightarrow> in_page p (p + (v - PGROUNDDOWN v))"
  by (simp add: in_page_def unat_page_off)

text \<open>Writing within one page updates exactly those bytes of the view.\<close>

lemma copyout_page:
  assumes u: "user_ok s pt" and w: "walkaddr pt (PGROUNDDOWN va) s = Ok pa0" "pa0 \<noteq> 0"
    and n: "length bs \<le> page_rest va"
    and m: "m = store_bytes (phys s) (pa0 + (va - PGROUNDDOWN va)) bs"
  shows "same_outside pa0 (phys s) m \<and> pa0 \<in> upages s pt \<and>
    (\<forall>v. ubyte (s\<lparr>phys := m\<rparr>) pt v =
      (if unat (v - va) < length bs then Some (bs ! unat (v - va)) else ubyte s pt v))"
proof -
  have up: "pa0 \<in> upages s pt" using w by (auto simp: upages_walk)
  have al: "aligned 4096 pa0" using upages_aligned [OF u up] .
  let ?o = "unat va mod 4096"
  have off: "va - PGROUNDDOWN va = of_nat ?o" by (simp flip: unat_page_off)
  have out: "same_outside pa0 (phys s) m"
    unfolding m off using n by (intro same_outside_store) (simp add: page_rest_eq)
  have o: "outside {pa0} (phys s) m" using out by (rule same_outside_imp) simp
  note F = walkaddr_frame [OF u _ o]
  have "ubyte (s\<lparr>phys := m\<rparr>) pt v =
      (if unat (v - va) < length bs then Some (bs ! unat (v - va)) else ubyte s pt v)" for v
  proof (cases "pg v = pg va")
    case True
    then have eq: "PGROUNDDOWN v = PGROUNDDOWN va" by (simp add: same_page_iff)
    have "pa0 + (v - PGROUNDDOWN va) - (pa0 + (va - PGROUNDDOWN va)) = v - va" by simp
    then show ?thesis using w up F(1) unfolding ubyte_walk eq
      by (simp add: m store_bytes_def)
  next
    case False
    have "\<not> unat (v - va) < length bs"
    proof
      assume l: "unat (v - va) < length bs"
      then have "PGROUNDDOWN (va + of_nat (unat (v - va))) = PGROUNDDOWN va"
        using n by (intro PGROUNDDOWN_in_page) simp
      then show False using False by (simp add: same_page_iff)
    qed
    moreover have "ubyte (s\<lparr>phys := m\<rparr>) pt v = ubyte s pt v"
    proof -
      obtain p where p: "walkaddr pt (PGROUNDDOWN v) s = Ok p" using walkaddr_Ok by blast
      have "m (p + (v - PGROUNDDOWN v)) = phys s (p + (v - PGROUNDDOWN v))" if "p \<noteq> 0"
      proof -
        have pu: "p \<in> upages s pt" using p that by (auto simp: upages_walk)
        have "p \<noteq> pa0"
        proof
          assume "p = pa0"
          then have "pg (PGROUNDDOWN v) = pg (PGROUNDDOWN va)"
            using u p w that unfolding user_ok_walk by blast
          then show False using False by simp
        qed
        then have "\<not> in_page pa0 (p + of_nat (unat (v - PGROUNDDOWN v)))"
          using al upages_aligned [OF u pu] by (intro other_page) (auto simp: unat_page_off)
        then show ?thesis using out by (simp add: same_outside_def)
      qed
      then show ?thesis using p up F(1) by (simp add: ubyte_walk)
    qed
    ultimately show ?thesis by simp
  qed
  then show ?thesis using out up by blast
qed

lemma ubytes_None: "None \<in> set (ubytes s pt va n) \<longleftrightarrow> (\<exists>i<n. ubyte s pt (va + of_nat i) = None)"
  by (force simp: ubytes_def)

lemma ubytes_cong: "(\<And>v. ubyte s pt v = None \<longleftrightarrow> ubyte s' pt v = None) \<Longrightarrow>
    None \<in> set (ubytes s pt va n) \<longleftrightarrow> None \<in> set (ubytes s' pt va n)"
  by (simp add: ubytes_None)

lemma range_split:
  fixes v va :: uint64
  assumes "n \<le> N" "N < 2 ^ 64"
  shows "unat (v - va) < N \<longleftrightarrow> unat (v - va) < n \<or> unat (v - (va + of_nat n)) < N - n"
    and "\<not> unat (v - va) < n \<Longrightarrow> unat (v - (va + of_nat n)) < N - n \<Longrightarrow>
      unat (v - va) = n + unat (v - (va + of_nat n))"
    and "unat (v - va) < n \<Longrightarrow> \<not> unat (v - (va + of_nat n)) < N - n"
proof -
  let ?d = "unat (v - va)"
  have n64: "unat (of_nat n :: uint64) = n" using assms by (intro unat64_of_nat) simp
  have e: "v - (va + of_nat n) = v - va - of_nat n" by simp
  have ge: "unat (v - va - of_nat n) = ?d - n" if "n \<le> ?d"
    using that n64 unat64_sub [of "of_nat n" "v - va"] by (simp add: word_le_nat_alt)
  have lt: "N - n \<le> unat (v - va - of_nat n)" if "?d < n"
  proof -
    have "unat (v - va) + (2 ^ 64 - n) < 2 ^ 64" using that assms by simp
    then have "unat (v - va + of_nat (2 ^ 64 - n)) = ?d + (2 ^ 64 - n)" by (rule unat64_add)
    moreover have "(of_nat (2 ^ 64 - n) :: uint64) = - of_nat n"
      using assms by (simp add: of_nat_diff)
    ultimately show ?thesis using assms by simp
  qed
  show "?d < N \<longleftrightarrow> ?d < n \<or> unat (v - (va + of_nat n)) < N - n"
    unfolding e using ge lt assms(1) by (cases "?d < n") auto
  show "\<not> ?d < n \<Longrightarrow> unat (v - (va + of_nat n)) < N - n \<Longrightarrow> ?d = n + unat (v - (va + of_nat n))"
    unfolding e using ge by simp
  show "?d < n \<Longrightarrow> \<not> unat (v - (va + of_nat n)) < N - n"
    unfolding e using lt by simp
qed

definition updated :: "'z kmem_scheme \<Rightarrow> uint64 \<Rightarrow> uint64 \<Rightarrow> byte list \<Rightarrow> memory \<Rightarrow> bool" where
  "updated s pt va src m \<longleftrightarrow> outside (upages s pt) (phys s) m \<and>
     (\<forall>v. ubyte (s\<lparr>phys := m\<rparr>) pt v =
       (if unat (v - va) < length src then Some (src ! unat (v - va)) else ubyte s pt v))"

lemma updated_Nil: "updated s pt va [] (phys s)"
  by (simp add: updated_def)

lemma updated_append:
  assumes u: "user_ok s pt" and 1: "updated s pt va a m" and
    2: "updated (s\<lparr>phys := m\<rparr>) pt (va + of_nat (length a)) b m'" and len: "length a + length b < 2 ^ 64"
  shows "updated s pt va (a @ b) m'"
proof -
  have o: "outside (upages s pt) (phys s) m" using 1 by (simp add: updated_def)
  note F = walkaddr_frame [OF u subset_refl o]
  have "outside (upages s pt) (phys s) m'"
    using 2 o F(3) by (auto simp: updated_def intro: outside_trans)
  moreover have "ubyte (s\<lparr>phys := m'\<rparr>) pt v =
      (if unat (v - va) < length (a @ b) then Some ((a @ b) ! unat (v - va)) else ubyte s pt v)" for v
    using 1 2 range_split [of "length a" "length a + length b" v va] len
    by (auto simp: updated_def nth_append)
  ultimately show ?thesis by (simp add: updated_def)
qed

lemma copyout_eq:
  "user_ok s pt \<Longrightarrow> length src < 2 ^ 64 \<Longrightarrow>
   \<exists>r m. copyout pt va src s = Ok (r, s\<lparr>phys := m\<rparr>) \<and> outside (upages s pt) (phys s) m \<and>
     (if None \<in> set (ubytes s pt va (length src)) then r = -1 else r = 0 \<and> updated s pt va src m)"
proof (induction pt va src s rule: copyout.induct)
  case (1 pt va src s)
  obtain pa0 where pa0: "walkaddr pt (PGROUNDDOWN va) s = Ok pa0" using walkaddr_Ok by blast
  consider "src = []" | "src \<noteq> []" "pa0 = 0" | "src \<noteq> []" "pa0 \<noteq> 0" by blast
  then show ?case
  proof cases
    case 1
    then have "copyout pt va src s = Ok (0, s\<lparr>phys := phys s\<rparr>)" by (simp add: copyout.simps [of pt va])
    then show ?thesis using 1 updated_Nil [of s pt va]
      by (intro exI [of _ 0] exI [of _ "phys s"]) (simp add: ubytes_def)
  next
    case 2
    then have "copyout pt va src s = Ok (-1, s\<lparr>phys := phys s\<rparr>)"
      using pa0 by (simp add: copyout.simps [of pt va])
    then show ?thesis using 2 pa0 ubytes_unmapped [of pt va s "length src"]
      by (metis length_greater_0_conv outside_refl)
  next
    case 3
    define n where "n = (if page_rest va > length src then length src else page_rest va)"
    have n: "n \<le> page_rest va" "n \<le> length src" by (auto simp: n_def)
    define m where "m = store_bytes (phys s) (pa0 + (va - PGROUNDDOWN va)) (take n src)"
    let ?s = "s\<lparr>phys := m\<rparr>" and ?va = "va + of_nat n"
    have P: "same_outside pa0 (phys s) m \<and> pa0 \<in> upages s pt \<and>
      (\<forall>v. ubyte ?s pt v = (if unat (v - va) < length (take n src) then Some (take n src ! unat (v - va))
        else ubyte s pt v))"
      by (rule copyout_page [OF "1.prems"(1) pa0 3(2) _ m_def]) (use n in auto)
    then have o: "outside (upages s pt) (phys s) m" by (blast intro: same_outside_imp)
    note F = walkaddr_frame [OF "1.prems"(1) subset_refl o]
    have up: "updated s pt va (take n src) m" using P o by (simp add: updated_def)
    have nx: "PGROUNDDOWN va + PGSIZE = ?va \<or> drop n src = []"
      by (auto simp: n_def next_page)
    then have nx1: "ubytes ?s pt (PGROUNDDOWN va + PGSIZE) (length (drop n src)) =
        ubytes ?s pt ?va (length (drop n src))"
      by (elim disjE) (simp only:, simp add: ubytes_def)
    from nx have nx2: "updated ?s pt (PGROUNDDOWN va + PGSIZE) (drop n src) m' =
        updated ?s pt ?va (drop n src) m'" for m'
      by (elim disjE) (simp only:, simp add: updated_def)
    have E: "copyout pt va src s = copyout pt (PGROUNDDOWN va + PGSIZE) (drop n src) ?s"
      using 3 pa0 by (simp add: copyout.simps [of pt va src] m_def n_def Let_def)
    have l: "length (drop n src) < 2 ^ 64" using "1.prems"(2) by simp
    have "\<exists>r m'. copyout pt (PGROUNDDOWN va + PGSIZE) (drop n src) ?s = Ok (r, ?s\<lparr>phys := m'\<rparr>) \<and>
       outside (upages ?s pt) m m' \<and>
       (if None \<in> set (ubytes ?s pt (PGROUNDDOWN va + PGSIZE) (length (drop n src)))
        then r = -1 else r = 0 \<and> updated ?s pt (PGROUNDDOWN va + PGSIZE) (drop n src) m')"
      using "1.IH" [OF 3(1) refl pa0 3(2) refl n_def, folded m_def, OF F(2) l]
      by simp
    then obtain r m' where X: "copyout pt (PGROUNDDOWN va + PGSIZE) (drop n src) ?s = Ok (r, ?s\<lparr>phys := m'\<rparr>)"
       "outside (upages ?s pt) m m'"
       "if None \<in> set (ubytes ?s pt ?va (length (drop n src)))
        then r = -1 else r = 0 \<and> updated ?s pt ?va (drop n src) m'"
      unfolding nx1 nx2 by blast
    then have R: "copyout pt va src s = Ok (r, s\<lparr>phys := m'\<rparr>)" "outside (upages s pt) m m'"
      unfolding E F(3) by simp_all
    have un: "ubytes s pt va (length src) = map Some (load_bytes (phys s) (pa0 + (va - PGROUNDDOWN va)) n) @
        ubytes s pt ?va (length src - n)"
      using ubytes_add [of s pt va n "length src - n"] ubytes_page [OF pa0 3(2) n(1)] n(2) by simp
    have "ubyte s pt v = None \<longleftrightarrow> ubyte ?s pt v = None" for v
      using F(1) walkaddr_Ok [of pt "PGROUNDDOWN v" s] by (auto simp: ubyte_walk split: if_splits)
    then have "None \<in> set (ubytes s pt ?va (length src - n)) \<longleftrightarrow>
        None \<in> set (ubytes ?s pt ?va (length src - n))" by (rule ubytes_cong)
    then have "None \<in> set (ubytes s pt va (length src)) \<longleftrightarrow>
        None \<in> set (ubytes ?s pt ?va (length (drop n src)))" unfolding un by auto
    moreover have "updated s pt va src m'" if "updated ?s pt ?va (drop n src) m'"
      using updated_append [OF "1.prems"(1) up, of "drop n src" m'] that n(2) "1.prems"(2)
      by (simp add: min_absorb2)
    ultimately show ?thesis using R X(3) outside_trans [OF o R(2)]
      by (intro exI [of _ r] exI [of _ m']) (auto split: if_splits)
  qed
qed

text \<open>C10. \<open>copyout\<close> never panics and writes nothing but pages mapped for the user.  It returns
  0 exactly when every byte of the range is mapped, and then the user sees the copied bytes
  there and its old bytes everywhere else.\<close>

theorem copyout_correct:
  assumes "user_ok s pt" and "length src < 2 ^ 64"
  shows "\<exists>r m. copyout pt va src s = Ok (r, s\<lparr>phys := m\<rparr>) \<and> outside (upages s pt) (phys s) m \<and>
    (if None \<in> set (ubytes s pt va (length src)) then r = -1
     else r = 0 \<and> (\<forall>v. ubyte (s\<lparr>phys := m\<rparr>) pt v =
       (if unat (v - va) < length src then Some (src ! unat (v - va)) else ubyte s pt v)))"
  using copyout_eq [OF assms, of va] by (fastforce simp: updated_def)

text \<open>C15. What \<open>copyout\<close> wrote, \<open>copyin\<close> reads back.\<close>

theorem copyout_copyin:
  assumes "user_ok s pt" and "length src < 2 ^ 64" and "copyout pt va src s = Ok (0, s')"
  shows "copyin pt va (length src) s' = Ok (0, src)"
proof -
  obtain m where m: "s' = s\<lparr>phys := m\<rparr>" and u: "updated s pt va src m"
    using copyout_eq [OF assms(1,2), of va] assms(3) by (auto split: if_splits)
  have "unat (of_nat i :: uint64) = i" if "i < length src" for i
    using that assms(2) by (intro unat64_of_nat) simp
  then have "ubytes s' pt va (length src) = map Some src"
    using u by (auto simp: m updated_def ubytes_def intro: nth_equalityI)
  then show ?thesis using copyin_eq [of s' pt va "length src"] by (auto simp: o_def)
qed

text \<open>A machine with one user page (at virtual address 0) behind three page-table pages.\<close>

definition user_demo :: kmem where
  "user_demo = \<lparr>phys = store64 (store64 (store64 (\<lambda>_. 0)
       0x87FF0000 (PA2PTE 0x87FF1000 OR PTE_V)) 0x87FF1000 (PA2PTE 0x87FF2000 OR PTE_V))
       0x87FF2000 (PA2PTE 0x87FF3000 OR PTE_R OR PTE_W OR PTE_U OR PTE_V),
     kend = 0x87FF0000, freelist = 0\<rparr>"

lemma user_demo_slot:
  assumes "i < 512"
  shows "load64 (phys user_demo) (slot 0x87FF0000 i) = (if i = 0 then PA2PTE 0x87FF1000 OR PTE_V else 0)"
    "load64 (phys user_demo) (slot 0x87FF1000 i) = (if i = 0 then PA2PTE 0x87FF2000 OR PTE_V else 0)"
    "load64 (phys user_demo) (slot 0x87FF2000 i) =
      (if i = 0 then PA2PTE 0x87FF3000 OR PTE_R OR PTE_W OR PTE_U OR PTE_V else 0)"
proof -
  have s0: "slot p 0 = p" for p by (simp add: slot_def)
  note L = load64_slot_store [where i = 0, unfolded s0]
  show "load64 (phys user_demo) (slot 0x87FF0000 i) = (if i = 0 then PA2PTE 0x87FF1000 OR PTE_V else 0)"
    "load64 (phys user_demo) (slot 0x87FF1000 i) = (if i = 0 then PA2PTE 0x87FF2000 OR PTE_V else 0)"
    "load64 (phys user_demo) (slot 0x87FF2000 i) =
      (if i = 0 then PA2PTE 0x87FF3000 OR PTE_R OR PTE_W OR PTE_U OR PTE_V else 0)"
    using assms by (auto simp: user_demo_def L aligned_def)
qed

lemma demo_entries:
  "PTE2PA (PA2PTE 0x87FF1000 OR PTE_V) = 0x87FF1000" "(PA2PTE 0x87FF1000 OR PTE_V) AND PTE_V \<noteq> 0"
  "PTE2PA (PA2PTE 0x87FF2000 OR PTE_V) = 0x87FF2000" "(PA2PTE 0x87FF2000 OR PTE_V) AND PTE_V \<noteq> 0"
  "PTE2PA (PA2PTE 0x87FF3000 OR PTE_R OR PTE_W OR PTE_U OR PTE_V) = 0x87FF3000"
  "(PA2PTE 0x87FF3000 OR PTE_R OR PTE_W OR PTE_U OR PTE_V) AND PTE_V \<noteq> 0"
  "(PA2PTE 0x87FF3000 OR PTE_R OR PTE_W OR PTE_U OR PTE_V) AND PTE_U \<noteq> 0"
  by (simp_all add: PTE2PA_def PA2PTE_def PTE_V_def PTE_R_def PTE_W_def PTE_U_def)

lemma user_demo_child:
  assumes "i < 512"
  shows "child (phys user_demo) 0x87FF0000 i = (if i = 0 then Some 0x87FF1000 else None)"
    "child (phys user_demo) 0x87FF1000 i = (if i = 0 then Some 0x87FF2000 else None)"
  using demo_entries by (simp_all add: child_def user_demo_slot [OF assms])

lemma user_demo_table:
  "ptree (phys user_demo) 2 0x87FF0000"
  "tabs (phys user_demo) 2 0x87FF0000 \<subseteq> {0x87FF0000, 0x87FF1000, 0x87FF2000}"
  "pte_of (phys user_demo) 0x87FF0000 va =
    (if PXn 0 va = 0 \<and> PXn 1 va = 0 \<and> PXn 2 va = 0
     then PA2PTE 0x87FF3000 OR PTE_R OR PTE_W OR PTE_U OR PTE_V else 0)"
proof -
  have g: "good 0x87FF0000" "good 0x87FF1000" "good 0x87FF2000" by (simp_all add: good_def aligned_def)
  have t1: "tabs (phys user_demo) (Suc 0) 0x87FF1000 \<subseteq> {0x87FF1000, 0x87FF2000}"
    using user_demo_child(2) by (auto simp: tabs.simps split: if_splits)
  have p1: "ptree (phys user_demo) (Suc 0) 0x87FF1000"
    using g user_demo_child(2) by (auto simp: ptree.simps(2) split: if_splits)
  have n1: "0x87FF0000 \<notin> tabs (phys user_demo) (Suc 0) 0x87FF1000"
  proof
    assume "0x87FF0000 \<in> tabs (phys user_demo) (Suc 0) 0x87FF1000"
    then have "0x87FF0000 \<in> {0x87FF1000, 0x87FF2000 :: uint64}" using t1 by blast
    then show False by simp
  qed
  show "tabs (phys user_demo) 2 0x87FF0000 \<subseteq> {0x87FF0000, 0x87FF1000, 0x87FF2000}"
    using user_demo_child(1) t1 by (auto simp: numeral_2_eq_2 tabs.simps(2) [of _ "Suc 0"] split: if_splits)
  show "ptree (phys user_demo) 2 0x87FF0000"
    using g user_demo_child(1) n1 p1
    by (auto simp: numeral_2_eq_2 ptree.simps(2) [of _ "Suc 0"] split: if_splits)
  show "pte_of (phys user_demo) 0x87FF0000 va =
    (if PXn 0 va = 0 \<and> PXn 1 va = 0 \<and> PXn 2 va = 0
     then PA2PTE 0x87FF3000 OR PTE_R OR PTE_W OR PTE_U OR PTE_V else 0)"
    by (simp add: pte_of_def numeral_2_eq_2 leaf.simps(2) user_demo_child user_demo_slot)
qed

lemma user_demo_walkaddr:
  "walkaddr 0x87FF0000 va user_demo = Ok (if pg va = 0 then 0x87FF3000 else 0)"
proof -
  have z: "PXn k 0 = 0" for k by (simp add: PXn_def PX_def)
  have "PXn 0 va = 0 \<and> PXn 1 va = 0 \<and> PXn 2 va = 0 \<longleftrightarrow> pg va = 0" if "va < MAXVA"
  proof -
    have "(\<forall>k\<le>2. PXn k va = PXn k 0) \<longleftrightarrow> pg va = pg 0"
      using that by (intro same_entry_iff) (simp_all add: MAXVA_eq)
    then show ?thesis by (auto simp: z pg_def numeral_2_eq_2 le_Suc_eq)
  qed
  moreover have "va < MAXVA" if "pg va = 0"
  proof -
    have "unat va < 4096" using that div_eq_0_iff [of "unat va" 4096] by (simp add: pg_def)
    then show ?thesis by (simp add: word_less_nat_alt unat_MAXVA)
  qed
  ultimately show ?thesis using demo_entries
    by (auto simp: walkaddr_eq [OF user_demo_table(1)] user_demo_table(3) Let_def)
qed

lemma user_demo_ok: "user_ok user_demo 0x87FF0000"
  using user_demo_table(1,2)
  by (auto simp: user_ok_walk upages_walk user_demo_walkaddr split: if_splits)

lemma user_demo_mapped: "None \<notin> set (ubytes user_demo 0x87FF0000 0x10 (length [7, 8 :: byte]))"
proof -
  have "pg 0x10 = 0" "pg 0x11 = 0" by (simp_all add: pg_def)
  then have "\<exists>b. ubyte user_demo 0x87FF0000 (0x10 + of_nat i) = Some b" if "i < Suc (Suc 0)" for i
    using that by (auto simp: ubyte_walk user_demo_walkaddr less_Suc_eq)
  then show ?thesis by (fastforce simp: ubytes_None)
qed

theorem copyout_correct_witness:
  "\<exists>m. copyout 0x87FF0000 0x10 [7, 8] user_demo = Ok (0, user_demo\<lparr>phys := m\<rparr>) \<and>
    outside {0x87FF3000} (phys user_demo) m \<and>
    ubyte (user_demo\<lparr>phys := m\<rparr>) 0x87FF0000 0x11 = Some 8"
proof -
  have "upages user_demo 0x87FF0000 \<subseteq> {0x87FF3000}"
    by (auto simp: upages_walk user_demo_walkaddr split: if_splits)
  moreover have "unat (0x11 - 0x10 :: uint64) = 1" by simp
  moreover have l: "length [7, 8 :: byte] < 2 ^ 64" by simp
  obtain r m where "copyout 0x87FF0000 0x10 [7, 8] user_demo = Ok (r, user_demo\<lparr>phys := m\<rparr>)"
    "outside (upages user_demo 0x87FF0000) (phys user_demo) m" "r = 0"
    "\<forall>v. ubyte (user_demo\<lparr>phys := m\<rparr>) 0x87FF0000 v = (if unat (v - 0x10) < length [7, 8 :: byte]
       then Some ([7, 8] ! unat (v - 0x10)) else ubyte user_demo 0x87FF0000 v)"
    using copyout_correct [OF user_demo_ok l, of "0x10", unfolded if_not_P [OF user_demo_mapped]]
    by blast
  ultimately show ?thesis by (intro exI [of _ m]) (auto intro: outside_mono)
qed

theorem copyout_copyin_witness:
  "\<exists>s'. copyout 0x87FF0000 0x10 [7, 8] user_demo = Ok (0, s') \<and>
    copyin 0x87FF0000 0x10 2 s' = Ok (0, [7, 8])"
proof -
  have l: "length [7, 8 :: byte] < 2 ^ 64" by simp
  obtain s' where s': "copyout 0x87FF0000 0x10 [7, 8] user_demo = Ok (0, s')"
    using copyout_eq [OF user_demo_ok l, of "0x10"] user_demo_mapped by (auto split: if_splits)
  have "copyin 0x87FF0000 0x10 (length [7, 8 :: byte]) s' = Ok (0, [7, 8])"
    by (rule copyout_copyin [OF user_demo_ok _ s']) simp
  then show ?thesis using s' by (auto simp: numeral_2_eq_2)
qed

end
