(* ===== verification/Spinlock.thy ===== *)
theory Spinlock
  imports Xv6_Prelude
begin

text \<open>
  Spin locks and interrupt nesting, \<^verbatim>\<open>kernel/spinlock.c\<close>.  The functions are modelled as they
  run on one CPU; the inductive relation \<open>spin_step\<close> interleaves them between CPUs at the
  granularity of their memory accesses, and the invariant over its runs gives mutual
  exclusion.  The critical sections of the other components are atomic steps of their models
  because of this theorem.
\<close>

section \<open>State\<close>

text \<open>\<open>struct spinlock\<close>: \<open>lcpu\<close> is the \<open>cpu\<close> field, a CPU number or null.\<close>

record spinlock =
  locked :: uint
  lname :: string
  lcpu :: "nat option"

text \<open>The fields of \<open>struct cpu\<close> that locking uses; \<open>sie\<close> is the CPU's \<open>SSTATUS_SIE\<close> bit.\<close>

record cpu =
  noff :: int
  intena :: bool
  sie :: bool

definition intr_get :: "cpu \<Rightarrow> bool" where "intr_get c = sie c"
definition intr_on :: "cpu \<Rightarrow> cpu" where "intr_on c = c\<lparr>sie := True\<rparr>"
definition intr_off :: "cpu \<Rightarrow> cpu" where "intr_off c = c\<lparr>sie := False\<rparr>"

section \<open>Operations\<close>

definition initlock :: "string \<Rightarrow> spinlock" where
  "initlock name = \<lparr>locked = 0, lname = name, lcpu = None\<rparr>"

definition push_off :: "cpu \<Rightarrow> cpu" where
  "push_off c =
     (let old = intr_get c;
          c = intr_off c;
          c = (if noff c = 0 then c\<lparr>intena := old\<rparr> else c)
      in c\<lparr>noff := noff c + 1\<rparr>)"

definition pop_off :: "cpu \<Rightarrow> cpu res" where
  "pop_off c =
     (if intr_get c then Panic ''pop_off - interruptible''
      else if noff c < 1 then Panic ''pop_off''
      else let c = c\<lparr>noff := noff c - 1\<rparr>
           in Ok (if noff c = 0 \<and> intena c then intr_on c else c))"

definition holding :: "spinlock \<Rightarrow> nat \<Rightarrow> bool" where
  "holding lk cid \<longleftrightarrow> locked lk \<noteq> 0 \<and> lcpu lk = Some cid"

text \<open>\<open>__sync_lock_test_and_set\<close>: the old value and the lock with \<open>locked\<close> set.\<close>

definition test_and_set :: "spinlock \<Rightarrow> uint \<times> spinlock" where
  "test_and_set lk = (locked lk, lk\<lparr>locked := 1\<rparr>)"

text \<open>\<open>acquire\<close> on CPU \<open>cid\<close> when no other CPU moves: a lock that is taken is spun on forever.\<close>

definition acquire :: "nat \<Rightarrow> spinlock \<Rightarrow> cpu \<Rightarrow> (spinlock \<times> cpu) res" where
  "acquire cid lk c =
     (let c = push_off c
      in if holding lk cid then Panic ''acquire''
         else case test_and_set lk of (old, lk) \<Rightarrow>
           if old \<noteq> 0 then Blocked
           else Ok (lk\<lparr>lcpu := Some cid\<rparr>, c))"

definition release :: "nat \<Rightarrow> spinlock \<Rightarrow> cpu \<Rightarrow> (spinlock \<times> cpu) res" where
  "release cid lk c =
     (if \<not> holding lk cid then Panic ''release''
      else let lk = lk\<lparr>lcpu := None\<rparr>;
               lk = lk\<lparr>locked := 0\<rparr>
           in bindR (pop_off c) (\<lambda>c. Ok (lk, c)))"

section \<open>Interrupt nesting\<close>

text \<open>A sequence of \<open>push_off\<close> (\<open>True\<close>) and \<open>pop_off\<close> (\<open>False\<close>) calls.\<close>

fun nest :: "bool list \<Rightarrow> cpu \<Rightarrow> cpu res" where
  "nest [] c = Ok c"
| "nest (True # bs) c = nest bs (push_off c)"
| "nest (False # bs) c = bindR (pop_off c) (nest bs)"

definition depth :: "bool list \<Rightarrow> int" where
  "depth bs = int (length (filter id bs)) - int (length (filter Not bs))"

definition nested :: "bool \<Rightarrow> int \<Rightarrow> cpu \<Rightarrow> bool" where
  "nested b n c \<longleftrightarrow> 0 \<le> n \<and> noff c = n \<and> sie c = (n = 0 \<and> b) \<and> (n \<noteq> 0 \<longrightarrow> intena c = b)"

lemma nested_push: "nested b n c \<Longrightarrow> nested b (n + 1) (push_off c)"
  by (auto simp: nested_def push_off_def intr_get_def intr_off_def Let_def)

lemma nested_pop:
  "nested b n c \<Longrightarrow> if n = 0 then \<exists>m. pop_off c = Panic m else \<exists>c'. pop_off c = Ok c' \<and> nested b (n - 1) c'"
  by (auto simp: nested_def pop_off_def intr_get_def intr_on_def Let_def)

lemma nest_nested:
  "nested b n c \<Longrightarrow> nest bs c = Ok c' \<Longrightarrow> nested b (n + depth bs) c'"
proof (induction bs c arbitrary: n rule: nest.induct)
  case (1 c)
  then show ?case by (simp add: depth_def)
next
  case (2 bs c)
  then have "nested b (n + 1 + depth bs) c'" using nested_push by simp
  then show ?case by (simp add: depth_def algebra_simps)
next
  case (3 bs c)
  then obtain c1 where c1: "pop_off c = Ok c1" "nest bs c1 = Ok c'" by (auto simp: bindR_eq_Ok)
  then have "nested b (n - 1) c1" using nested_pop [OF 3(2)] by (auto split: if_splits)
  then have "nested b (n - 1 + depth bs) c'" using 3 c1 by blast
  then show ?case by (simp add: depth_def algebra_simps)
qed

text \<open>C18. However \<open>push_off\<close> and \<open>pop_off\<close> are nested, interrupts are enabled again exactly when
  every \<open>push_off\<close> has been undone, and only if they were enabled at the start.\<close>

theorem push_off_nesting:
  assumes "noff c = 0" and "nest bs c = Ok c'"
  shows "0 \<le> depth bs \<and> noff c' = depth bs \<and> (sie c' \<longleftrightarrow> depth bs = 0 \<and> sie c)"
proof -
  have "nested (sie c) 0 c" using assms(1) by (simp add: nested_def)
  from nest_nested [OF this assms(2)] show ?thesis by (auto simp: nested_def)
qed

theorem push_off_nesting_witness:
  "\<exists>c'. nest [True, True, False] \<lparr>noff = 0, intena = False, sie = True\<rparr> = Ok c' \<and>
     noff c' = 1 \<and> \<not> sie c'"
proof -
  let ?c = "\<lparr>noff = 0, intena = False, sie = True\<rparr>"
  obtain c' where c': "nest [True, True, False] ?c = Ok c'"
    by (simp add: push_off_def pop_off_def intr_get_def intr_off_def intr_on_def Let_def)
  from push_off_nesting [OF _ c'] c' show ?thesis by (auto simp: depth_def)
qed

section \<open>Interleaving on several CPUs\<close>

text \<open>
  Where a CPU is in \<open>acquire\<close> or \<open>release\<close>: \<open>Trying l\<close> at the test-and-set loop, \<open>Got l\<close> before
  \<open>lk->cpu = mycpu()\<close>, \<open>Dropping l\<close> between \<open>lk->cpu = 0\<close> and the atomic release.
\<close>

datatype spin_pc = Elsewhere | Trying nat | Got nat | Dropping nat

record machine =
  harts :: "nat \<Rightarrow> cpu"
  lks :: "nat \<Rightarrow> spinlock"
  pcs :: "nat \<Rightarrow> spin_pc"

inductive spin_step :: "machine \<Rightarrow> machine \<Rightarrow> bool" where
  enter: "pcs s c = Elsewhere \<Longrightarrow> \<not> holding (lks s l) c \<Longrightarrow>
    spin_step s (s\<lparr>harts := (harts s)(c := push_off (harts s c)), pcs := (pcs s)(c := Trying l)\<rparr>)"
| spin: "pcs s c = Trying l \<Longrightarrow> test_and_set (lks s l) = (old, lk) \<Longrightarrow> old \<noteq> 0 \<Longrightarrow>
    spin_step s (s\<lparr>lks := (lks s)(l := lk)\<rparr>)"
| swap: "pcs s c = Trying l \<Longrightarrow> test_and_set (lks s l) = (0, lk) \<Longrightarrow>
    spin_step s (s\<lparr>lks := (lks s)(l := lk), pcs := (pcs s)(c := Got l)\<rparr>)"
| own: "pcs s c = Got l \<Longrightarrow>
    spin_step s (s\<lparr>lks := (lks s)(l := (lks s l)\<lparr>lcpu := Some c\<rparr>), pcs := (pcs s)(c := Elsewhere)\<rparr>)"
| disown: "pcs s c = Elsewhere \<Longrightarrow> holding (lks s l) c \<Longrightarrow>
    spin_step s (s\<lparr>lks := (lks s)(l := (lks s l)\<lparr>lcpu := None\<rparr>), pcs := (pcs s)(c := Dropping l)\<rparr>)"
| unlock: "pcs s c = Dropping l \<Longrightarrow> pop_off (harts s c) = Ok h \<Longrightarrow>
    spin_step s (s\<lparr>lks := (lks s)(l := (lks s l)\<lparr>locked := 0\<rparr>),
      harts := (harts s)(c := h), pcs := (pcs s)(c := Elsewhere)\<rparr>)"

inductive spin_reach :: "machine \<Rightarrow> bool" where
  boot: "(\<And>c. noff (harts s c) = 0) \<Longrightarrow> (\<And>c. pcs s c = Elsewhere) \<Longrightarrow>
    (\<And>l. \<exists>n. lks s l = initlock n) \<Longrightarrow> spin_reach s"
| step: "spin_reach s \<Longrightarrow> spin_step s s' \<Longrightarrow> spin_reach s'"

inductive_cases spin_stepE: "spin_step s s'"

text \<open>A CPU is inside the lock from its successful swap to its atomic release.\<close>

definition inside :: "machine \<Rightarrow> nat \<Rightarrow> nat \<Rightarrow> bool" where
  "inside s c l \<longleftrightarrow> pcs s c = Got l \<or> pcs s c = Dropping l \<or> holding (lks s l) c"

definition spin_inv :: "machine \<Rightarrow> bool" where
  "spin_inv s \<longleftrightarrow>
     (\<forall>l c c'. inside s c l \<longrightarrow> inside s c' l \<longrightarrow> c = c') \<and>
     (\<forall>l c. inside s c l \<longrightarrow> locked (lks s l) \<noteq> 0) \<and>
     (\<forall>l c. pcs s c = Got l \<or> pcs s c = Dropping l \<longrightarrow> lcpu (lks s l) = None) \<and>
     (\<forall>l. locked (lks s l) = 0 \<longrightarrow> lcpu (lks s l) = None)"

lemma spin_invI:
  assumes "\<And>l c c'. inside s c l \<Longrightarrow> inside s c' l \<Longrightarrow> c = c'"
    and "\<And>l c. inside s c l \<Longrightarrow> locked (lks s l) \<noteq> 0"
    and "\<And>l c. pcs s c = Got l \<or> pcs s c = Dropping l \<Longrightarrow> lcpu (lks s l) = None"
    and "\<And>l. locked (lks s l) = 0 \<Longrightarrow> lcpu (lks s l) = None"
  shows "spin_inv s"
  using assms unfolding spin_inv_def by blast

lemma spin_invD:
  assumes "spin_inv s"
  shows "inside s c l \<Longrightarrow> inside s c' l \<Longrightarrow> c = c'"
    and "inside s c l \<Longrightarrow> locked (lks s l) \<noteq> 0"
    and "pcs s c = Got l \<or> pcs s c = Dropping l \<Longrightarrow> lcpu (lks s l) = None"
    and "locked (lks s l) = 0 \<Longrightarrow> lcpu (lks s l) = None"
  using assms unfolding spin_inv_def by blast+

text \<open>How each step changes who is inside.\<close>

lemma inside_step:
  assumes "spin_step s s'" "spin_inv s"
  shows "(inside s' = inside s \<and> (\<forall>l. locked (lks s l) \<noteq> 0 \<longrightarrow> locked (lks s' l) \<noteq> 0)) \<or>
    (\<exists>c l. (\<forall>c' l'. inside s' c' l' \<longleftrightarrow> inside s c' l' \<or> c' = c \<and> l' = l) \<and>
       locked (lks s l) = 0 \<and> (\<forall>l'. locked (lks s' l') = 0 \<longleftrightarrow> l' \<noteq> l \<and> locked (lks s l') = 0)) \<or>
    (\<exists>c l. (\<forall>c' l'. inside s' c' l' \<longleftrightarrow> inside s c' l' \<and> \<not> (c' = c \<and> l' = l)) \<and>
       inside s c l \<and> (\<forall>l'. locked (lks s' l') = 0 \<longleftrightarrow> l' = l \<or> locked (lks s l') = 0))"
  using assms(1)
proof (cases rule: spin_step.cases)
  case (swap c l lk)
  have "locked (lks s l) = 0" using swap by (simp add: test_and_set_def)
  moreover from this have "lcpu (lks s l) = None" using spin_invD(4) [OF assms(2)] by blast
  ultimately have "\<forall>c' l'. inside s' c' l' \<longleftrightarrow> inside s c' l' \<or> c' = c \<and> l' = l"
    "\<forall>l'. locked (lks s' l') = 0 \<longleftrightarrow> l' \<noteq> l \<and> locked (lks s l') = 0"
    using swap by (auto simp: inside_def holding_def test_and_set_def)
  then show ?thesis using \<open>locked (lks s l) = 0\<close> by blast
next
  case (own c l)
  have "lcpu (lks s l) = None" using spin_invD(3) [OF assms(2)] own by blast
  moreover have "locked (lks s l) \<noteq> 0" using spin_invD(2) [OF assms(2)] own by (auto simp: inside_def)
  ultimately have "inside s' = inside s" using own by (auto simp: inside_def holding_def fun_eq_iff)
  then show ?thesis using own by simp
next
  case (unlock c l h)
  have "lcpu (lks s l) = None" using spin_invD(3) [OF assms(2)] unlock by blast
  moreover have ins: "inside s c l" using unlock by (simp add: inside_def)
  moreover have "c' = c" if "inside s c' l" for c' using spin_invD(1) [OF assms(2)] ins that by blast
  ultimately have "\<forall>c' l'. inside s' c' l' \<longleftrightarrow> inside s c' l' \<and> \<not> (c' = c \<and> l' = l)"
    "\<forall>l'. locked (lks s' l') = 0 \<longleftrightarrow> l' = l \<or> locked (lks s l') = 0"
    using unlock by (auto simp: inside_def holding_def)
  then show ?thesis using ins by blast
qed (auto simp: inside_def holding_def test_and_set_def fun_eq_iff)

lemma spin_inv_step:
  assumes st: "spin_step s s'" and inv: "spin_inv s"
  shows "spin_inv s'"
proof (rule spin_invI)
  note D = spin_invD [OF inv] and S = inside_step [OF st inv]
  show "c = c'" if "inside s' c l" "inside s' c' l" for l c c'
    using S that D(1) [of c l c'] D(2) [of c l] D(2) [of c' l] by (elim disjE exE conjE) auto
  show "locked (lks s' l) \<noteq> 0" if "inside s' c l" for l c
    using S that D(2) [of c l] D(1) by (elim disjE exE conjE) auto
  show "lcpu (lks s' l) = None" if "pcs s' c = Got l \<or> pcs s' c = Dropping l" for l c
    using st
  proof (cases rule: spin_step.cases)
    case (own c1 l1)
    then have "inside s c1 l1" by (simp add: inside_def)
    moreover have "l1 \<noteq> l"
      using own that D(1) [of c1 l1 c] by (auto simp: inside_def split: if_splits)
    ultimately show ?thesis using own that D(3) by (auto split: if_splits)
  qed (use that D(3,4) in \<open>auto simp: test_and_set_def split: if_splits\<close>)
  show "lcpu (lks s' l) = None" if "locked (lks s' l) = 0" for l
    using st
  proof (cases rule: spin_step.cases)
    case (own c1 l1)
    then have "locked (lks s l1) \<noteq> 0" using D(2) [of c1 l1] by (simp add: inside_def)
    then show ?thesis using own that D(4) by (auto split: if_splits)
  qed (use that D(3,4) in \<open>auto simp: test_and_set_def split: if_splits\<close>)
qed

lemma spin_reach_inv: "spin_reach s \<Longrightarrow> spin_inv s"
proof (induction rule: spin_reach.induct)
  case (boot s)
  have "locked (lks s l) = 0 \<and> lcpu (lks s l) = None" for l
    using boot(3) [of l] by (auto simp: initlock_def)
  then show ?case using boot(2) by (auto intro!: spin_invI simp: inside_def holding_def)
next
  case (step s s')
  then show ?case using spin_inv_step by blast
qed

text \<open>While a CPU is anywhere in a lock, its interrupts are off and \<open>noff\<close> counts its locks.\<close>

definition spin_count :: "machine \<Rightarrow> nat \<Rightarrow> nat set" where
  "spin_count s c = {l. inside s c l \<or> pcs s c = Trying l}"

definition hart_ok :: "cpu \<Rightarrow> nat set \<Rightarrow> bool" where
  "hart_ok h L \<longleftrightarrow> finite L \<and> noff h = int (card L) \<and> (L \<noteq> {} \<longrightarrow> \<not> sie h)"

definition irq_inv :: "machine \<Rightarrow> bool" where
  "irq_inv s \<longleftrightarrow> (\<forall>c. hart_ok (harts s c) (spin_count s c))"

lemma hart_ok_push: "hart_ok h L \<Longrightarrow> l \<notin> L \<Longrightarrow> hart_ok (push_off h) (insert l L)"
  by (simp add: hart_ok_def push_off_def intr_off_def Let_def)

lemma hart_ok_pop:
  assumes "hart_ok h L" "l \<in> L" "pop_off h = Ok h'"
  shows "hart_ok h' (L - {l})"
proof -
  have h: "finite L" "noff h = int (card L)" "\<not> sie h" using assms(1,2) by (auto simp: hart_ok_def)
  then have c: "int (card (L - {l})) = noff h - 1"
    using assms(2) card_gt_0_iff [of L] by (auto simp: card_Diff_singleton of_nat_diff)
  then have "noff h - 1 = 0 \<longleftrightarrow> L - {l} = {}" using h(1) card_0_eq [of "L - {l}"] by fastforce
  then show ?thesis using assms(3) h c
    by (auto simp: hart_ok_def pop_off_def intr_get_def intr_on_def Let_def split: if_splits)
qed

lemma irq_inv_step:
  assumes st: "spin_step s s'" and inv: "spin_inv s" and irq: "irq_inv s"
  shows "irq_inv s'"
proof -
  note D = spin_invD [OF inv]
  have ok: "hart_ok (harts s c) (spin_count s c)" for c using irq by (simp add: irq_inv_def)
  have same: "irq_inv s'" if "harts s' = harts s" "spin_count s' = spin_count s"
    using irq that by (simp add: irq_inv_def)
  show ?thesis
    using st
  proof (cases rule: spin_step.cases)
    case (enter c l)
    then have nl: "l \<notin> spin_count s c" by (simp add: spin_count_def inside_def)
    have "spin_count s' c' = (if c' = c then insert l (spin_count s c) else spin_count s c')" for c'
      using enter by (auto simp: spin_count_def inside_def)
    then show ?thesis using enter ok hart_ok_push [OF ok nl] by (simp add: irq_inv_def)
  next
    case (spin c l old lk)
    have "spin_count s' = spin_count s"
      using spin by (auto simp: spin_count_def inside_def holding_def test_and_set_def fun_eq_iff)
    then show ?thesis using spin by (intro same) auto
  next
    case (swap c l lk)
    then have "lcpu (lks s l) = None" using D(4) [of l] by (simp add: test_and_set_def)
    then have "spin_count s' = spin_count s"
      using swap by (auto simp: spin_count_def inside_def holding_def test_and_set_def fun_eq_iff)
    then show ?thesis using swap by (intro same) auto
  next
    case (own c l)
    have "lcpu (lks s l) = None" "locked (lks s l) \<noteq> 0"
      using D(3) [of c l] D(2) [of c l] own by (auto simp: inside_def)
    then have "spin_count s' = spin_count s"
      using own by (auto simp: spin_count_def inside_def holding_def fun_eq_iff)
    then show ?thesis using own by (intro same) auto
  next
    case (disown c l)
    then have "spin_count s' = spin_count s"
      by (auto simp: spin_count_def inside_def holding_def fun_eq_iff)
    then show ?thesis using disown by (intro same) auto
  next
    case (unlock c l h)
    have lc: "lcpu (lks s l) = None" and ins: "inside s c l"
      using D(3) [of c l] unlock by (auto simp: inside_def)
    have un: "spin_count s' c' = (if c' = c then spin_count s c - {l} else spin_count s c')" for c'
    proof (cases "c' = c")
      case True
      then show ?thesis using unlock lc by (auto simp: spin_count_def inside_def holding_def)
    next
      case False
      then have "\<not> inside s c' l" using D(1) [OF ins] by blast
      then show ?thesis using unlock False by (auto simp: spin_count_def inside_def holding_def)
    qed
    have "l \<in> spin_count s c" using ins by (simp add: spin_count_def)
    from hart_ok_pop [OF ok this unlock(3)] show ?thesis using unlock ok un by (simp add: irq_inv_def)
  qed
qed

lemma spin_reach_irq: "spin_reach s \<Longrightarrow> irq_inv s"
proof (induction rule: spin_reach.induct)
  case (boot s)
  have "spin_count s c = {}" for c
  proof -
    have "locked (lks s l) = 0" for l using boot(3) [of l] by (auto simp: initlock_def)
    then show ?thesis using boot(2) by (simp add: spin_count_def inside_def holding_def)
  qed
  then show ?case using boot(1) by (simp add: irq_inv_def hart_ok_def)
next
  case (step s s')
  then show ?case using irq_inv_step spin_reach_inv by blast
qed

text \<open>C4. In every interleaving on any number of CPUs, at most one CPU is inside a lock, and it
  runs with interrupts off; its \<open>release\<close> never panics.\<close>

theorem spinlock_mutual_exclusion:
  assumes "spin_reach s" and "inside s c l"
  shows "(\<forall>c'. inside s c' l \<longrightarrow> c' = c) \<and> \<not> sie (harts s c) \<and>
    (holding (lks s l) c \<longrightarrow> (\<exists>r. release c (lks s l) (harts s c) = Ok r))"
proof -
  have inv: "spin_inv s" "irq_inv s" using assms(1) by (auto intro: spin_reach_inv spin_reach_irq)
  have l: "l \<in> spin_count s c" using assms(2) by (simp add: spin_count_def)
  then have "\<not> sie (harts s c)" "noff (harts s c) = int (card (spin_count s c))"
    "card (spin_count s c) \<noteq> 0" using inv(2) by (auto simp: irq_inv_def hart_ok_def)
  then show ?thesis using spin_invD(1) [OF inv(1)] assms(2)
    by (auto simp: release_def pop_off_def intr_get_def Let_def)
qed

definition spin_demo :: machine where
  "spin_demo = \<lparr>harts = (\<lambda>_. \<lparr>noff = 0, intena = False, sie = True\<rparr>),
     lks = (\<lambda>_. initlock ''lk''), pcs = (\<lambda>_. Elsewhere)\<rparr>"

text \<open>CPU 1 takes lock 0 of a freshly booted machine.\<close>

theorem spinlock_mutual_exclusion_witness:
  "\<exists>s. spin_reach s \<and> inside s 1 0 \<and> \<not> inside s 2 0 \<and> \<not> sie (harts s 1)"
proof -
  let ?s1 = "spin_demo\<lparr>harts := (harts spin_demo)(1 := push_off (harts spin_demo 1)),
    pcs := (pcs spin_demo)(1 := Trying 0)\<rparr>"
  have "spin_reach spin_demo" by (rule spin_reach.boot) (auto simp: spin_demo_def)
  moreover have "spin_step spin_demo ?s1"
    by (rule spin_step.enter) (auto simp: spin_demo_def holding_def initlock_def)
  moreover have "spin_step ?s1 (?s1\<lparr>lks := (lks ?s1)(0 := (lks ?s1 0)\<lparr>locked := 1\<rparr>),
      pcs := (pcs ?s1)(1 := Got 0)\<rparr>)" (is "spin_step _ ?s2")
    by (rule spin_step.swap) (auto simp: spin_demo_def test_and_set_def initlock_def)
  ultimately have r: "spin_reach ?s2" by (blast intro: spin_reach.step)
  have i: "inside ?s2 1 0" by (simp add: inside_def)
  from spinlock_mutual_exclusion [OF r i] r i show ?thesis by (metis numeral_eq_one_iff num.distinct(1))
qed

end
