(* ===== verification/Procs.thy ===== *)
theory Procs
  imports Vm_Copy Spinlock
begin

text \<open>
  The process table, \<^verbatim>\<open>kernel/proc.c\<close> and \<^verbatim>\<open>kernel/proc.h\<close>: allocation and release of
  processes and their page tables, \<open>wait\<close>, \<open>kill\<close>, \<open>sleep\<close> and \<open>wakeup\<close>.  The operations that
  also need the file system (\<open>fork\<close>, \<open>exit\<close>, \<open>userinit\<close>) are in \<open>Process\<close>, the interleaving of
  processes and CPUs is in \<open>Sched\<close>.

  A pointer to a process is its index in the table.  The state extends the allocator's, since
  a process owns a trapframe page and a page table.
\<close>

section \<open>State\<close>

text \<open>\<open>struct context\<close>; \<open>sregs\<close> lists \<open>s0\<close> to \<open>s11\<close>.\<close>

record ctx =
  ra :: uint64
  sp :: uint64
  sregs :: "uint64 list"

datatype procstate = UNUSED | USED | SLEEPING | RUNNABLE | RUNNING | ZOMBIE

text \<open>The addresses the kernel sleeps on (\<open>void *chan\<close>), by the object they belong to.\<close>

datatype wchan =
    Chan_proc nat             \<comment> \<open>\<open>wait\<close>: the parent\<close>
  | Chan_ticks                \<comment> \<open>\<open>sys_sleep\<close>: \<open>&ticks\<close>\<close>
  | Chan_log                  \<comment> \<open>\<open>begin_op\<close>: \<open>&log\<close>\<close>
  | Chan_buf_lock nat         \<comment> \<open>the sleep lock of a buffer\<close>
  | Chan_inode_lock nat       \<comment> \<open>the sleep lock of an inode\<close>
  | Chan_buf nat              \<comment> \<open>\<open>virtio_disk_rw\<close>: the buffer being transferred\<close>
  | Chan_disk_free            \<comment> \<open>\<open>virtio_disk_rw\<close>: \<open>&disk.free[0]\<close>\<close>
  | Chan_pipe_read nat        \<comment> \<open>\<open>&pi->nread\<close>\<close>
  | Chan_pipe_write nat       \<comment> \<open>\<open>&pi->nwrite\<close>\<close>
  | Chan_cons                 \<comment> \<open>\<open>&cons.r\<close>\<close>
  | Chan_uart                 \<comment> \<open>\<open>&uart_tx_r\<close>\<close>

record proc =
  pstate :: procstate
  chan :: "wchan option"
  killed :: int
  xstate :: int
  pid :: int
  parent :: "nat option"
  kstack :: uint64
  sz :: uint64
  pagetable :: uint64
  trapframe :: uint64
  pcontext :: ctx
  ofile :: "nat option list"
  cwd :: "nat option"
  pname :: "byte list"

text \<open>
  The globals of \<open>proc.c\<close>; \<open>cpu_proc\<close> is \<open>mycpu()->proc\<close> of the CPU that runs the operation
  and \<open>tramp\<close> the linker symbol \<open>trampoline\<close>.
\<close>

record procs = kmem +
  proc :: "proc list"
  nextpid :: int
  initproc :: "nat option"
  cpu_proc :: "nat option"
  tramp :: uint64

abbreviation upd_proc :: "nat \<Rightarrow> (proc \<Rightarrow> proc) \<Rightarrow> 'z procs_scheme \<Rightarrow> 'z procs_scheme" where
  "upd_proc i f s \<equiv> s\<lparr>proc := (proc s)[i := f (proc s ! i)]\<rparr>"

text \<open>
  \<open>myproc\<close>.  Code that dereferences the result runs in a process; with no process, or one
  outside the table, the access faults and \<open>kerneltrap\<close> panics.
\<close>

definition myproc :: "'z procs_scheme \<Rightarrow> nat res" where
  "myproc s = (case cpu_proc s of
      None \<Rightarrow> Panic ''kerneltrap''
    | Some p \<Rightarrow> if p < length (proc s) then Ok p else Panic ''kerneltrap'')"

section \<open>Creating and freeing processes\<close>

definition procinit :: "'z procs_scheme \<Rightarrow> 'z procs_scheme" where
  "procinit s =
     s\<lparr>proc := map (\<lambda>i. (proc s ! i)\<lparr>kstack := KSTACK i\<rparr>) [0..<NPROC]\<rparr>"

definition allocpid :: "'z procs_scheme \<Rightarrow> int \<times> 'z procs_scheme" where
  "allocpid s = (let p = nextpid s in (p, s\<lparr>nextpid := nextpid s + 1\<rparr>))"

definition proc_pagetable :: "nat \<Rightarrow> 'z procs_scheme \<Rightarrow> (uint64 \<times> 'z procs_scheme) res" where
  "proc_pagetable p s =
     (case uvmcreate s of (pt, s) \<Rightarrow>
        if pt = 0 then Ok (0, s)
        else bindR (mappages pt TRAMPOLINE PGSIZE (tramp s) (PTE_R OR PTE_X) s) (\<lambda>(r, s).
          if r < 0 then bindR (uvmfree pt 0 s) (\<lambda>s. Ok (0, s))
          else bindR (mappages pt TRAPFRAME PGSIZE (trapframe (proc s ! p)) (PTE_R OR PTE_W) s)
            (\<lambda>(r, s).
              if r < 0
              then bindR (uvmunmap pt TRAMPOLINE 1 False s) (\<lambda>s.
                   bindR (uvmfree pt 0 s) (\<lambda>s. Ok (0, s)))
              else Ok (pt, s))))"

definition proc_freepagetable :: "uint64 \<Rightarrow> uint64 \<Rightarrow> 'z procs_scheme \<Rightarrow> 'z procs_scheme res" where
  "proc_freepagetable pt n s =
     bindR (uvmunmap pt TRAMPOLINE 1 False s) (\<lambda>s.
     bindR (uvmunmap pt TRAPFRAME 1 False s) (\<lambda>s.
     uvmfree pt n s))"

definition freeproc :: "nat \<Rightarrow> 'z procs_scheme \<Rightarrow> 'z procs_scheme res" where
  "freeproc p s =
     bindR (if trapframe (proc s ! p) \<noteq> 0 then kfree (trapframe (proc s ! p)) s else Ok s) (\<lambda>s.
     let s = upd_proc p (trapframe_update (\<lambda>_. 0)) s
     in bindR (if pagetable (proc s ! p) \<noteq> 0
               then proc_freepagetable (pagetable (proc s ! p)) (sz (proc s ! p)) s else Ok s) (\<lambda>s.
        Ok (upd_proc p (\<lambda>q. q\<lparr>pagetable := 0, sz := 0, pid := 0, parent := None,
              pname := (pname q)[0 := 0], chan := None, killed := 0, xstate := 0,
              pstate := UNUSED\<rparr>) s)))"

text \<open>The search loop of \<open>allocproc\<close>.\<close>

fun find_unused :: "nat \<Rightarrow> proc list \<Rightarrow> nat option" where
  "find_unused i [] = None"
| "find_unused i (p # ps) = (if pstate p = UNUSED then Some i else find_unused (Suc i) ps)"

text \<open>\<open>forkret\<close> is the address of the function.\<close>

definition allocproc :: "uint64 \<Rightarrow> 'z procs_scheme \<Rightarrow> (nat option \<times> 'z procs_scheme) res" where
  "allocproc forkret s =
     (case find_unused 0 (proc s) of None \<Rightarrow> Ok (None, s)
      | Some p \<Rightarrow>
        (case allocpid s of (pd, s) \<Rightarrow>
         let s = upd_proc p (\<lambda>q. q\<lparr>pid := pd, pstate := USED\<rparr>) s
         in case kalloc s of (tf, s) \<Rightarrow>
            let s = upd_proc p (trapframe_update (\<lambda>_. tf)) s
            in if tf = 0 then bindR (freeproc p s) (\<lambda>s. Ok (None, s))
               else bindR (proc_pagetable p s) (\<lambda>(pt, s).
                 let s = upd_proc p (pagetable_update (\<lambda>_. pt)) s
                 in if pt = 0 then bindR (freeproc p s) (\<lambda>s. Ok (None, s))
                    else Ok (Some p, upd_proc p (\<lambda>q. q\<lparr>pcontext :=
                      \<lparr>ra = forkret, sp = kstack q + PGSIZE, sregs = replicate 12 0\<rparr>\<rparr>) s))))"

text \<open>
  \<open>growproc\<close> keeps the size in a \<open>uint\<close>: \<open>sz + n\<close> is 32-bit arithmetic and the results of
  \<open>uvmalloc\<close> and \<open>uvmdealloc\<close> are truncated.
\<close>

definition growproc :: "int \<Rightarrow> 'z procs_scheme \<Rightarrow> (int \<times> 'z procs_scheme) res" where
  "growproc n s =
     bindR (myproc s) (\<lambda>p.
     let sz0 = (ucast (sz (proc s ! p)) :: uint);
         pt = pagetable (proc s ! p)
     in if n > 0
        then bindR (uvmalloc pt (ucast sz0) (ucast (sz0 + word_of_int n)) s) (\<lambda>(r, s).
          let sz1 = (ucast r :: uint)
          in if sz1 = 0 then Ok (-1, s) else Ok (0, upd_proc p (sz_update (\<lambda>_. ucast sz1)) s))
        else if n < 0
        then bindR (uvmdealloc pt (ucast sz0) (ucast (sz0 + word_of_int n)) s) (\<lambda>(r, s).
          Ok (0, upd_proc p (sz_update (\<lambda>_. ucast (ucast r :: uint))) s))
        else Ok (0, upd_proc p (sz_update (\<lambda>_. ucast sz0)) s))"

section \<open>Sleeping and waking\<close>

definition wakeup :: "wchan \<Rightarrow> 'z procs_scheme \<Rightarrow> 'z procs_scheme" where
  "wakeup ch s =
     s\<lparr>proc := map (\<lambda>i. let p = proc s ! i in
         if Some i \<noteq> cpu_proc s \<and> pstate p = SLEEPING \<and> chan p = Some ch
         then p\<lparr>pstate := RUNNABLE\<rparr> else p) [0..<length (proc s)]\<rparr>"

text \<open>
  The part of \<open>sleep\<close> before the switch to the scheduler, and the part after it.  \<open>sleep\<close>
  itself returns only when another process has called \<open>wakeup\<close>: an operation run on its own
  that would sleep is \<open>Blocked\<close>.
\<close>

definition sleep_enter :: "wchan \<Rightarrow> nat \<Rightarrow> 'z procs_scheme \<Rightarrow> 'z procs_scheme" where
  "sleep_enter ch p s = upd_proc p (\<lambda>q. q\<lparr>chan := Some ch, pstate := SLEEPING\<rparr>) s"

definition sleep_leave :: "nat \<Rightarrow> 'z procs_scheme \<Rightarrow> 'z procs_scheme" where
  "sleep_leave p s = upd_proc p (\<lambda>q. q\<lparr>chan := None\<rparr>) s"

text \<open>The checks of \<open>sched\<close> before it switches, on the process lock and this CPU.\<close>

definition sched_check :: "nat \<Rightarrow> spinlock \<Rightarrow> cpu \<Rightarrow> proc \<Rightarrow> unit res" where
  "sched_check cid lk c p =
     (if \<not> holding lk cid then Panic ''sched p->lock''
      else if noff c \<noteq> 1 then Panic ''sched locks''
      else if pstate p = RUNNING then Panic ''sched running''
      else if intr_get c then Panic ''sched interruptible''
      else Ok ())"

definition yield_enter :: "nat \<Rightarrow> 'z procs_scheme \<Rightarrow> 'z procs_scheme" where
  "yield_enter p s = upd_proc p (\<lambda>q. q\<lparr>pstate := RUNNABLE\<rparr>) s"

fun kill_loop :: "int \<Rightarrow> proc list \<Rightarrow> int \<times> proc list" where
  "kill_loop pd [] = (-1, [])"
| "kill_loop pd (p # ps) =
     (if pid p = pd
      then (0, (if pstate p = SLEEPING then p\<lparr>killed := 1, pstate := RUNNABLE\<rparr>
                else p\<lparr>killed := 1\<rparr>) # ps)
      else case kill_loop pd ps of (r, ps) \<Rightarrow> (r, p # ps))"

definition kill :: "int \<Rightarrow> 'z procs_scheme \<Rightarrow> int \<times> 'z procs_scheme" where
  "kill pd s = (case kill_loop pd (proc s) of (r, ps) \<Rightarrow> (r, s\<lparr>proc := ps\<rparr>))"

section \<open>Waiting for children\<close>

definition reparent :: "nat \<Rightarrow> 'z procs_scheme \<Rightarrow> 'z procs_scheme" where
  "reparent p s =
     foldl (\<lambda>s pp. if parent (proc s ! pp) = Some p
         then let s = upd_proc pp (parent_update (\<lambda>_. initproc s)) s
              in case initproc s of None \<Rightarrow> s | Some i \<Rightarrow> wakeup (Chan_proc i) s
         else s) s [0..<NPROC]"

text \<open>
  One scan of \<open>wait\<close> over the table: \<open>Inl r\<close> returns \<open>r\<close>, \<open>Inr havekids\<close> has found no exited child.
\<close>

fun wait_scan ::
  "nat list \<Rightarrow> bool \<Rightarrow> nat \<Rightarrow> uint64 \<Rightarrow> 'z procs_scheme \<Rightarrow> ((int + bool) \<times> 'z procs_scheme) res" where
  "wait_scan [] havekids p addr s = Ok (Inr havekids, s)"
| "wait_scan (np # nps) havekids p addr s =
     (if parent (proc s ! np) = Some p
      then if pstate (proc s ! np) = ZOMBIE
           then let pd = pid (proc s ! np)
                in bindR (if addr \<noteq> 0
                          then copyout (pagetable (proc s ! p)) addr
                                 (le_bytes 4 (word_of_int (xstate (proc s ! np)) :: uint)) s
                          else Ok (0, s)) (\<lambda>(r, s).
                     if r < 0 then Ok (Inl (-1), s)
                     else bindR (freeproc np s) (\<lambda>s. Ok (Inl pd, s)))
           else wait_scan nps True p addr s
      else wait_scan nps havekids p addr s)"

definition wait :: "uint64 \<Rightarrow> 'z procs_scheme \<Rightarrow> (int \<times> 'z procs_scheme) res" where
  "wait addr s =
     bindR (myproc s) (\<lambda>p.
     bindR (wait_scan [0..<NPROC] False p addr s) (\<lambda>(r, s).
       case r of Inl v \<Rightarrow> Ok (v, s)
       | Inr havekids \<Rightarrow>
           if \<not> havekids \<or> killed (proc s ! p) \<noteq> 0 then Ok (-1, s) else Blocked))"

section \<open>Copying to user or kernel addresses\<close>

definition either_copyout ::
  "bool \<Rightarrow> uint64 \<Rightarrow> byte list \<Rightarrow> 'z procs_scheme \<Rightarrow> (int \<times> 'z procs_scheme) res" where
  "either_copyout user_dst dst src s =
     bindR (myproc s) (\<lambda>p.
       if user_dst then copyout (pagetable (proc s ! p)) dst src s
       else Ok (0, s\<lparr>phys := store_bytes (phys s) dst src\<rparr>))"

definition either_copyin ::
  "bool \<Rightarrow> uint64 \<Rightarrow> nat \<Rightarrow> 'z procs_scheme \<Rightarrow> (int \<times> byte list) res" where
  "either_copyin user_src src len s =
     bindR (myproc s) (\<lambda>p.
       if user_src then copyin (pagetable (proc s ! p)) src len s
       else Ok (0, load_bytes (phys s) src len))"

end
