(* ===== verification/Bio_Ring.thy ===== *)
theory Bio_Ring
  imports Bio
begin

text \<open>
  The ring of buffers as a list: \<open>ring bs xs\<close> says that following \<open>nxt\<close> from the sentinel
  visits the buffers \<open>xs\<close>, most recently used first, and \<open>prev\<close> visits them in reverse.  The
  scans of \<open>bget\<close> search that list from either end and \<open>brelse\<close> moves a buffer to its front.
\<close>

section \<open>Segments of the ring\<close>

primrec lseg :: "buf list \<Rightarrow> nat \<Rightarrow> nat list \<Rightarrow> nat \<Rightarrow> bool" where
  "lseg bs a [] z \<longleftrightarrow> nxt (bs ! a) = z \<and> prev (bs ! z) = a"
| "lseg bs a (x # xs) z \<longleftrightarrow> nxt (bs ! a) = x \<and> prev (bs ! x) = a \<and> lseg bs x xs z"

lemma lseg_append: "lseg bs a (us @ b # vs) z \<longleftrightarrow> lseg bs a us b \<and> lseg bs b vs z"
  by (induction us arbitrary: a) auto

lemma lseg_cong:
  assumes "\<And>x. x \<in> set (a # xs) \<Longrightarrow> nxt (bs' ! x) = nxt (bs ! x)"
    and "\<And>x. x \<in> set (xs @ [z]) \<Longrightarrow> prev (bs' ! x) = prev (bs ! x)"
  shows "lseg bs' a xs z = lseg bs a xs z"
  using assms by (induction xs arbitrary: a) auto

lemma lseg_prev: "lseg bs a xs z \<Longrightarrow> prev (bs ! z) = last (a # xs)"
  by (induction xs arbitrary: a) auto

lemma lseg_nxt: "lseg bs a xs z \<Longrightarrow> nxt (bs ! a) = hd (xs @ [z])"
  by (cases xs) auto

lemma scan_nxt:
  assumes "lseg bs a xs NBUF" "NBUF \<notin> set xs" "length xs \<le> fuel"
  shows "scan fuel nxt P bs (nxt (bs ! a)) = Ok (find (\<lambda>i. P (bs ! i)) xs)"
  using assms
proof (induction xs arbitrary: a fuel)
  case Nil
  then show ?case by (cases fuel) auto
next
  case (Cons x xs)
  then show ?case by (cases fuel) auto
qed

lemma scan_prev:
  assumes "lseg bs NBUF xs z" "NBUF \<notin> set xs" "length xs \<le> fuel"
  shows "scan fuel prev P bs (prev (bs ! z)) = Ok (find (\<lambda>i. P (bs ! i)) (rev xs))"
  using assms
proof (induction xs arbitrary: z fuel rule: rev_induct)
  case Nil
  then show ?case by (cases fuel) auto
next
  case (snoc x xs)
  then have "lseg bs NBUF xs x" "prev (bs ! z) = x" by (simp_all add: lseg_append)
  then show ?case using snoc by (cases fuel) auto
qed

section \<open>Moving a buffer to the front\<close>

text \<open>Ending a segment at another node.\<close>

lemma lseg_retarget:
  assumes "lseg bs a us b" "distinct (a # us)" "n \<notin> set us" "n < length bs"
    "\<And>x. x \<in> set (a # us) \<Longrightarrow> x < length bs"
    and "p = last (a # us)"
  shows "lseg (upd_buf p (nxt_update (\<lambda>_. n)) (upd_buf n (prev_update (\<lambda>_. p)) bs)) a us n"
  using assms
proof (induction us arbitrary: a)
  case Nil
  then show ?case by (auto simp: nth_list_update)
next
  case (Cons x us)
  have "p = last (x # us)" using Cons.prems by simp
  then have p: "p \<in> set (x # us)" using last_in_set [of "x # us"] by simp
  have "lseg (upd_buf p (nxt_update (\<lambda>_. n)) (upd_buf n (prev_update (\<lambda>_. p)) bs)) x us n"
    using Cons.prems by (intro Cons.IH) auto
  moreover have "a \<noteq> p" using p Cons.prems(2) by auto
  then have "nxt (upd_buf p (nxt_update (\<lambda>_. n)) (upd_buf n (prev_update (\<lambda>_. p)) bs) ! a) = nxt (bs ! a)"
    using Cons.prems(4) by (cases "a = n") simp_all
  moreover have "x \<noteq> n" "x < length bs" using Cons.prems(3,5) by auto
  then have "prev (upd_buf p (nxt_update (\<lambda>_. n)) (upd_buf n (prev_update (\<lambda>_. p)) bs) ! x) = prev (bs ! x)"
    by (cases "x = p") simp_all
  ultimately show ?case using Cons.prems(1) by simp
qed

definition unlink :: "nat \<Rightarrow> buf list \<Rightarrow> buf list" where
  "unlink b bs = upd_buf (prev (bs ! b)) (nxt_update (\<lambda>_. nxt (bs ! b)))
     (upd_buf (nxt (bs ! b)) (prev_update (\<lambda>_. prev (bs ! b))) bs)"

definition link_front :: "nat \<Rightarrow> buf list \<Rightarrow> buf list" where
  "link_front b bs = upd_buf NBUF (nxt_update (\<lambda>_. b))
     (upd_buf (nxt (bs ! NBUF)) (prev_update (\<lambda>_. b))
       (upd_buf b (\<lambda>x. x\<lparr>nxt := nxt (bs ! NBUF), prev := NBUF\<rparr>) bs))"

definition core :: "buf \<Rightarrow> bool \<times> uint \<times> uint \<times> sleeplock \<times> uint \<times> byte list" where
  "core x = (valid x, dev x, blockno x, block x, refcnt x, data x)"

lemma core_eqD:
  assumes "core x = core y"
  shows "valid x = valid y" "dev x = dev y" "blockno x = blockno y" "block x = block y"
    "refcnt x = refcnt y" "data x = data y"
  using assms by (simp_all add: core_def)

lemma core_upd [simp]: "core (x\<lparr>prev := p\<rparr>) = core x" "core (x\<lparr>nxt := n\<rparr>) = core x"
  by (simp_all add: core_def)

lemma map_core_upd:
  assumes "core x = core (bs ! i)"
  shows "map core (bs[i := x]) = map core bs"
proof (cases "i < length bs")
  case True
  then show ?thesis using assms by (metis list_update_id map_update nth_map)
qed (simp add: list_update_beyond not_less)

lemma core_link_front: "map core (link_front b bs) = map core bs"
  by (simp add: link_front_def map_core_upd)

lemma core_unlink: "map core (unlink b bs) = map core bs"
  by (simp add: unlink_def map_core_upd)

lemma core_nth:
  assumes "map core bs' = map core bs" "i < length bs"
  shows "core (bs' ! i) = core (bs ! i)"
  using assms by (metis length_map nth_map)

lemma unlink_lseg:
  assumes l: "lseg bs h (us @ b # vs) h" and d: "distinct (h # us @ b # vs)"
    and len: "\<And>x. x \<in> set (h # us @ b # vs) \<Longrightarrow> x < length bs"
  shows "lseg (unlink b bs) h (us @ vs) h"
proof -
  have s: "lseg bs h us b" "lseg bs b vs h" using l by (simp_all add: lseg_append)
  let ?p = "last (h # us)" and ?n = "hd (vs @ [h])"
  have pn: "prev (bs ! b) = ?p" "nxt (bs ! b) = ?n" using s by (auto dest: lseg_prev lseg_nxt)
  have pm: "?p \<in> set (h # us)" by (rule last_in_set) simp
  have nm: "?n \<in> set (vs @ [h])" by (rule hd_in_set) simp
  have nus: "?n \<notin> set us" using d nm by auto
  have R: "lseg (unlink b bs) h us ?n"
    unfolding unlink_def pn using d nus nm len by (intro lseg_retarget [OF s(1)]) auto
  show ?thesis
  proof (cases vs)
    case Nil
    then show ?thesis using R by simp
  next
    case (Cons v vs')
    then have "lseg bs v vs' h" using s(2) by simp
    moreover have "lseg (unlink b bs) v vs' h = lseg bs v vs' h"
    proof (rule lseg_cong)
      show "nxt (unlink b bs ! x) = nxt (bs ! x)" if "x \<in> set (v # vs')" for x
      proof -
        have "x \<notin> set (h # us)" using that d Cons by auto
        then have "x \<noteq> ?p" using pm by metis
        then show ?thesis using nm len by (cases "x = ?n") (auto simp: unlink_def pn)
      qed
      show "prev (unlink b bs ! x) = prev (bs ! x)" if "x \<in> set (vs' @ [h])" for x
        using that d len Cons by (auto simp: unlink_def pn nth_list_update)
    qed
    ultimately show ?thesis using R Cons by (simp add: lseg_append)
  qed
qed

lemma link_front_lseg:
  assumes l: "lseg bs NBUF ws NBUF" and d: "distinct (NBUF # b # ws)"
    and len: "\<And>x. x \<in> set (NBUF # b # ws) \<Longrightarrow> x < length bs"
  shows "lseg (link_front b bs) NBUF (b # ws) NBUF"
proof (cases ws)
  case Nil
  then show ?thesis using l d len by (auto simp: link_front_def nth_list_update)
next
  case (Cons w ws')
  have "lseg (link_front b bs) w ws' NBUF = lseg bs w ws' NBUF"
    using d len l Cons by (intro lseg_cong) (auto simp: link_front_def nth_list_update)
  then show ?thesis using l d len Cons by (auto simp: link_front_def nth_list_update)
qed

text \<open>\<open>ring\<close>: every buffer is in the list exactly once.\<close>

definition ring :: "buf list \<Rightarrow> nat list \<Rightarrow> bool" where
  "ring bs xs \<longleftrightarrow> length bs = Suc NBUF \<and> distinct xs \<and> set xs = {..<NBUF} \<and> lseg bs NBUF xs NBUF"

lemma ring_upd:
  assumes "ring bs xs" "prev x = prev (bs ! b)" "nxt x = nxt (bs ! b)" "b < NBUF"
  shows "ring (bs[b := x]) xs"
proof -
  have "lseg (bs[b := x]) NBUF xs NBUF = lseg bs NBUF xs NBUF"
    using assms by (intro lseg_cong) (auto simp: ring_def nth_list_update)
  then show ?thesis using assms by (simp add: ring_def)
qed

lemma to_front_eq:
  assumes "b \<noteq> NBUF" "nxt (bs ! b) \<noteq> b" "prev (bs ! b) \<noteq> b" "b < length bs"
  shows "to_front b bs = link_front b (unlink b bs)"
  using assms by (simp add: to_front_def Let_def link_front_def unlink_def)

lemma to_front_ring:
  assumes r: "ring bs (us @ b # vs)"
  shows "ring (to_front b bs) (b # us @ vs)" "map core (to_front b bs) = map core bs"
proof -
  have b: "b < NBUF" "length bs = Suc NBUF" "lseg bs NBUF (us @ b # vs) NBUF"
    and d: "distinct (us @ b # vs)" and st: "set (us @ b # vs) = {..<NBUF}"
    using r by (auto simp: ring_def)
  have N: "NBUF \<notin> set (us @ b # vs)" unfolding st by simp
  have D: "distinct (NBUF # us @ b # vs)" using d N by simp
  have L: "x < length bs" if "x \<in> set (NBUF # us @ b # vs)" for x
  proof -
    have "x = NBUF \<or> x \<in> {..<NBUF}" using that st by auto
    then show ?thesis using b(2) by auto
  qed
  have "prev (bs ! b) \<in> set (NBUF # us)" "nxt (bs ! b) \<in> set (vs @ [NBUF])"
    using b(3) last_in_set [of "NBUF # us"] hd_in_set [of "vs @ [NBUF]"]
      lseg_prev [of bs NBUF us b] lseg_nxt [of bs b vs NBUF]
    by (simp_all only: lseg_append) simp_all
  then have ne: "prev (bs ! b) \<noteq> b" "nxt (bs ! b) \<noteq> b" using D by auto
  have eq: "to_front b bs = link_front b (unlink b bs)"
    using b ne by (intro to_front_eq) auto
  have U: "lseg (unlink b bs) NBUF (us @ vs) NBUF" by (rule unlink_lseg [OF b(3) D L])
  have lu: "length (unlink b bs) = length bs" by (simp add: unlink_def)
  have "lseg (link_front b (unlink b bs)) NBUF (b # us @ vs) NBUF"
    using D L lu by (intro link_front_lseg [OF U]) auto
  then show "ring (to_front b bs) (b # us @ vs)"
    unfolding eq using b(2) D st lu by (auto simp: ring_def link_front_def)
  show "map core (to_front b bs) = map core bs"
    unfolding eq core_link_front core_unlink ..
qed

end
