(* ===== verification/Bio_Cache.thy ===== *)
theory Bio_Cache
  imports Bio_Ring
begin

text \<open>
  The buffer cache as a view of the disk.  \<open>blk s b\<close> is the current contents of block \<open>b\<close>: the
  cached copy if there is one, the disk's otherwise.  \<open>bst dv P H s\<close> is the state of the cache
  between the calls of one process: \<open>H\<close> are the blocks it has locked, \<open>P\<close> the blocks pinned by
  the log.  The lemmas give the effect of every cache operation on these.
\<close>

section \<open>Invariant and view\<close>

definition isbuf :: "uint \<Rightarrow> buf list \<Rightarrow> uint \<Rightarrow> nat \<Rightarrow> bool" where
  "isbuf dv bs bn i \<longleftrightarrow> i < NBUF \<and> dev (bs ! i) = dv \<and> blockno (bs ! i) = bn"

definition blk :: "uint \<Rightarrow> 'z bcache_scheme \<Rightarrow> uint \<Rightarrow> byte list" where
  "blk dv s bn =
     (case find (\<lambda>i. isbuf dv (bufs s) bn i \<and> valid (bufs s ! i)) [0..<NBUF] of
        Some i \<Rightarrow> data (bufs s ! i) | None \<Rightarrow> disk s bn)"

text \<open>What holds of one buffer, with \<open>pd\<close> the process and \<open>dsk\<close> the disk.\<close>

definition bufok :: "uint \<Rightarrow> int \<Rightarrow> uint set \<Rightarrow> uint set \<Rightarrow> (uint \<Rightarrow> byte list) \<Rightarrow> buf \<Rightarrow> bool" where
  "bufok dv pd P H dsk x \<longleftrightarrow>
     (let mine = dev x = dv \<and> blockno x \<in> H; pinned = dev x = dv \<and> blockno x \<in> P
      in (dev x = dv \<or> dev x = 0) \<and> (valid x \<longrightarrow> dev x = dv \<and> length (data x) = BSIZE) \<and>
         slocked (block x) = mine \<and> (mine \<longrightarrow> spid (block x) = pd) \<and>
         refcnt x = of_bool mine + of_bool pinned \<and> (dev x = dv \<longrightarrow> valid x) \<and>
         (valid x \<and> \<not> mine \<and> \<not> pinned \<longrightarrow> data x = dsk (blockno x)))"

lemma bufokD:
  assumes "bufok dv pd P H dsk x"
  shows "dev x = dv \<or> dev x = 0"
    and "valid x \<Longrightarrow> dev x = dv" "valid x \<Longrightarrow> length (data x) = BSIZE"
    and "slocked (block x) \<longleftrightarrow> dev x = dv \<and> blockno x \<in> H"
    and "dev x = dv \<Longrightarrow> blockno x \<in> H \<Longrightarrow> spid (block x) = pd"
    and "refcnt x = of_bool (dev x = dv \<and> blockno x \<in> H) + of_bool (dev x = dv \<and> blockno x \<in> P)"
    and "dev x = dv \<Longrightarrow> valid x"
    and "valid x \<Longrightarrow> \<not> (dev x = dv \<and> blockno x \<in> P \<union> H) \<Longrightarrow> data x = dsk (blockno x)"
  using assms unfolding bufok_def Let_def by blast+

lemma bufokI:
  assumes "dev x = dv \<or> dev x = 0"
    and "valid x \<Longrightarrow> dev x = dv" "valid x \<Longrightarrow> length (data x) = BSIZE"
    and "slocked (block x) \<longleftrightarrow> dev x = dv \<and> blockno x \<in> H"
    and "dev x = dv \<Longrightarrow> blockno x \<in> H \<Longrightarrow> spid (block x) = pd"
    and "refcnt x = of_bool (dev x = dv \<and> blockno x \<in> H) + of_bool (dev x = dv \<and> blockno x \<in> P)"
    and "dev x = dv \<Longrightarrow> valid x"
    and "valid x \<Longrightarrow> \<not> (dev x = dv \<and> blockno x \<in> P \<union> H) \<Longrightarrow> data x = dsk (blockno x)"
  shows "bufok dv pd P H dsk x"
  using assms unfolding bufok_def Let_def by blast

lemma bufok_cong:
  assumes "dev x = dv \<Longrightarrow> blockno x \<in> H \<longleftrightarrow> blockno x \<in> H'"
    and "dev x = dv \<Longrightarrow> blockno x \<in> P \<longleftrightarrow> blockno x \<in> P'"
  shows "bufok dv pd P H dsk x = bufok dv pd P' H' dsk x"
proof -
  have "(dev x = dv \<and> blockno x \<in> H) = (dev x = dv \<and> blockno x \<in> H')"
    "(dev x = dv \<and> blockno x \<in> P) = (dev x = dv \<and> blockno x \<in> P')" using assms by blast+
  then show ?thesis unfolding bufok_def by (simp only:)
qed

lemma bufok_refcnt:
  assumes "bufok dv pd P H dsk x"
  shows "refcnt x = 0 \<longleftrightarrow> \<not> (dev x = dv \<and> blockno x \<in> P \<union> H)"
  using bufokD(6) [OF assms]
  by (cases "dev x = dv"; cases "blockno x \<in> H"; cases "blockno x \<in> P") simp_all

definition uniq :: "buf list \<Rightarrow> bool" where
  "uniq bs \<longleftrightarrow> (\<forall>i<NBUF. \<forall>j<NBUF. i \<noteq> j \<longrightarrow> dev (bs ! i) \<noteq> 0 \<longrightarrow> dev (bs ! j) = dev (bs ! i) \<longrightarrow>
     blockno (bs ! j) \<noteq> blockno (bs ! i))"

definition bst :: "uint \<Rightarrow> uint set \<Rightarrow> uint set \<Rightarrow> 'z bcache_scheme \<Rightarrow> bool" where
  "bst dv P H s \<longleftrightarrow> dv \<noteq> 0 \<and> (\<exists>xs. ring (bufs s) xs) \<and> uniq (bufs s) \<and>
     (\<exists>pd. mypid s = Ok pd \<and> (\<forall>i<NBUF. bufok dv pd P H (disk s) (bufs s ! i))) \<and>
     (\<forall>bn\<in>P \<union> H. \<exists>i. isbuf dv (bufs s) bn i) \<and> (\<forall>bn. length (disk s bn) = BSIZE)"

lemma isbuf_unique:
  "uniq bs \<Longrightarrow> dv \<noteq> 0 \<Longrightarrow> isbuf dv bs bn i \<Longrightarrow> isbuf dv bs bn j \<Longrightarrow> i = j"
  unfolding uniq_def isbuf_def by metis

lemma find_SomeD: "find P xs = Some x \<Longrightarrow> x \<in> set xs \<and> P x"
  by (induction xs) (auto split: if_splits)

lemma find_unique:
  assumes "P i" "i \<in> set xs" "\<And>j. P j \<Longrightarrow> j = i"
  shows "find P xs = Some i"
  using assms(2)
proof (induction xs)
  case (Cons x xs)
  show ?case
  proof (cases "P x")
    case True
    then have "x = i" by (rule assms(3))
    then show ?thesis using True by simp
  next
    case False
    then have "x \<noteq> i" using assms(1) by blast
    then show ?thesis using Cons False by simp
  qed
qed simp

lemma blk_cached:
  assumes "uniq (bufs s)" "dv \<noteq> 0" "isbuf dv (bufs s) bn i" "valid (bufs s ! i)"
  shows "blk dv s bn = data (bufs s ! i)"
proof -
  have "find (\<lambda>i. isbuf dv (bufs s) bn i \<and> valid (bufs s ! i)) [0..<NBUF] = Some i"
    using assms isbuf_unique [OF assms(1,2)] by (intro find_unique) (auto simp: isbuf_def)
  then show ?thesis by (simp add: blk_def)
qed

lemma blk_uncached:
  assumes "\<And>i. isbuf dv (bufs s) bn i \<Longrightarrow> \<not> valid (bufs s ! i)"
  shows "blk dv s bn = disk s bn"
proof -
  have "find (\<lambda>i. isbuf dv (bufs s) bn i \<and> valid (bufs s ! i)) [0..<NBUF] = None"
    using assms by (auto simp: find_None_iff)
  then show ?thesis by (simp add: blk_def)
qed

lemma bstD:
  assumes "bst dv P H s"
  shows "dv \<noteq> 0" "uniq (bufs s)" "length (bufs s) = Suc NBUF"
    "\<And>bn. bn \<in> P \<union> H \<Longrightarrow> \<exists>i. isbuf dv (bufs s) bn i"
    "\<And>bn. length (disk s bn) = BSIZE"
  using assms by (auto simp: bst_def ring_def)

lemma bst_bufok:
  assumes "bst dv P H s" "mypid s = Ok pd" "i < NBUF"
  shows "bufok dv pd P H (disk s) (bufs s ! i)"
  using assms by (auto simp: bst_def)

lemma bst_pid: "bst dv P H s \<Longrightarrow> \<exists>pd. mypid s = Ok pd"
  by (auto simp: bst_def)

lemma blk_length:
  assumes "bst dv P H s"
  shows "length (blk dv s bn) = BSIZE"
proof -
  obtain pd where pd: "mypid s = Ok pd" using bst_pid [OF assms] by blast
  have "length (data (bufs s ! i)) = BSIZE" if "isbuf dv (bufs s) bn i" "valid (bufs s ! i)" for i
    using bst_bufok [OF assms pd, of i] that by (auto simp: bufok_def isbuf_def Let_def)
  then show ?thesis using bstD(5) [OF assms]
    by (auto simp: blk_def find_Some_iff split: option.splits)
qed

text \<open>Rebuilding the invariant after one buffer has changed.\<close>

lemma bst_upd:
  assumes st: "bst dv P H s" and b: "b < NBUF"
    and s': "bufs s' = (bufs s)[b := x]" "disk s' = disk s" "mypid s' = mypid s"
    and links: "prev x = prev (bufs s ! b)" "nxt x = nxt (bufs s ! b)"
    and x: "\<And>pd. mypid s = Ok pd \<Longrightarrow> bufok dv pd P' H' (disk s) x"
    and others: "\<And>i pd. i < NBUF \<Longrightarrow> i \<noteq> b \<Longrightarrow> bufok dv pd P H (disk s) (bufs s ! i) \<Longrightarrow>
      bufok dv pd P' H' (disk s) (bufs s ! i)"
    and u: "uniq ((bufs s)[b := x])"
    and cov: "\<And>bn. bn \<in> P' \<union> H' \<Longrightarrow> \<exists>i. isbuf dv ((bufs s)[b := x]) bn i"
  shows "bst dv P' H' s'"
proof -
  obtain xs pd where r: "ring (bufs s) xs" and pd: "mypid s = Ok pd"
    "\<And>i. i < NBUF \<Longrightarrow> bufok dv pd P H (disk s) (bufs s ! i)" using st by (auto simp: bst_def)
  have "ring ((bufs s)[b := x]) xs" using ring_upd [OF r links b] .
  moreover have "bufok dv pd P' H' (disk s) ((bufs s)[b := x] ! i)" if "i < NBUF" for i
    using that x [OF pd(1)] others [OF that _ pd(2)] bstD(3) [OF st] b
    by (cases "i = b") simp_all
  ultimately show ?thesis using st s' pd(1) u cov by (auto simp: bst_def)
qed

lemma blk_eqI:
  assumes "uniq (bufs s)" "dv \<noteq> 0"
    and "(\<exists>i. isbuf dv (bufs s) bn i \<and> valid (bufs s ! i) \<and> data (bufs s ! i) = d) \<or>
      (\<forall>i. isbuf dv (bufs s) bn i \<longrightarrow> \<not> valid (bufs s ! i)) \<and> disk s bn = d"
  shows "blk dv s bn = d"
  using assms(3) blk_cached [OF assms(1,2)] blk_uncached by blast

lemma blk_cases:
  assumes "uniq (bufs s)" "dv \<noteq> 0"
  obtains i where "isbuf dv (bufs s) bn i" "valid (bufs s ! i)" "blk dv s bn = data (bufs s ! i)"
  | "\<And>i. isbuf dv (bufs s) bn i \<Longrightarrow> \<not> valid (bufs s ! i)" "blk dv s bn = disk s bn"
  using blk_cached [OF assms] blk_uncached by blast

text \<open>A change to one buffer leaves the view of the blocks alone that it does not hold.\<close>

lemma isbuf_upd:
  assumes "length bs = Suc NBUF" "b < NBUF"
  shows "isbuf dv (bs[b := x]) bn i \<longleftrightarrow>
    (if i = b then dev x = dv \<and> blockno x = bn else isbuf dv bs bn i)"
  using assms by (auto simp: isbuf_def nth_list_update)

lemma isbuf_upd_same:
  assumes "length bs = Suc NBUF" "b < NBUF" "dev x = dev (bs ! b)" "blockno x = blockno (bs ! b)"
  shows "isbuf dv (bs[b := x]) bn i = isbuf dv bs bn i"
  using assms by (auto simp: isbuf_def nth_list_update)

lemma blk_upd_other:
  assumes st: "bst dv P H s" and b: "b < NBUF"
    and s': "bufs s' = (bufs s)[b := x]" "disk s' = disk s" and u: "uniq (bufs s')"
    and ne: "dev x = dv \<Longrightarrow> blockno x \<noteq> bn"
    and old: "isbuf dv (bufs s) bn b \<Longrightarrow> valid (bufs s ! b) \<Longrightarrow> data (bufs s ! b) = disk s bn"
  shows "blk dv s' bn = blk dv s bn"
proof (rule blk_eqI [OF u bstD(1) [OF st]])
  note I = isbuf_upd [OF bstD(3) [OF st] b, of dv x bn]
  show "(\<exists>i. isbuf dv (bufs s') bn i \<and> valid (bufs s' ! i) \<and> data (bufs s' ! i) = blk dv s bn) \<or>
      (\<forall>i. isbuf dv (bufs s') bn i \<longrightarrow> \<not> valid (bufs s' ! i)) \<and> disk s' bn = blk dv s bn"
  proof (rule blk_cases [OF bstD(2,1) [OF st], of bn])
    fix i assume i: "isbuf dv (bufs s) bn i" "valid (bufs s ! i)" "blk dv s bn = data (bufs s ! i)"
    show ?thesis
    proof (cases "i = b")
      case True
      have "j = b" if "isbuf dv (bufs s) bn j" for j
        using isbuf_unique [OF bstD(2,1) [OF st] i(1) that] True by simp
      then have "\<not> isbuf dv (bufs s') bn j" for j using ne by (auto simp: s' I)
      then show ?thesis using i old True s' by auto
    next
      case False
      then show ?thesis using i by (auto simp: s' I)
    qed
  next
    assume "\<And>i. isbuf dv (bufs s) bn i \<Longrightarrow> \<not> valid (bufs s ! i)" "blk dv s bn = disk s bn"
    then show ?thesis using ne by (auto simp: s' I nth_list_update)
  qed
qed

lemma uniq_upd_same:
  assumes "uniq bs" "length bs = Suc NBUF" "b < NBUF" "dev x = dev (bs ! b)" "blockno x = blockno (bs ! b)"
  shows "uniq (bs[b := x])"
  using assms unfolding uniq_def by (auto simp: nth_list_update)

lemma uniq_upd_new:
  assumes "uniq bs" "length bs = Suc NBUF" "b < NBUF" "\<And>i. \<not> isbuf (dev x) bs (blockno x) i"
  shows "uniq (bs[b := x])"
  unfolding uniq_def
proof (intro allI impI)
  fix i j assume ij: "i < NBUF" "j < NBUF" "i \<noteq> j" "dev (bs[b := x] ! i) \<noteq> 0"
    "dev (bs[b := x] ! j) = dev (bs[b := x] ! i)"
  then show "blockno (bs[b := x] ! j) \<noteq> blockno (bs[b := x] ! i)"
    using assms(4) [of i] assms(4) [of j] assms(1-3)
    by (cases "i = b"; cases "j = b") (auto simp: isbuf_def uniq_def)
qed

section \<open>Locking a block\<close>

lemma bget_scan:
  assumes "bst dv P H s"
  shows "\<exists>r. scan NBUF nxt (\<lambda>x. dev x = dv \<and> blockno x = bn) (bufs s) (nxt (bufs s ! NBUF)) = Ok r \<and>
    (case r of Some b \<Rightarrow> isbuf dv (bufs s) bn b | None \<Rightarrow> \<forall>i. \<not> isbuf dv (bufs s) bn i)"
proof -
  obtain xs where r: "ring (bufs s) xs" using assms by (auto simp: bst_def)
  then have l: "length xs = NBUF" using distinct_card [of xs] by (simp add: ring_def)
  have "NBUF \<notin> set xs" using r by (simp add: ring_def)
  then have "scan NBUF nxt (\<lambda>x. dev x = dv \<and> blockno x = bn) (bufs s) (nxt (bufs s ! NBUF)) =
      Ok (find (\<lambda>i. dev (bufs s ! i) = dv \<and> blockno (bufs s ! i) = bn) xs)"
    using r l by (intro scan_nxt) (auto simp: ring_def)
  moreover have "set xs = {..<NBUF}" using r by (simp add: ring_def)
  ultimately show ?thesis
    by (auto simp: isbuf_def find_None_iff find_Some_iff split: option.splits)
qed

text \<open>As long as fewer blocks than buffers are locked or pinned, a buffer can be recycled.\<close>

lemma some_free:
  assumes st: "bst dv P H s" and c: "card (P \<union> H) < NBUF"
  shows "\<exists>i<NBUF. refcnt (bufs s ! i) = 0"
proof (rule ccontr)
  assume no: "\<not> (\<exists>i<NBUF. refcnt (bufs s ! i) = 0)"
  obtain pd where pd: "mypid s = Ok pd" using bst_pid [OF st] by blast
  have mem: "dev (bufs s ! i) = dv \<and> blockno (bufs s ! i) \<in> P \<union> H" if "i < NBUF" for i
    using no that bufok_refcnt [OF bst_bufok [OF st pd that]] by blast
  have "inj_on (\<lambda>i. blockno (bufs s ! i)) {..<NBUF}"
  proof (rule inj_onI)
    fix i j assume ij: "i \<in> {..<NBUF}" "j \<in> {..<NBUF}" "blockno (bufs s ! i) = blockno (bufs s ! j)"
    show "i = j"
      by (rule isbuf_unique [OF bstD(2,1) [OF st], of "blockno (bufs s ! i)"])
        (use ij mem in \<open>simp_all add: isbuf_def\<close>)
  qed
  moreover have "(\<lambda>i. blockno (bufs s ! i)) ` {..<NBUF} \<subseteq> P \<union> H" using mem by auto
  ultimately have "card {..<NBUF} \<le> card (P \<union> H)" by (intro card_inj_on_le) auto
  then show False using c by simp
qed

lemma bget_free:
  assumes st: "bst dv P H s" and c: "card (P \<union> H) < NBUF"
  shows "\<exists>b. scan NBUF prev (\<lambda>x. refcnt x = 0) (bufs s) (prev (bufs s ! NBUF)) = Ok (Some b) \<and>
    b < NBUF \<and> refcnt (bufs s ! b) = 0"
proof -
  obtain xs where r: "ring (bufs s) xs" using st by (auto simp: bst_def)
  then have l: "length xs = NBUF" using distinct_card [of xs] by (simp add: ring_def)
  have "NBUF \<notin> set xs" and set: "set xs = {..<NBUF}" using r by (auto simp: ring_def)
  then have sc: "scan NBUF prev (\<lambda>x. refcnt x = 0) (bufs s) (prev (bufs s ! NBUF)) =
      Ok (find (\<lambda>i. refcnt (bufs s ! i) = 0) (rev xs))"
    using r l by (intro scan_prev) (auto simp: ring_def)
  obtain i where "i \<in> set (rev xs)" "refcnt (bufs s ! i) = 0" using some_free [OF st c] set by auto
  then have "find (\<lambda>i. refcnt (bufs s ! i) = 0) (rev xs) \<noteq> None" unfolding find_None_iff by blast
  then obtain b where b: "find (\<lambda>i. refcnt (bufs s ! i) = 0) (rev xs) = Some b" by blast
  then have "b \<in> set (rev xs)" "refcnt (bufs s ! b) = 0" by (blast dest: find_SomeD)+
  then show ?thesis using sc b set by simp
qed

text \<open>\<open>bread\<close> locks the buffer of the block and leaves the view of the disk as it was.\<close>

lemma blk_same_fields:
  assumes "uniq (bufs s)" "dv \<noteq> 0" "uniq (bufs s')" "disk s' = disk s"
    and "\<And>i. i < NBUF \<Longrightarrow> dev (bufs s' ! i) = dev (bufs s ! i) \<and> blockno (bufs s' ! i) = blockno (bufs s ! i)
      \<and> valid (bufs s' ! i) = valid (bufs s ! i) \<and> data (bufs s' ! i) = data (bufs s ! i)"
  shows "blk dv s' = blk dv s"
proof
  fix bn
  have I: "isbuf dv (bufs s') bn i = isbuf dv (bufs s) bn i" for i
    using assms(5) [of i] unfolding isbuf_def by metis
  have lt: "i < NBUF" if "isbuf dv (bufs s) bn i" for i using that by (simp add: isbuf_def)
  show "blk dv s' bn = blk dv s bn"
  proof (rule blk_eqI [OF assms(3,2)])
    show "(\<exists>i. isbuf dv (bufs s') bn i \<and> valid (bufs s' ! i) \<and> data (bufs s' ! i) = blk dv s bn) \<or>
      (\<forall>i. isbuf dv (bufs s') bn i \<longrightarrow> \<not> valid (bufs s' ! i)) \<and> disk s' bn = blk dv s bn"
    proof (rule blk_cases [OF assms(1,2), of bn])
      fix i assume i: "isbuf dv (bufs s) bn i" "valid (bufs s ! i)" "blk dv s bn = data (bufs s ! i)"
      show ?thesis using i I [of i] assms(5) [OF lt [OF i(1)]] by (intro disjI1 exI [of _ i]) simp
    next
      assume n: "\<And>i. isbuf dv (bufs s) bn i \<Longrightarrow> \<not> valid (bufs s ! i)" "blk dv s bn = disk s bn"
      have "\<not> valid (bufs s' ! i)" if "isbuf dv (bufs s') bn i" for i
      proof -
        have i: "isbuf dv (bufs s) bn i" using that I [of i] by simp
        show ?thesis using n(1) [OF i] assms(5) [OF lt [OF i]] by simp
      qed
      then show ?thesis using n(2) assms(4) by simp
    qed
  qed
qed

lemma mypid_bufs [simp]: "mypid (s\<lparr>bufs := bs\<rparr>) = mypid s" "mypid (s\<lparr>disk := d\<rparr>) = mypid s"
    "mypid (s\<lparr>dlog := l\<rparr>) = mypid s"
  by (simp_all add: mypid_def myproc_def split: option.split)

lemma bread_cached:
  assumes st: "bst dv P H s" and nh: "bn \<notin> H" and pd: "mypid s = Ok pd"
    and b: "isbuf dv (bufs s) bn b" and v: "valid (bufs s ! b)"
    and x: "x = (bufs s ! b)\<lparr>refcnt := refcnt (bufs s ! b) + 1, block := \<lparr>slocked = True, spid = pd\<rparr>\<rparr>"
  shows "bst dv P (insert bn H) (s\<lparr>bufs := (bufs s)[b := x]\<rparr>) \<and>
    blk dv (s\<lparr>bufs := (bufs s)[b := x]\<rparr>) = blk dv s \<and> data x = blk dv s bn"
proof -
  have bl: "b < NBUF" "dev (bufs s ! b) = dv" "blockno (bufs s ! b) = bn" using b by (auto simp: isbuf_def)
  note ok = bst_bufok [OF st pd bl(1)] and len = bstD(3) [OF st]
  have u: "uniq ((bufs s)[b := x])"
    using bstD(2,3) [OF st] bl(1) by (intro uniq_upd_same) (simp_all add: x)
  have xok: "bufok dv pd P (insert bn H) (disk s) x"
    by (rule bufokI) (use bufokD [OF ok] bl nh v in \<open>simp_all add: x\<close>)
  have "bst dv P (insert bn H) (s\<lparr>bufs := (bufs s)[b := x]\<rparr>)"
  proof (rule bst_upd [OF st bl(1), where x = x])
    show "bufok dv pd' P (insert bn H) (disk s) x" if "mypid s = Ok pd'" for pd'
      using that pd xok by simp
    show "bufok dv pd' P (insert bn H) (disk s) (bufs s ! i)"
      if i: "i < NBUF" "i \<noteq> b" "bufok dv pd' P H (disk s) (bufs s ! i)" for i pd'
    proof -
      have "\<not> isbuf dv (bufs s) bn i" using isbuf_unique [OF bstD(2,1) [OF st] b] i(2) by blast
      then have "dev (bufs s ! i) = dv \<Longrightarrow> blockno (bufs s ! i) \<noteq> bn" using i(1) by (auto simp: isbuf_def)
      then show ?thesis using i(3) bufok_cong [of "bufs s ! i" dv "insert bn H" H P P] by simp
    qed
    show "\<exists>i. isbuf dv ((bufs s)[b := x]) bn' i" if "bn' \<in> P \<union> insert bn H" for bn'
      using bstD(4) [OF st, of bn'] that b isbuf_upd_same [OF len bl(1), of x] by (auto simp: x)
  qed (simp_all add: x u [unfolded x])
  moreover have "blk dv (s\<lparr>bufs := (bufs s)[b := x]\<rparr>) = blk dv s"
    using u len bl(1) bstD(1,2) [OF st] by (intro blk_same_fields) (auto simp: x nth_list_update)
  moreover have "data x = blk dv s bn" using blk_cached [OF bstD(2,1) [OF st] b v] by (simp add: x)
  ultimately show ?thesis by blast
qed

lemma bread_recycled:
  assumes st: "bst dv P H s" and pd: "mypid s = Ok pd"
    and new: "\<And>i. \<not> isbuf dv (bufs s) bn i" and b: "b < NBUF" "refcnt (bufs s ! b) = 0"
    and x: "x = (bufs s ! b)\<lparr>dev := dv, blockno := bn, refcnt := 1,
      block := \<lparr>slocked = True, spid = pd\<rparr>, data := disk s bn, valid := True\<rparr>"
  shows "bst dv P (insert bn H) (s\<lparr>bufs := (bufs s)[b := x]\<rparr>) \<and>
    blk dv (s\<lparr>bufs := (bufs s)[b := x]\<rparr>) = blk dv s \<and> data x = blk dv s bn"
proof -
  note ok = bst_bufok [OF st pd b(1)] and len = bstD(3) [OF st]
  let ?s = "s\<lparr>bufs := (bufs s)[b := x]\<rparr>"
  have free: "\<not> (dev (bufs s ! b) = dv \<and> blockno (bufs s ! b) \<in> P \<union> H)"
    using bufok_refcnt [OF ok] b(2) by simp
  have bnP: "bn \<notin> P" "bn \<notin> H" using bstD(4) [OF st] new by blast+
  have u: "uniq ((bufs s)[b := x])"
    using bstD(2,3) [OF st] b(1) new by (intro uniq_upd_new) (simp_all add: x)
  have xok: "bufok dv pd P (insert bn H) (disk s) x"
    by (rule bufokI) (use bnP bstD(5) [OF st] in \<open>simp_all add: x\<close>)
  have "bst dv P (insert bn H) ?s"
  proof (rule bst_upd [OF st b(1), where x = x])
    show "bufok dv pd' P (insert bn H) (disk s) x" if "mypid s = Ok pd'" for pd'
      using that pd xok by simp
    show "bufok dv pd' P (insert bn H) (disk s) (bufs s ! i)"
      if i: "i < NBUF" "i \<noteq> b" "bufok dv pd' P H (disk s) (bufs s ! i)" for i pd'
    proof -
      have "dev (bufs s ! i) = dv \<Longrightarrow> blockno (bufs s ! i) \<noteq> bn"
        using i(1) new [of i] by (auto simp: isbuf_def)
      then show ?thesis using i(3) bufok_cong [of "bufs s ! i" dv "insert bn H" H P P] by simp
    qed
    show "\<exists>i. isbuf dv ((bufs s)[b := x]) bn' i" if bn': "bn' \<in> P \<union> insert bn H" for bn'
    proof (cases "bn' = bn")
      case True
      then show ?thesis using isbuf_upd [OF len b(1), of dv x bn' b] by (auto simp: x)
    next
      case False
      then obtain i where i: "isbuf dv (bufs s) bn' i" using bstD(4) [OF st, of bn'] bn' by blast
      then have "i \<noteq> b" using free False bn' by (auto simp: isbuf_def)
      then show ?thesis using i isbuf_upd [OF len b(1), of dv x bn' i] by auto
    qed
  qed (simp_all add: x u [unfolded x])
  moreover have "blk dv ?s bn' = blk dv s bn'" for bn'
  proof (cases "bn' = bn")
    case True
    have i: "isbuf dv (bufs ?s) bn b" "valid (bufs ?s ! b)" "data (bufs ?s ! b) = disk s bn"
      using len b(1) by (simp_all add: x isbuf_def)
    have "uniq (bufs ?s)" using u by simp
    from blk_cached [OF this bstD(1) [OF st] i(1,2)] have "blk dv ?s bn = disk s bn" using i(3) by simp
    then show ?thesis using True blk_uncached [of dv s bn] new by simp
  next
    case False
    show ?thesis
      by (rule blk_upd_other [OF st b(1)]) (use u False free bufokD(8) [OF ok] in \<open>auto simp: x isbuf_def\<close>)
  qed
  then have "blk dv ?s = blk dv s" by (rule ext)
  moreover have "data x = blk dv s bn" using blk_uncached [of dv s bn] new by (simp add: x)
  ultimately show ?thesis by blast
qed

text \<open>
  The effect of \<open>bread\<close> seen from outside: the block is locked, its buffer holds the current
  contents, and every buffer the process already holds keeps its index.
\<close>

lemma sleeplock_all [simp]: "lk\<lparr>slocked := a, spid := b\<rparr> = \<lparr>slocked = a, spid = b\<rparr>" for lk :: sleeplock
  by (cases lk) simp

lemma bread_ok:
  assumes st: "bst dv P H s" and nh: "bn \<notin> H" and c: "bn \<in> P \<or> card (P \<union> H) < NBUF"
  shows "\<exists>b x. bread dv bn s = Ok (b, s\<lparr>bufs := (bufs s)[b := x]\<rparr>) \<and>
    bst dv P (insert bn H) (s\<lparr>bufs := (bufs s)[b := x]\<rparr>) \<and>
    isbuf dv ((bufs s)[b := x]) bn b \<and> data x = blk dv s bn \<and>
    blk dv (s\<lparr>bufs := (bufs s)[b := x]\<rparr>) = blk dv s \<and>
    (\<forall>bn'\<in>H. \<forall>j. isbuf dv (bufs s) bn' j \<longrightarrow> j \<noteq> b)"
proof -
  obtain pd where pd: "mypid s = Ok pd" using bst_pid [OF st] by blast
  note len = bstD(3) [OF st]
  obtain r where r: "scan NBUF nxt (\<lambda>x. dev x = dv \<and> blockno x = bn) (bufs s) (nxt (bufs s ! NBUF)) = Ok r"
    "case r of Some b \<Rightarrow> isbuf dv (bufs s) bn b | None \<Rightarrow> \<forall>i. \<not> isbuf dv (bufs s) bn i"
    using bget_scan [OF st] by blast
  show ?thesis
  proof (cases r)
    case (Some b)
    then have b: "isbuf dv (bufs s) bn b" using r by simp
    then have bl: "b < NBUF" "dev (bufs s ! b) = dv" "blockno (bufs s ! b) = bn" by (auto simp: isbuf_def)
    note ok = bst_bufok [OF st pd bl(1)]
    have v: "valid (bufs s ! b)" using bufokD(7) [OF ok] bl by simp
    have "\<not> slocked (block (bufs s ! b))" using bufokD(4) [OF ok] bl nh by simp
    then have e: "bread dv bn s = Ok (b, s\<lparr>bufs := (bufs s)[b := (bufs s ! b)\<lparr>refcnt := refcnt (bufs s ! b) + 1,
        block := \<lparr>slocked = True, spid = pd\<rparr>\<rparr>]\<rparr>)"
      using r(1) Some pd v bl(1) len
      by (simp add: bread_def bget_def block_buf_def acquiresleep_def)
    have "j \<noteq> b" if "bn' \<in> H" "isbuf dv (bufs s) bn' j" for bn' j
      using that nh bl by (auto simp: isbuf_def)
    then show ?thesis using e bread_cached [OF st nh pd b v refl] b len bl
      by (intro exI conjI) (auto simp: isbuf_def)
  next
    case None
    then have new: "\<not> isbuf dv (bufs s) bn i" for i using r by simp
    obtain b where b: "scan NBUF prev (\<lambda>x. refcnt x = 0) (bufs s) (prev (bufs s ! NBUF)) = Ok (Some b)"
      "b < NBUF" "refcnt (bufs s ! b) = 0"
      using bget_free [OF st] c new bstD(4) [OF st, of bn] by blast
    note ok = bst_bufok [OF st pd b(2)]
    have free: "\<not> (dev (bufs s ! b) = dv \<and> blockno (bufs s ! b) \<in> P \<union> H)"
      using bufok_refcnt [OF ok] b(3) by simp
    then have "\<not> slocked (block (bufs s ! b))" using bufokD(4) [OF ok] by simp
    then have e: "bread dv bn s = Ok (b, s\<lparr>bufs := (bufs s)[b := (bufs s ! b)\<lparr>dev := dv, blockno := bn,
        refcnt := 1, block := \<lparr>slocked = True, spid = pd\<rparr>, data := disk s bn, valid := True\<rparr>]\<rparr>)"
      using r(1) None b pd len
      by (simp add: bread_def bget_def block_buf_def acquiresleep_def disk_rw_def Let_def)
    have "j \<noteq> b" if "bn' \<in> H" "isbuf dv (bufs s) bn' j" for bn' j
      using that free by (auto simp: isbuf_def)
    then show ?thesis using e bread_recycled [OF st pd new b(2,3) refl] len b
      by (intro exI conjI) (auto simp: isbuf_def)
  qed
qed

section \<open>Using and releasing a locked block\<close>

text \<open>A locked buffer: its block is held and current.\<close>

lemma heldD:
  assumes st: "bst dv P H s" and h: "bn \<in> H" and b: "isbuf dv (bufs s) bn b" and pd: "mypid s = Ok pd"
  shows "b < NBUF" "dev (bufs s ! b) = dv" "blockno (bufs s ! b) = bn" "valid (bufs s ! b)"
    "holdingsleep (block (bufs s ! b)) pd" "length (data (bufs s ! b)) = BSIZE"
    "data (bufs s ! b) = blk dv s bn" "refcnt (bufs s ! b) = 1 + of_bool (bn \<in> P)"
proof -
  show bl: "b < NBUF" "dev (bufs s ! b) = dv" "blockno (bufs s ! b) = bn"
    using b by (auto simp: isbuf_def)
  note ok = bst_bufok [OF st pd bl(1)]
  show v: "valid (bufs s ! b)" using bufokD(7) [OF ok] bl by simp
  show "holdingsleep (block (bufs s ! b)) pd"
    using bufokD(4,5) [OF ok] bl h by (simp add: holdingsleep_def)
  show "length (data (bufs s ! b)) = BSIZE" using bufokD(3) [OF ok] v by simp
  show "data (bufs s ! b) = blk dv s bn" using blk_cached [OF bstD(2,1) [OF st] b v] by simp
  show "refcnt (bufs s ! b) = 1 + of_bool (bn \<in> P)" using bufokD(6) [OF ok] bl h by simp
qed

text \<open>A change to the buffer of a held block.\<close>

lemma bst_upd_held:
  assumes st: "bst dv P H s" and h: "bn \<in> H" and b: "isbuf dv (bufs s) bn b" and pd: "mypid s = Ok pd"
    and s': "bufs s' = (bufs s)[b := x]" "disk s' = disk s" "mypid s' = mypid s"
    and x: "prev x = prev (bufs s ! b)" "nxt x = nxt (bufs s ! b)" "dev x = dv" "blockno x = bn"
    and ok: "bufok dv pd P' H' (disk s) x"
    and sets: "P' - {bn} = P - {bn}" "H' - {bn} = H - {bn}"
  shows "bst dv P' H' s'" "isbuf dv (bufs s') = isbuf dv (bufs s)"
proof -
  have bl: "b < NBUF" "dev (bufs s ! b) = dv" "blockno (bufs s ! b) = bn" using b by (auto simp: isbuf_def)
  note len = bstD(3) [OF st]
  have same: "isbuf dv ((bufs s)[b := x]) bn' i = isbuf dv (bufs s) bn' i" for bn' i
    using x bl by (intro isbuf_upd_same [OF len bl(1)]) auto
  then show "isbuf dv (bufs s') = isbuf dv (bufs s)" by (simp add: s' fun_eq_iff)
  show "bst dv P' H' s'"
  proof (rule bst_upd [OF st bl(1) s' x(1,2)])
    show "bufok dv pd' P' H' (disk s) x" if "mypid s = Ok pd'" for pd' using that pd ok by simp
    show "bufok dv pd' P' H' (disk s) (bufs s ! i)"
      if i: "i < NBUF" "i \<noteq> b" "bufok dv pd' P H (disk s) (bufs s ! i)" for i pd'
    proof -
      have "\<not> isbuf dv (bufs s) bn i" using isbuf_unique [OF bstD(2,1) [OF st] b] i(2) by blast
      then have "dev (bufs s ! i) = dv \<Longrightarrow> blockno (bufs s ! i) \<noteq> bn" using i(1) by (auto simp: isbuf_def)
      then show ?thesis using i(3) sets bufok_cong [of "bufs s ! i" dv H' H P' P] by blast
    qed
    show "uniq ((bufs s)[b := x])"
      using bstD(2) [OF st] len bl x by (intro uniq_upd_same) simp_all
    show "\<exists>i. isbuf dv ((bufs s)[b := x]) bn' i" if "bn' \<in> P' \<union> H'" for bn'
      unfolding same using bstD(4) [OF st, of bn'] that sets b h by blast
  qed
qed

lemma blk_held_other:
  assumes st: "bst dv P H s" and b: "isbuf dv (bufs s) bn b"
    and s': "bufs s' = (bufs s)[b := x]" "disk s' bn' = disk s bn'" and u: "uniq (bufs s')"
    and x: "dev x = dv" "blockno x = bn" and ne: "bn' \<noteq> bn"
  shows "blk dv s' bn' = blk dv s bn'"
proof -
  have bl: "b < NBUF" "dev (bufs s ! b) = dv" "blockno (bufs s ! b) = bn" using b by (auto simp: isbuf_def)
  have I: "isbuf dv (bufs s') bn' i \<longleftrightarrow> isbuf dv (bufs s) bn' i" and J: "isbuf dv (bufs s) bn' i \<Longrightarrow> i \<noteq> b" for i
    using isbuf_upd_same [OF bstD(3) [OF st] bl(1), of x] x bl ne by (auto simp: s' isbuf_def)
  have D: "isbuf dv (bufs s) bn' i \<Longrightarrow> bufs s' ! i = bufs s ! i" for i
    using J [of i] by (simp add: s')
  show ?thesis
  proof (rule blk_eqI [OF u bstD(1) [OF st]], rule blk_cases [OF bstD(2,1) [OF st], of bn'])
    fix i assume i: "isbuf dv (bufs s) bn' i" "valid (bufs s ! i)" "blk dv s bn' = data (bufs s ! i)"
    then show "(\<exists>i. isbuf dv (bufs s') bn' i \<and> valid (bufs s' ! i) \<and> data (bufs s' ! i) = blk dv s bn') \<or>
      (\<forall>i. isbuf dv (bufs s') bn' i \<longrightarrow> \<not> valid (bufs s' ! i)) \<and> disk s' bn' = blk dv s bn'"
      using D [OF i(1)] I [of i] by (intro disjI1 exI [of _ i]) simp
  next
    assume n: "\<And>i. isbuf dv (bufs s) bn' i \<Longrightarrow> \<not> valid (bufs s ! i)" "blk dv s bn' = disk s bn'"
    have "\<not> valid (bufs s' ! i)" if "isbuf dv (bufs s') bn' i" for i
      using that n(1) [of i] I [of i] D [of i] by simp
    then show "(\<exists>i. isbuf dv (bufs s') bn' i \<and> valid (bufs s' ! i) \<and> data (bufs s' ! i) = blk dv s bn') \<or>
      (\<forall>i. isbuf dv (bufs s') bn' i \<longrightarrow> \<not> valid (bufs s' ! i)) \<and> disk s' bn' = blk dv s bn'"
      using n(2) s' by simp
  qed
qed

lemma bst_uniq: "bst dv P H s \<Longrightarrow> uniq (bufs s)"
  by (rule bstD(2))

text \<open>Storing into \<open>b->data\<close>.\<close>

lemma setdata_ok:
  assumes st: "bst dv P H s" and h: "bn \<in> H" and b: "isbuf dv (bufs s) bn b" and d: "length d = BSIZE"
    and s': "s' = s\<lparr>bufs := upd_buf b (data_update (\<lambda>_. d)) (bufs s)\<rparr>"
  shows "bst dv P H s' \<and> isbuf dv (bufs s') = isbuf dv (bufs s) \<and> blk dv s' = (blk dv s)(bn := d)"
proof -
  obtain pd where pd: "mypid s = Ok pd" using bst_pid [OF st] by blast
  note D = heldD [OF st h b pd]
  let ?x = "(bufs s ! b)\<lparr>data := d\<rparr>"
  have ok: "bufok dv pd P H (disk s) ?x"
    by (rule bufokI) (use bufokD [OF bst_bufok [OF st pd D(1)]] D d h in simp_all)
  have n: "bst dv P H s'" "isbuf dv (bufs s') = isbuf dv (bufs s)"
    by (rule bst_upd_held [OF st h b pd _ _ _ _ _ _ _ ok]; use s' D in simp)+
  have "blk dv s' bn = d"
    using blk_cached [OF bst_uniq [OF n(1)] bstD(1) [OF st], of bn b] n(2) b D(1,4) bstD(3) [OF st]
    by (simp add: s')
  moreover have "blk dv s' bn' = blk dv s bn'" if "bn' \<noteq> bn" for bn'
    by (rule blk_held_other [OF st b _ _ bst_uniq [OF n(1)], where x = ?x]) (use s' D that in simp_all)
  ultimately show ?thesis using n by (auto simp: fun_eq_iff)
qed

text \<open>\<open>bwrite\<close> makes the disk agree with the cache on a held block.\<close>

lemma bwrite_ok:
  assumes st: "bst dv P H s" and h: "bn \<in> H" and b: "isbuf dv (bufs s) bn b"
    and s': "s' = s\<lparr>disk := (disk s)(bn := blk dv s bn), dlog := (bn, blk dv s bn) # dlog s\<rparr>"
  shows "bwrite b s = Ok s' \<and> bst dv P H s' \<and> blk dv s' = blk dv s"
proof -
  obtain pd where pd: "mypid s = Ok pd" using bst_pid [OF st] by blast
  note D = heldD [OF st h b pd]
  have "bufok dv pd P H (disk s') (bufs s ! i)" if i: "i < NBUF" for i
  proof -
    note O = bufokD [OF bst_bufok [OF st pd i]]
    show ?thesis
    proof (rule bufokI)
      assume v: "valid (bufs s ! i)" and n: "\<not> (dev (bufs s ! i) = dv \<and> blockno (bufs s ! i) \<in> P \<union> H)"
      then have "blockno (bufs s ! i) \<noteq> bn" using O(2) h by auto
      then show "data (bufs s ! i) = disk s' (blockno (bufs s ! i))" using O(8) v n by (simp add: s')
    qed (use O in blast)+
  qed
  moreover have "length (disk s' bn') = BSIZE" for bn'
    using bstD(5) [OF st] blk_length [OF st] by (simp add: s')
  ultimately have n: "bst dv P H s'" using st pd by (simp add: bst_def s')
  have "blk dv s' bn' = blk dv s bn'" for bn'
  proof (rule blk_eqI)
    show "uniq (bufs s')" "dv \<noteq> 0" using bstD(2,1) [OF st] by (simp_all add: s')
    show "(\<exists>i. isbuf dv (bufs s') bn' i \<and> valid (bufs s' ! i) \<and> data (bufs s' ! i) = blk dv s bn') \<or>
      (\<forall>i. isbuf dv (bufs s') bn' i \<longrightarrow> \<not> valid (bufs s' ! i)) \<and> disk s' bn' = blk dv s bn'"
    proof (rule blk_cases [OF bstD(2,1) [OF st], of bn'])
      fix i assume "isbuf dv (bufs s) bn' i" "valid (bufs s ! i)" "blk dv s bn' = data (bufs s ! i)"
      then show ?thesis by (intro disjI1 exI [of _ i]) (simp add: s')
    next
      assume "\<And>i. isbuf dv (bufs s) bn' i \<Longrightarrow> \<not> valid (bufs s ! i)" "blk dv s bn' = disk s bn'"
      then show ?thesis by (intro disjI2) (auto simp: s')
    qed
  qed
  moreover have "bwrite b s = Ok s'"
    using pd D by (simp add: bwrite_def disk_rw_def Let_def s')
  ultimately show ?thesis using n by (simp add: fun_eq_iff)
qed

text \<open>Pinning and unpinning a held block.\<close>

lemma refcnt_upd_ok:
  assumes st: "bst dv P H s" and h: "bn \<in> H" and b: "isbuf dv (bufs s) bn b"
    and s': "s' = s\<lparr>bufs := upd_buf b (\<lambda>x. x\<lparr>refcnt := r\<rparr>) (bufs s)\<rparr>"
    and r: "r = 1 + of_bool (bn \<in> P')" and P: "P' - {bn} = P - {bn}"
  shows "bst dv P' H s' \<and> isbuf dv (bufs s') = isbuf dv (bufs s) \<and> blk dv s' = blk dv s"
proof -
  obtain pd where pd: "mypid s = Ok pd" using bst_pid [OF st] by blast
  note D = heldD [OF st h b pd]
  let ?x = "(bufs s ! b)\<lparr>refcnt := r\<rparr>"
  have ok: "bufok dv pd P' H (disk s) ?x"
    by (rule bufokI) (use bufokD(1-5,7) [OF bst_bufok [OF st pd D(1)]] D r h in simp_all)
  have n: "bst dv P' H s'" "isbuf dv (bufs s') = isbuf dv (bufs s)"
    by (rule bst_upd_held [OF st h b pd _ _ _ _ _ _ _ ok P]; use s' D in simp)+
  have "blk dv s' = blk dv s"
    by (rule blk_same_fields [OF bstD(2,1) [OF st] bst_uniq [OF n(1)]])
      (use s' D(1) bstD(3) [OF st] in \<open>auto simp: nth_list_update\<close>)
  then show ?thesis using n by blast
qed

lemma bpin_ok:
  assumes st: "bst dv P H s" and h: "bn \<in> H" and b: "isbuf dv (bufs s) bn b" and n: "bn \<notin> P"
  shows "bst dv (insert bn P) H (bpin b s) \<and> isbuf dv (bufs (bpin b s)) = isbuf dv (bufs s) \<and>
    blk dv (bpin b s) = blk dv s"
proof -
  obtain pd where pd: "mypid s = Ok pd" using bst_pid [OF st] by blast
  show ?thesis
    by (rule refcnt_upd_ok [OF st h b, where r = "refcnt (bufs s ! b) + 1"])
      (use heldD(8) [OF st h b pd] n in \<open>auto simp: bpin_def\<close>)
qed

lemma bunpin_ok:
  assumes st: "bst dv P H s" and h: "bn \<in> H" and b: "isbuf dv (bufs s) bn b" and n: "bn \<in> P"
  shows "bst dv (P - {bn}) H (bunpin b s) \<and> isbuf dv (bufs (bunpin b s)) = isbuf dv (bufs s) \<and>
    blk dv (bunpin b s) = blk dv s"
proof -
  obtain pd where pd: "mypid s = Ok pd" using bst_pid [OF st] by blast
  show ?thesis
    by (rule refcnt_upd_ok [OF st h b, where r = "refcnt (bufs s ! b) - 1"])
      (use heldD(8) [OF st h b pd] n in \<open>auto simp: bunpin_def\<close>)
qed

text \<open>\<open>brelse\<close> of a block that is pinned or agrees with the disk.\<close>

lemma wakeup_mypid [simp]: "mypid (wakeup ch s) = mypid s"
proof -
  have "pid (proc (wakeup ch s) ! p) = pid (proc s ! p)" if "p < length (proc s)" for p
    using that by (simp add: wakeup_def Let_def)
  then show ?thesis
    by (auto simp: mypid_def myproc_def split: option.splits) (simp_all add: wakeup_def)
qed

lemma wakeup_proc: "wakeup ch s = s\<lparr>proc := proc (wakeup ch s)\<rparr>"
  by (simp add: wakeup_def)

lemma brelse_ok:
  assumes st: "bst dv P H s" and h: "bn \<in> H" and b: "isbuf dv (bufs s) bn b"
    and clean: "bn \<in> P \<or> blk dv s bn = disk s bn"
  shows "\<exists>bs. brelse b s = Ok (s\<lparr>proc := proc (wakeup (Chan_buf_lock b) s), bufs := bs\<rparr>) \<and>
    bst dv P (H - {bn}) (s\<lparr>proc := proc (wakeup (Chan_buf_lock b) s), bufs := bs\<rparr>) \<and>
    isbuf dv bs = isbuf dv (bufs s) \<and>
    blk dv (s\<lparr>proc := proc (wakeup (Chan_buf_lock b) s), bufs := bs\<rparr>) = blk dv s"
proof -
  obtain pd where pd: "mypid s = Ok pd" using bst_pid [OF st] by blast
  note D = heldD [OF st h b pd] and len = bstD(3) [OF st]
  let ?w = "wakeup (Chan_buf_lock b) s"
  let ?x = "(bufs s ! b)\<lparr>block := \<lparr>slocked = False, spid = 0\<rparr>, refcnt := refcnt (bufs s ! b) - 1\<rparr>"
  let ?bs = "(bufs s)[b := ?x]"
  let ?s1 = "s\<lparr>proc := proc ?w, bufs := ?bs\<rparr>"
  have wm: "mypid (s\<lparr>proc := proc ?w\<rparr>) = mypid s"
    using wakeup_proc [of "Chan_buf_lock b" s] wakeup_mypid [of "Chan_buf_lock b" s] by simp
  have ok: "bufok dv pd P (H - {bn}) (disk s) ?x"
    by (rule bufokI) (use bufokD(1-3) [OF bst_bufok [OF st pd D(1)]] D clean in auto)
  have n: "bst dv P (H - {bn}) ?s1" "isbuf dv ?bs = isbuf dv (bufs s)"
    using bst_upd_held [OF st h b pd, of ?s1 ?x P "H - {bn}"] ok D wm by auto
  have bk: "blk dv ?s1 = blk dv s"
    by (rule blk_same_fields [OF bstD(2,1) [OF st] bst_uniq [OF n(1)]])
      (use D(1) len in \<open>auto simp: nth_list_update\<close>)
  have w1: "bufs ?w = bufs s" by (simp add: wakeup_def)
  have e: "brelse b s = Ok (s\<lparr>proc := proc ?w, bufs := (if refcnt ?x = 0 then to_front b ?bs else ?bs)\<rparr>)"
    using pd D(1,5) len w1 wakeup_proc [of "Chan_buf_lock b" s]
    by (simp add: brelse_def releasesleep_def Let_def)
  show ?thesis
  proof (cases "refcnt ?x = 0")
    case False
    then show ?thesis using e n bk by (intro exI [of _ ?bs]) simp
  next
    case True
    let ?f = "to_front b ?bs"
    let ?s2 = "s\<lparr>proc := proc ?w, bufs := ?f\<rparr>"
    obtain xs where r: "ring ?bs xs" using n(1) by (auto simp: bst_def)
    then have "b \<in> set xs" using D(1) by (simp add: ring_def)
    then obtain us vs where "xs = us @ b # vs" by (meson split_list)
    then have tf: "ring ?f (b # us @ vs)" "map core ?f = map core ?bs" using r to_front_ring by simp_all
    have lf: "length ?f = Suc NBUF" using tf(1) by (simp add: ring_def)
    have c: "core (?f ! i) = core (?bs ! i)" if "i < NBUF" for i
      using that len by (intro core_nth [OF tf(2)]) simp
    note cd = core_eqD [OF c]
    have bo: "bufok dv q P H' dk (?f ! i) = bufok dv q P H' dk (?bs ! i)" if "i < NBUF" for q H' dk i
      unfolding bufok_def cd [OF that] ..
    have iso: "isbuf dv' ?f = isbuf dv' ?bs" for dv' using cd(2,3) by (auto simp: isbuf_def fun_eq_iff)
    have u: "uniq ?f" using bst_uniq [OF n(1)] cd(2,3) unfolding uniq_def by simp
    have "bst dv P (H - {bn}) ?s2"
      using n(1) tf(1) u bo iso wm unfolding bst_def by auto
    moreover have "blk dv ?s2 = blk dv ?s1"
      by (rule blk_same_fields [OF _ bstD(1) [OF st]]) (use bst_uniq [OF n(1)] u cd in auto)
    ultimately show ?thesis using e True n(2) bk iso by (intro exI [of _ ?f]) simp
  qed
qed

section \<open>Boot\<close>

text \<open>\<open>binit\<close> links the buffers one by one at the front.\<close>

definition binit_step :: "buf list \<Rightarrow> nat \<Rightarrow> buf list" where
  "binit_step bs b = link_front b (upd_buf b (block_update (\<lambda>_. initsleeplock)) bs)"

lemma buf_upd_swap:
  "x\<lparr>nxt := n, prev := p, block := l\<rparr> = x\<lparr>block := l, nxt := n, prev := p\<rparr>" for x :: buf
  by simp

lemma binit_eq:
  assumes "length (bufs s) = Suc NBUF"
  shows "binit s = s\<lparr>bufs := foldl binit_step
    (upd_buf NBUF (\<lambda>h. h\<lparr>prev := NBUF, nxt := NBUF\<rparr>) (bufs s)) [0..<NBUF]\<rparr>"
proof -
  let ?f = "\<lambda>bs b. let bs = upd_buf b (\<lambda>x. x\<lparr>nxt := nxt (bs ! NBUF), prev := NBUF, block := initsleeplock\<rparr>) bs;
                 bs = upd_buf (nxt (bs ! NBUF)) (prev_update (\<lambda>_. b)) bs
             in upd_buf NBUF (nxt_update (\<lambda>_. b)) bs"
  have step: "?f bs b = binit_step bs b" if "length bs = Suc NBUF" "b < NBUF" for bs b
    using that by (simp add: binit_step_def link_front_def Let_def buf_upd_swap)
  have l: "length (binit_step bs b) = length bs" for bs b by (simp add: binit_step_def link_front_def)
  have "foldl ?f bs xs = foldl binit_step bs xs" if "length bs = Suc NBUF" "set xs \<subseteq> {..<NBUF}" for bs xs
    using that
  proof (induction xs arbitrary: bs)
    case (Cons x xs)
    then have "?f bs x = binit_step bs x" by (intro step) auto
    then show ?case using Cons.IH [of "binit_step bs x"] Cons.prems l by simp
  qed simp
  then have "foldl ?f (upd_buf NBUF (\<lambda>h. h\<lparr>prev := NBUF, nxt := NBUF\<rparr>) (bufs s)) [0..<NBUF] =
      foldl binit_step (upd_buf NBUF (\<lambda>h. h\<lparr>prev := NBUF, nxt := NBUF\<rparr>) (bufs s)) [0..<NBUF]"
    using assms by (simp add: atLeast0LessThan)
  then show ?thesis by (simp add: binit_def Let_def)
qed

lemma binit_steps:
  assumes "k \<le> NBUF" "length bs = Suc NBUF"
    and "bs' = foldl binit_step (upd_buf NBUF (\<lambda>h. h\<lparr>prev := NBUF, nxt := NBUF\<rparr>) bs) [0..<k]"
  shows "length bs' = Suc NBUF \<and> lseg bs' NBUF (rev [0..<k]) NBUF \<and>
    (\<forall>i<k. block (bs' ! i) = initsleeplock) \<and>
    (\<forall>i\<le>NBUF. dev (bs' ! i) = dev (bs ! i) \<and> blockno (bs' ! i) = blockno (bs ! i) \<and>
      valid (bs' ! i) = valid (bs ! i) \<and> refcnt (bs' ! i) = refcnt (bs ! i))"
  using assms
proof (induction k arbitrary: bs')
  case 0
  then show ?case by (auto simp: nth_list_update)
next
  case (Suc k)
  let ?b = "foldl binit_step (upd_buf NBUF (\<lambda>h. h\<lparr>prev := NBUF, nxt := NBUF\<rparr>) bs) [0..<k]"
  let ?c = "upd_buf k (block_update (\<lambda>_. initsleeplock)) ?b"
  have IH: "length ?b = Suc NBUF" "lseg ?b NBUF (rev [0..<k]) NBUF"
    "\<forall>i<k. block (?b ! i) = initsleeplock"
    "\<forall>i\<le>NBUF. dev (?b ! i) = dev (bs ! i) \<and> blockno (?b ! i) = blockno (bs ! i) \<and>
      valid (?b ! i) = valid (bs ! i) \<and> refcnt (?b ! i) = refcnt (bs ! i)"
    using Suc.IH [OF _ Suc.prems(2) refl] Suc.prems(1) by auto
  have bs': "bs' = link_front k ?c" using Suc.prems(3) binit_step_def [of ?b k] by simp
  have "lseg ?c NBUF (rev [0..<k]) NBUF = lseg ?b NBUF (rev [0..<k]) NBUF"
    using Suc.prems(1) IH(1) by (intro lseg_cong) (auto simp: nth_list_update)
  then have "lseg (link_front k ?c) NBUF (k # rev [0..<k]) NBUF"
    using IH Suc.prems(1) by (intro link_front_lseg) auto
  then have "lseg bs' NBUF (rev [0..<Suc k]) NBUF" using bs' by simp
  moreover have "length bs' = Suc NBUF" using IH(1) bs' by (simp add: link_front_def)
  moreover have c: "core (bs' ! i) = core (?c ! i)" if "i \<le> NBUF" for i
    unfolding bs' using that IH(1) by (intro core_nth core_link_front) simp
  have "\<forall>i<Suc k. block (bs' ! i) = initsleeplock"
    using core_eqD(4) [OF c] IH(1,3) Suc.prems(1) by (auto simp: nth_list_update less_Suc_eq)
  moreover have "dev (bs' ! i) = dev (bs ! i) \<and> blockno (bs' ! i) = blockno (bs ! i) \<and>
      valid (bs' ! i) = valid (bs ! i) \<and> refcnt (bs' ! i) = refcnt (bs ! i)" if "i \<le> NBUF" for i
    using core_eqD [OF c [OF that]] IH(1,4) that by (cases "i = k") simp_all
  ultimately show ?case by blast
qed

text \<open>The cache as it is in zero-initialised static storage.\<close>

definition blank :: "buf \<Rightarrow> bool" where
  "blank x \<longleftrightarrow> dev x = 0 \<and> \<not> valid x \<and> refcnt x = 0"

lemma binit_bst:
  assumes "length (bufs s) = Suc NBUF" "\<forall>x\<in>set (bufs s). blank x" "mypid s = Ok pd"
    "\<And>bn. length (disk s bn) = BSIZE" "dv \<noteq> 0"
  shows "bst dv {} {} (binit s) \<and> blk dv (binit s) = disk s"
proof -
  define bs where "bs = foldl binit_step (upd_buf NBUF (\<lambda>h. h\<lparr>prev := NBUF, nxt := NBUF\<rparr>) (bufs s)) [0..<NBUF]"
  have s': "binit s = s\<lparr>bufs := bs\<rparr>" using binit_eq [OF assms(1)] by (simp add: bs_def)
  note B = binit_steps [OF order_refl assms(1) bs_def]
  have z: "dev (bs ! i) = 0 \<and> \<not> valid (bs ! i) \<and> refcnt (bs ! i) = 0 \<and> block (bs ! i) = initsleeplock"
    if "i < NBUF" for i
  proof -
    have "blank (bufs s ! i)" using assms(1,2) that by simp
    then show ?thesis using B that by (auto simp: blank_def)
  qed
  have "ring bs (rev [0..<NBUF])" using B by (auto simp: ring_def)
  moreover have "uniq bs" using z by (simp add: uniq_def)
  moreover have "bufok dv pd {} {} (disk s) (bs ! i)" if "i < NBUF" for i
    using z [OF that] assms(5) by (intro bufokI) (auto simp: initsleeplock_def)
  ultimately have "bst dv {} {} (binit s)" using assms by (auto simp: bst_def s')
  moreover have "blk dv (binit s) bn = disk s bn" for bn
    using blk_uncached [of dv "binit s" bn] z by (auto simp: s' isbuf_def)
  ultimately show ?thesis by (simp add: fun_eq_iff)
qed

section \<open>Properties\<close>

text \<open>C19. Reading a block yields its current contents, whether it is cached or not and whichever
  buffer is recycled for it, and leaves the contents of every block as they were.\<close>

theorem bread_correct:
  assumes "bst dv P H s" and "bn \<notin> H" and "card (P \<union> H) < NBUF"
  shows "\<exists>b s'. bread dv bn s = Ok (b, s') \<and> data (bufs s' ! b) = blk dv s bn \<and>
    blk dv s' = blk dv s \<and> disk s' = disk s \<and> bst dv P (insert bn H) s' \<and> isbuf dv (bufs s') bn b"
proof -
  obtain b x where r: "bread dv bn s = Ok (b, s\<lparr>bufs := (bufs s)[b := x]\<rparr>)"
    "bst dv P (insert bn H) (s\<lparr>bufs := (bufs s)[b := x]\<rparr>)" "isbuf dv ((bufs s)[b := x]) bn b"
    "data x = blk dv s bn" "blk dv (s\<lparr>bufs := (bufs s)[b := x]\<rparr>) = blk dv s"
    using bread_ok [OF assms(1,2) disjI2 [OF assms(3)]] by blast
  have "(bufs s)[b := x] ! b = x" using r(3) bstD(3) [OF assms(1)] by (simp add: isbuf_def)
  then show ?thesis using r by (intro exI [of _ b] exI conjI) auto
qed

text \<open>A machine just booted, with one running process and a disk of zeroes.\<close>

definition blank_buf :: buf where
  "blank_buf = \<lparr>valid = False, dev = 0, blockno = 0, block = initsleeplock, refcnt = 0, prev = 0,
     nxt = 0, data = replicate BSIZE 0\<rparr>"

definition some_proc :: proc where
  "some_proc = \<lparr>pstate = RUNNING, chan = None, killed = 0, xstate = 0, pid = 1, parent = None,
     kstack = 0, sz = 0, pagetable = 0, trapframe = 0,
     pcontext = \<lparr>ra = 0, sp = 0, sregs = replicate 12 0\<rparr>, ofile = replicate NOFILE None,
     cwd = None, pname = replicate 16 0\<rparr>"

definition bio_demo :: bcache where
  "bio_demo = binit \<lparr>phys = (\<lambda>_. 0), kend = 0, freelist = 0, proc = [some_proc], nextpid = 2,
     initproc = Some 0, cpu_proc = Some 0, tramp = 0, bufs = replicate (Suc NBUF) blank_buf,
     disk = (\<lambda>_. replicate BSIZE 0), dlog = []\<rparr>"

lemma bio_demo_bst: "bst 1 {} {} bio_demo \<and> blk 1 bio_demo = (\<lambda>_. replicate BSIZE 0)"
proof -
  let ?s = "\<lparr>phys = (\<lambda>_. 0), kend = 0, freelist = 0, proc = [some_proc], nextpid = 2,
     initproc = Some 0, cpu_proc = Some 0, tramp = 0, bufs = replicate (Suc NBUF) blank_buf,
     disk = (\<lambda>_. replicate BSIZE 0), dlog = []\<rparr> :: bcache"
  have "bst 1 {} {} (binit ?s) \<and> blk 1 (binit ?s) = disk ?s"
    by (rule binit_bst [where pd = 1])
      (auto simp: blank_def blank_buf_def mypid_def myproc_def some_proc_def)
  then show ?thesis by (simp add: bio_demo_def)
qed

theorem bread_correct_witness:
  "\<exists>b s'. bread 1 7 bio_demo = Ok (b, s') \<and> data (bufs s' ! b) = replicate BSIZE 0"
proof -
  have "\<exists>b s'. bread 1 7 bio_demo = Ok (b, s') \<and> data (bufs s' ! b) = blk 1 bio_demo 7 \<and>
    blk 1 s' = blk 1 bio_demo \<and> disk s' = disk bio_demo \<and> bst 1 {} (insert 7 {}) s' \<and>
    isbuf 1 (bufs s') 7 b"
    by (rule bread_correct) (use bio_demo_bst in \<open>auto simp: params\<close>)
  then show ?thesis using bio_demo_bst by auto
qed

text \<open>C20. When a block is not cached, \<open>bget\<close> takes the least recently used buffer that no one
  refers to, and panics exactly when there is none.\<close>

theorem bget_lru:
  assumes "ring (bufs s) xs" and "mypid s = Ok pd"
    and "\<forall>i\<in>set xs. \<not> (dev (bufs s ! i) = dv \<and> blockno (bufs s ! i) = bn)"
    and "\<forall>i\<in>set xs. refcnt (bufs s ! i) = 0 \<longrightarrow> \<not> slocked (block (bufs s ! i))"
  shows "bget dv bn s =
    (case find (\<lambda>i. refcnt (bufs s ! i) = 0) (rev xs) of
       None \<Rightarrow> Panic ''bget: no buffers''
     | Some b \<Rightarrow> Ok (b, s\<lparr>bufs := (bufs s)[b := (bufs s ! b)\<lparr>dev := dv, blockno := bn,
         valid := False, refcnt := 1, block := \<lparr>slocked = True, spid = pd\<rparr>\<rparr>]\<rparr>))"
proof -
  have xs: "length xs = NBUF" "NBUF \<notin> set xs" "lseg (bufs s) NBUF xs NBUF" "set xs = {..<NBUF}"
    "length (bufs s) = Suc NBUF"
    using assms(1) distinct_card [of xs] by (auto simp: ring_def)
  have n: "scan NBUF nxt (\<lambda>x. dev x = dv \<and> blockno x = bn) (bufs s) (nxt (bufs s ! NBUF)) = Ok None"
    using scan_nxt [OF xs(3,2)] xs(1) assms(3) by (auto simp: find_None_iff)
  have p: "scan NBUF prev (\<lambda>x. refcnt x = 0) (bufs s) (prev (bufs s ! NBUF)) =
      Ok (find (\<lambda>i. refcnt (bufs s ! i) = 0) (rev xs))"
    using scan_prev [OF xs(3,2)] xs(1) by simp
  show ?thesis
  proof (cases "find (\<lambda>i. refcnt (bufs s ! i) = 0) (rev xs)")
    case None
    then show ?thesis using n p by (simp add: bget_def)
  next
    case (Some b)
    then have "b \<in> set (rev xs) \<and> refcnt (bufs s ! b) = 0" by (rule find_SomeD)
    then have "b < NBUF" "\<not> slocked (block (bufs s ! b))" using assms(4) xs(4) by auto
    then show ?thesis using n p Some assms(2) xs(5)
      by (simp add: bget_def block_buf_def acquiresleep_def)
  qed
qed

theorem bget_lru_witness:
  "\<exists>b. bget 1 7 bio_demo = Ok (b, bio_demo\<lparr>bufs := (bufs bio_demo)[b := (bufs bio_demo ! b)\<lparr>dev := 1,
     blockno := 7, valid := False, refcnt := 1, block := \<lparr>slocked = True, spid = 1\<rparr>\<rparr>]\<rparr>)"
proof -
  note st = conjunct1 [OF bio_demo_bst]
  have pd: "mypid bio_demo = Ok 1"
    unfolding bio_demo_def by (simp add: binit_def Let_def mypid_def myproc_def some_proc_def)
  obtain xs where xs: "ring (bufs bio_demo) xs" using st by (auto simp: bst_def)
  have set: "set xs = {..<NBUF}" using xs by (simp add: ring_def)
  have r0: "refcnt (bufs bio_demo ! i) = 0 \<and> \<not> slocked (block (bufs bio_demo ! i))
      \<and> \<not> (dev (bufs bio_demo ! i) = 1 \<and> blockno (bufs bio_demo ! i) = 7)" if "i \<in> set xs" for i
  proof -
    have "bufok 1 1 {} {} (disk bio_demo) (bufs bio_demo ! i)"
      using bst_bufok [OF st pd] that set by simp
    moreover have "dev (bufs bio_demo ! i) = 0"
    proof -
      let ?bs = "replicate (Suc NBUF) blank_buf"
      have l: "length ?bs = Suc NBUF" by simp
      have "bufs bio_demo = foldl binit_step (upd_buf NBUF (\<lambda>h. h\<lparr>prev := NBUF, nxt := NBUF\<rparr>) ?bs) [0..<NBUF]"
        unfolding bio_demo_def by (subst binit_eq) simp_all
      from binit_steps [OF order_refl l this] show ?thesis
        using that set by (simp add: blank_buf_def nth_replicate del: replicate_Suc)
    qed
    ultimately show ?thesis using bufokD(4,6) by fastforce
  qed
  have "find (\<lambda>i. refcnt (bufs bio_demo ! i) = 0) (rev xs) \<noteq> None"
  proof -
    have "0 \<in> set xs" using set by (simp add: params)
    then show ?thesis using r0 [of 0] unfolding find_None_iff by auto
  qed
  then obtain b where b: "find (\<lambda>i. refcnt (bufs bio_demo ! i) = 0) (rev xs) = Some b" by blast
  have "bget 1 7 bio_demo =
    (case find (\<lambda>i. refcnt (bufs bio_demo ! i) = 0) (rev xs) of
       None \<Rightarrow> Panic ''bget: no buffers''
     | Some b \<Rightarrow> Ok (b, bio_demo\<lparr>bufs := (bufs bio_demo)[b := (bufs bio_demo ! b)\<lparr>dev := 1, blockno := 7,
         valid := False, refcnt := 1, block := \<lparr>slocked = True, spid = 1\<rparr>\<rparr>]\<rparr>))"
    by (rule bget_lru [OF xs pd]) (use r0 in auto)
  then show ?thesis using b by auto
qed

end
