(* ===== verification/Log.thy ===== *)
theory Log
  imports Bio_Cache
begin

text \<open>
  The redo log, \<^verbatim>\<open>kernel/log.c\<close>.  A transaction's blocks are modified in the cache and pinned
  there; when the last outstanding operation ends, \<open>commit\<close> copies them to the log area of the
  disk, writes the header block, installs them in place and clears the header.  This theory
  has the definitions; \<open>Log_Crash\<close> proves that a crash at any point leaves either none or all
  of the transaction after recovery.
\<close>

section \<open>Words in a block\<close>

definition get32 :: "byte list \<Rightarrow> nat \<Rightarrow> uint" where
  "get32 bs off = of_le (take 4 (drop off bs))"

text \<open>Overwriting bytes of a buffer from offset \<open>off\<close> on.\<close>

definition poke :: "nat \<Rightarrow> byte list \<Rightarrow> byte list \<Rightarrow> byte list" where
  "poke off bs d = take off d @ bs @ drop (off + length bs) d"

definition put32 :: "nat \<Rightarrow> uint \<Rightarrow> byte list \<Rightarrow> byte list" where
  "put32 off v d = poke off (le_bytes 4 v) d"

section \<open>State\<close>

text \<open>\<open>struct superblock\<close> of \<^verbatim>\<open>kernel/fs.h\<close>.\<close>

record superblock =
  magic :: uint
  fssize :: uint
  nblocks :: uint
  ninodes :: uint
  nlog :: uint
  logstart :: uint
  inodestart :: uint
  bmapstart :: uint

text \<open>\<open>struct log\<close> with its \<open>struct logheader lh\<close> (\<open>lhn\<close>, \<open>lhblock\<close>).\<close>

record log =
  lstart :: uint
  lsize :: int
  outstanding :: int
  committing :: bool
  ldev :: uint
  lhn :: int
  lhblock :: "uint list"

record logst = bcache +
  log :: log

section \<open>Writing and reading the log\<close>

definition set_data :: "nat \<Rightarrow> byte list \<Rightarrow> 'z bcache_scheme \<Rightarrow> 'z bcache_scheme" where
  "set_data b d s = s\<lparr>bufs := upd_buf b (data_update (\<lambda>_. d)) (bufs s)\<rparr>"

text \<open>The body of the loop of \<open>install_trans\<close>.\<close>

definition install_block :: "bool \<Rightarrow> nat \<Rightarrow> 'z logst_scheme \<Rightarrow> 'z logst_scheme res" where
  "install_block recovering tail s =
     bindR (bread (ldev (log s)) (lstart (log s) + of_nat tail + 1) s) (\<lambda>(lbuf, s).
     bindR (bread (ldev (log s)) (lhblock (log s) ! tail) s) (\<lambda>(dbuf, s).
     bindR (bwrite dbuf (set_data dbuf (data (bufs s ! lbuf)) s)) (\<lambda>s.
     let s = (if recovering then s else bunpin dbuf s)
     in bindR (brelse lbuf s) (\<lambda>s. brelse dbuf s))))"

definition install_trans :: "bool \<Rightarrow> 'z logst_scheme \<Rightarrow> 'z logst_scheme res" where
  "install_trans recovering s = foldR (install_block recovering) [0..<nat (lhn (log s))] s"

definition read_head :: "'z logst_scheme \<Rightarrow> 'z logst_scheme res" where
  "read_head s =
     bindR (bread (ldev (log s)) (lstart (log s)) s) (\<lambda>(b, s).
     let d = data (bufs s ! b);
         n = sint (get32 d 0);
         s = s\<lparr>log := (log s)\<lparr>lhn := n,
               lhblock := foldl (\<lambda>bl i. bl[i := get32 d (4 + 4 * i)]) (lhblock (log s)) [0..<nat n]\<rparr>\<rparr>
     in brelse b s)"

definition write_head :: "'z logst_scheme \<Rightarrow> 'z logst_scheme res" where
  "write_head s =
     bindR (bread (ldev (log s)) (lstart (log s)) s) (\<lambda>(b, s).
     let hb = put32 0 (word_of_int (lhn (log s))) (data (bufs s ! b));
         hb = foldl (\<lambda>hb i. put32 (4 + 4 * i) (lhblock (log s) ! i) hb) hb [0..<nat (lhn (log s))]
     in bindR (bwrite b (set_data b hb s)) (\<lambda>s. brelse b s))"

definition recover_from_log :: "'z logst_scheme \<Rightarrow> 'z logst_scheme res" where
  "recover_from_log s =
     bindR (read_head s) (\<lambda>s.
     bindR (install_trans True s) (\<lambda>s.
     write_head (s\<lparr>log := (log s)\<lparr>lhn := 0\<rparr>\<rparr>)))"

text \<open>\<open>sizeof(struct logheader)\<close> is \<open>4 + 4 * LOGSIZE\<close>.\<close>

definition initlog :: "uint \<Rightarrow> superblock \<Rightarrow> 'z logst_scheme \<Rightarrow> 'z logst_scheme res" where
  "initlog dv sb s =
     (if 4 + 4 * LOGSIZE \<ge> BSIZE then Panic ''initlog: too big logheader''
      else recover_from_log (s\<lparr>log := (log s)\<lparr>lstart := logstart sb, lsize := sint (nlog sb),
             ldev := dv\<rparr>\<rparr>))"

section \<open>Operations and commit\<close>

definition begin_op :: "'z logst_scheme \<Rightarrow> 'z logst_scheme res" where
  "begin_op s =
     (if committing (log s) then Blocked
      else if lhn (log s) + (outstanding (log s) + 1) * int MAXOPBLOCKS > int LOGSIZE then Blocked
      else Ok (s\<lparr>log := (log s)\<lparr>outstanding := outstanding (log s) + 1\<rparr>\<rparr>))"

text \<open>The body of the loop of \<open>write_log\<close>.\<close>

definition log_block :: "nat \<Rightarrow> 'z logst_scheme \<Rightarrow> 'z logst_scheme res" where
  "log_block tail s =
     bindR (bread (ldev (log s)) (lstart (log s) + of_nat tail + 1) s) (\<lambda>(to, s).
     bindR (bread (ldev (log s)) (lhblock (log s) ! tail) s) (\<lambda>(from, s).
     bindR (bwrite to (set_data to (data (bufs s ! from)) s)) (\<lambda>s.
     bindR (brelse from s) (\<lambda>s. brelse to s))))"

definition write_log :: "'z logst_scheme \<Rightarrow> 'z logst_scheme res" where
  "write_log s = foldR log_block [0..<nat (lhn (log s))] s"

definition commit :: "'z logst_scheme \<Rightarrow> 'z logst_scheme res" where
  "commit s =
     (if lhn (log s) > 0
      then bindR (write_log s) (\<lambda>s.
           bindR (write_head s) (\<lambda>s.
           bindR (install_trans False s) (\<lambda>s.
           write_head (s\<lparr>log := (log s)\<lparr>lhn := 0\<rparr>\<rparr>))))
      else Ok s)"

definition end_op :: "'z logst_scheme \<Rightarrow> 'z logst_scheme res" where
  "end_op s =
     (let s = s\<lparr>log := (log s)\<lparr>outstanding := outstanding (log s) - 1\<rparr>\<rparr>
      in if committing (log s) then Panic ''log.committing''
         else if outstanding (log s) = 0
         then bindR (commit (s\<lparr>log := (log s)\<lparr>committing := True\<rparr>\<rparr>)) (\<lambda>s.
                Ok (wakeup Chan_log (s\<lparr>log := (log s)\<lparr>committing := False\<rparr>\<rparr>)))
         else Ok (wakeup Chan_log s))"

text \<open>The search for log absorption: the first \<open>i < n\<close> with \<open>block[i] = bn\<close>, or \<open>n\<close>.\<close>

fun absorb :: "uint \<Rightarrow> uint list \<Rightarrow> nat \<Rightarrow> nat \<Rightarrow> nat" where
  "absorb bn bl i 0 = i"
| "absorb bn bl i (Suc k) = (if bl ! i = bn then i else absorb bn bl (Suc i) k)"

definition log_write :: "nat \<Rightarrow> 'z logst_scheme \<Rightarrow> 'z logst_scheme res" where
  "log_write b s =
     (if lhn (log s) \<ge> int LOGSIZE \<or> lhn (log s) \<ge> lsize (log s) - 1
      then Panic ''too big a transaction''
      else if outstanding (log s) < 1 then Panic ''log_write outside of trans''
      else let i = absorb (blockno (bufs s ! b)) (lhblock (log s)) 0 (nat (lhn (log s)));
               s = s\<lparr>log := (log s)\<lparr>lhblock := (lhblock (log s))[i := blockno (bufs s ! b)]\<rparr>\<rparr>
           in if int i = lhn (log s)
              then let s = bpin b s in Ok (s\<lparr>log := (log s)\<lparr>lhn := lhn (log s) + 1\<rparr>\<rparr>)
              else Ok s)"

end
