(* ===== verification/Fs.thy ===== *)
theory Fs
  imports Log
begin

text \<open>
  The file system, \<^verbatim>\<open>kernel/fs.c\<close> with the formats of \<^verbatim>\<open>kernel/fs.h\<close> and \<^verbatim>\<open>kernel/file.h\<close>:
  the block allocator, the inode table, file contents, directories and path names.  Every
  function of \<open>fs.c\<close> is here.  An inode pointer is an index of the inode table; a null pointer
  is \<open>None\<close> in the results that can be null.  A C string is the list of its bytes before the
  terminating zero.
\<close>

section \<open>On-disk format\<close>

definition ROOTINO :: nat where [params]: "ROOTINO = 1"
definition FSMAGIC :: uint where "FSMAGIC = 0x10203040"
definition NDIRECT :: nat where [params]: "NDIRECT = 12"
definition NINDIRECT :: nat where [params]: "NINDIRECT = 256"
definition MAXFILE :: nat where [params]: "MAXFILE = NDIRECT + NINDIRECT"
definition IPB :: nat where [params]: "IPB = 16"
definition BPB :: nat where [params]: "BPB = 8192"
definition DIRSIZ :: nat where [params]: "DIRSIZ = 14"
definition T_DIR :: ushort where "T_DIR = 1"
definition T_FILE :: ushort where "T_FILE = 2"
definition T_DEVICE :: ushort where "T_DEVICE = 3"

definition IBLOCK :: "nat \<Rightarrow> superblock \<Rightarrow> uint" where
  "IBLOCK i b = of_nat (i div IPB) + inodestart b"

definition BBLOCK :: "nat \<Rightarrow> superblock \<Rightarrow> uint" where
  "BBLOCK b sb = of_nat (b div BPB) + bmapstart sb"

text \<open>\<open>struct dinode\<close>: 64 bytes, the four shorts, the size and \<open>NDIRECT + 1\<close> addresses.\<close>

record dinode =
  dtype :: ushort
  dmajor :: ushort
  dminor :: ushort
  dnlink :: ushort
  dsize :: uint
  daddrs :: "uint list"

definition get16 :: "byte list \<Rightarrow> nat \<Rightarrow> ushort" where
  "get16 bs off = of_le (take 2 (drop off bs))"

definition get_dinode :: "byte list \<Rightarrow> nat \<Rightarrow> dinode" where
  "get_dinode d off =
     \<lparr>dtype = get16 d off, dmajor = get16 d (off + 2), dminor = get16 d (off + 4),
      dnlink = get16 d (off + 6), dsize = get32 d (off + 8),
      daddrs = map (\<lambda>i. get32 d (off + 12 + 4 * i)) [0..<NDIRECT + 1]\<rparr>"

definition dinode_bytes :: "dinode \<Rightarrow> byte list" where
  "dinode_bytes di =
     le_bytes 2 (dtype di) @ le_bytes 2 (dmajor di) @ le_bytes 2 (dminor di) @
     le_bytes 2 (dnlink di) @ le_bytes 4 (dsize di) @ concat (map (le_bytes 4) (daddrs di))"

text \<open>The byte offset of inode \<open>i\<close> in its block: \<open>(struct dinode* )bp->data + i % IPB\<close>.\<close>

definition inode_off :: "nat \<Rightarrow> nat" where
  "inode_off i = 64 * (i mod IPB)"

text \<open>\<open>struct inode\<close> and the globals of \<open>fs.c\<close>.\<close>

record inode =
  idev :: uint
  inum :: uint
  ref :: int
  ilk :: sleeplock
  ivalid :: bool
  itype :: ushort
  major :: ushort
  minor :: ushort
  nlink :: ushort
  isize :: uint
  addrs :: "uint list"

record fsst = logst +
  sb :: superblock
  itable :: "inode list"

abbreviation upd_inode :: "nat \<Rightarrow> (inode \<Rightarrow> inode) \<Rightarrow> 'z fsst_scheme \<Rightarrow> 'z fsst_scheme" where
  "upd_inode i f s \<equiv> s\<lparr>itable := (itable s)[i := f (itable s ! i)]\<rparr>"

section \<open>Super block and block allocator\<close>

definition superblock_of :: "byte list \<Rightarrow> superblock" where
  "superblock_of d =
     \<lparr>magic = get32 d 0, fssize = get32 d 4, nblocks = get32 d 8, ninodes = get32 d 12,
      nlog = get32 d 16, logstart = get32 d 20, inodestart = get32 d 24, bmapstart = get32 d 28\<rparr>"

definition readsb :: "uint \<Rightarrow> 'z fsst_scheme \<Rightarrow> 'z fsst_scheme res" where
  "readsb dv s =
     bindR (bread dv 1 s) (\<lambda>(bp, s). brelse bp (s\<lparr>sb := superblock_of (data (bufs s ! bp))\<rparr>))"

definition fsinit :: "uint \<Rightarrow> 'z fsst_scheme \<Rightarrow> 'z fsst_scheme res" where
  "fsinit dv s =
     bindR (readsb dv s) (\<lambda>s.
       if magic (sb s) \<noteq> FSMAGIC then Panic ''invalid file system''
       else initlog dv (sb s) s)"

definition bzero :: "uint \<Rightarrow> uint \<Rightarrow> 'z fsst_scheme \<Rightarrow> 'z fsst_scheme res" where
  "bzero dv bno s =
     bindR (bread dv bno s) (\<lambda>(bp, s).
     bindR (log_write bp (set_data bp (replicate BSIZE 0) s)) (\<lambda>s.
     brelse bp s))"

text \<open>The values \<open>0, k, 2 k, ...\<close> below \<open>n\<close> that a loop \<open>for(i = 0; i < n; i += k)\<close> runs through.\<close>

definition strides :: "nat \<Rightarrow> nat \<Rightarrow> nat list" where
  "strides k n = map (\<lambda>i. i * k) [0..<(n + k - 1) div k]"

definition bit_free :: "byte list \<Rightarrow> nat \<Rightarrow> bool" where
  "bit_free d bi \<longleftrightarrow> d ! (bi div 8) AND push_bit (bi mod 8) 1 = 0"

primrec balloc_loop :: "uint \<Rightarrow> nat list \<Rightarrow> 'z fsst_scheme \<Rightarrow> (uint \<times> 'z fsst_scheme) res" where
  "balloc_loop dv [] s = Panic ''balloc: out of blocks''"
| "balloc_loop dv (b # bs) s =
     bindR (bread dv (BBLOCK b (sb s)) s) (\<lambda>(bp, s).
     let d = data (bufs s ! bp)
     in case find (bit_free d) [0..<min BPB (unat (fssize (sb s)) - b)] of
       Some bi \<Rightarrow>
         let d = d[bi div 8 := d ! (bi div 8) OR push_bit (bi mod 8) 1]
         in bindR (log_write bp (set_data bp d s)) (\<lambda>s.
            bindR (brelse bp s) (\<lambda>s.
            bindR (bzero dv (of_nat (b + bi)) s) (\<lambda>s. Ok (of_nat (b + bi), s))))
     | None \<Rightarrow> bindR (brelse bp s) (balloc_loop dv bs))"

definition balloc :: "uint \<Rightarrow> 'z fsst_scheme \<Rightarrow> (uint \<times> 'z fsst_scheme) res" where
  "balloc dv s = balloc_loop dv (strides BPB (unat (fssize (sb s)))) s"

definition bfree :: "uint \<Rightarrow> uint \<Rightarrow> 'z fsst_scheme \<Rightarrow> 'z fsst_scheme res" where
  "bfree dv b s =
     bindR (bread dv (BBLOCK (unat b) (sb s)) s) (\<lambda>(bp, s).
     let bi = unat b mod BPB;
         d = data (bufs s ! bp)
     in if bit_free d bi then Panic ''freeing free block''
        else bindR (log_write bp (set_data bp
               (d[bi div 8 := d ! (bi div 8) AND NOT (push_bit (bi mod 8) 1)]) s)) (\<lambda>s.
             brelse bp s))"

section \<open>The inode table\<close>

definition iinit :: "'z fsst_scheme \<Rightarrow> 'z fsst_scheme" where
  "iinit s = s\<lparr>itable := map (ilk_update (\<lambda>_. initsleeplock)) (itable s)\<rparr>"

text \<open>The scan of \<open>iget\<close>: the matching entry, or else the first unused one seen.\<close>

fun iget_scan :: "uint \<Rightarrow> uint \<Rightarrow> inode list \<Rightarrow> nat \<Rightarrow> nat option \<Rightarrow> nat option \<times> nat option" where
  "iget_scan dv im [] i emp = (None, emp)"
| "iget_scan dv im (ip # ips) i emp =
     (if ref ip > 0 \<and> idev ip = dv \<and> inum ip = im then (Some i, emp)
      else iget_scan dv im ips (Suc i) (if emp = None \<and> ref ip = 0 then Some i else emp))"

definition iget :: "uint \<Rightarrow> uint \<Rightarrow> 'z fsst_scheme \<Rightarrow> (nat \<times> 'z fsst_scheme) res" where
  "iget dv im s =
     (case iget_scan dv im (itable s) 0 None of
        (Some ip, _) \<Rightarrow> Ok (ip, upd_inode ip (\<lambda>x. x\<lparr>ref := ref x + 1\<rparr>) s)
      | (None, None) \<Rightarrow> Panic ''iget: no inodes''
      | (None, Some ip) \<Rightarrow>
          Ok (ip, upd_inode ip (\<lambda>x. x\<lparr>idev := dv, inum := im, ref := 1, ivalid := False\<rparr>) s))"

primrec ialloc_loop :: "uint \<Rightarrow> ushort \<Rightarrow> nat list \<Rightarrow> 'z fsst_scheme \<Rightarrow> (nat \<times> 'z fsst_scheme) res" where
  "ialloc_loop dv ty [] s = Panic ''ialloc: no inodes''"
| "ialloc_loop dv ty (im # ims) s =
     bindR (bread dv (IBLOCK im (sb s)) s) (\<lambda>(bp, s).
     let d = data (bufs s ! bp)
     in if get16 d (inode_off im) = 0
        then let d = poke (inode_off im) (replicate 64 0) d;
                 d = poke (inode_off im) (le_bytes 2 ty) d
             in bindR (log_write bp (set_data bp d s)) (\<lambda>s.
                bindR (brelse bp s) (\<lambda>s. iget dv (of_nat im) s))
        else bindR (brelse bp s) (ialloc_loop dv ty ims))"

definition ialloc :: "uint \<Rightarrow> ushort \<Rightarrow> 'z fsst_scheme \<Rightarrow> (nat \<times> 'z fsst_scheme) res" where
  "ialloc dv ty s = ialloc_loop dv ty [1..<unat (ninodes (sb s))] s"

definition iupdate :: "nat \<Rightarrow> 'z fsst_scheme \<Rightarrow> 'z fsst_scheme res" where
  "iupdate ip s =
     (let im = unat (inum (itable s ! ip))
      in bindR (bread (idev (itable s ! ip)) (IBLOCK im (sb s)) s) (\<lambda>(bp, s).
         let i = itable s ! ip;
             di = \<lparr>dtype = itype i, dmajor = major i, dminor = minor i, dnlink = nlink i,
                   dsize = isize i, daddrs = addrs i\<rparr>;
             d = poke (inode_off im) (dinode_bytes di) (data (bufs s ! bp))
         in bindR (log_write bp (set_data bp d s)) (\<lambda>s. brelse bp s)))"

definition idup :: "nat \<Rightarrow> 'z fsst_scheme \<Rightarrow> 'z fsst_scheme" where
  "idup ip s = upd_inode ip (\<lambda>x. x\<lparr>ref := ref x + 1\<rparr>) s"

definition ilock :: "nat \<Rightarrow> 'z fsst_scheme \<Rightarrow> 'z fsst_scheme res" where
  "ilock ip s =
     (if ref (itable s ! ip) < 1 then Panic ''ilock''
      else bindR (mypid s) (\<lambda>pd.
           bindR (acquiresleep pd (ilk (itable s ! ip))) (\<lambda>lk.
           let s = upd_inode ip (ilk_update (\<lambda>_. lk)) s
           in if ivalid (itable s ! ip) then Ok s
              else let im = unat (inum (itable s ! ip))
                   in bindR (bread (idev (itable s ! ip)) (IBLOCK im (sb s)) s) (\<lambda>(bp, s).
                      let di = get_dinode (data (bufs s ! bp)) (inode_off im);
                          s = upd_inode ip (\<lambda>x. x\<lparr>itype := dtype di, major := dmajor di,
                                minor := dminor di, nlink := dnlink di, isize := dsize di,
                                addrs := daddrs di\<rparr>) s
                      in bindR (brelse bp s) (\<lambda>s.
                         let s = upd_inode ip (ivalid_update (\<lambda>_. True)) s
                         in if itype (itable s ! ip) = 0 then Panic ''ilock: no type'' else Ok s)))))"

definition iunlock :: "nat \<Rightarrow> 'z fsst_scheme \<Rightarrow> 'z fsst_scheme res" where
  "iunlock ip s =
     bindR (mypid s) (\<lambda>pd.
       if \<not> holdingsleep (ilk (itable s ! ip)) pd \<or> ref (itable s ! ip) < 1
       then Panic ''iunlock''
       else case releasesleep (Chan_inode_lock ip) (ilk (itable s ! ip)) s of (lk, s) \<Rightarrow>
         Ok (upd_inode ip (ilk_update (\<lambda>_. lk)) s))"

section \<open>Inode content\<close>

definition bmap :: "nat \<Rightarrow> nat \<Rightarrow> 'z fsst_scheme \<Rightarrow> (uint \<times> 'z fsst_scheme) res" where
  "bmap ip bn s =
     (let dv = idev (itable s ! ip)
      in if bn < NDIRECT
         then if addrs (itable s ! ip) ! bn = 0
              then bindR (balloc dv s) (\<lambda>(addr, s).
                Ok (addr, upd_inode ip (\<lambda>x. x\<lparr>addrs := (addrs x)[bn := addr]\<rparr>) s))
              else Ok (addrs (itable s ! ip) ! bn, s)
         else let bn = bn - NDIRECT
         in if bn < NINDIRECT
            then bindR (if addrs (itable s ! ip) ! NDIRECT = 0
                        then bindR (balloc dv s) (\<lambda>(addr, s).
                          Ok (addr, upd_inode ip (\<lambda>x. x\<lparr>addrs := (addrs x)[NDIRECT := addr]\<rparr>) s))
                        else Ok (addrs (itable s ! ip) ! NDIRECT, s)) (\<lambda>(addr, s).
                 bindR (bread dv addr s) (\<lambda>(bp, s).
                 let addr = get32 (data (bufs s ! bp)) (4 * bn)
                 in if addr = 0
                    then bindR (balloc dv s) (\<lambda>(addr, s).
                         bindR (log_write bp
                           (set_data bp (put32 (4 * bn) addr (data (bufs s ! bp))) s)) (\<lambda>s.
                         bindR (brelse bp s) (\<lambda>s. Ok (addr, s))))
                    else bindR (brelse bp s) (\<lambda>s. Ok (addr, s))))
            else Panic ''bmap: out of range'')"

definition itrunc :: "nat \<Rightarrow> 'z fsst_scheme \<Rightarrow> 'z fsst_scheme res" where
  "itrunc ip s =
     (let dv = idev (itable s ! ip)
      in bindR (foldR (\<lambda>i s. if addrs (itable s ! ip) ! i \<noteq> 0
                  then bindR (bfree dv (addrs (itable s ! ip) ! i) s) (\<lambda>s.
                    Ok (upd_inode ip (\<lambda>x. x\<lparr>addrs := (addrs x)[i := 0]\<rparr>) s))
                  else Ok s) [0..<NDIRECT] s) (\<lambda>s.
         bindR (if addrs (itable s ! ip) ! NDIRECT \<noteq> 0
                then bindR (bread dv (addrs (itable s ! ip) ! NDIRECT) s) (\<lambda>(bp, s).
                     bindR (foldR (\<lambda>j s. let a = get32 (data (bufs s ! bp)) (4 * j)
                         in if a \<noteq> 0 then bfree dv a s else Ok s) [0..<NINDIRECT] s) (\<lambda>s.
                     bindR (brelse bp s) (\<lambda>s.
                     bindR (bfree dv (addrs (itable s ! ip) ! NDIRECT) s) (\<lambda>s.
                     Ok (upd_inode ip (\<lambda>x. x\<lparr>addrs := (addrs x)[NDIRECT := 0]\<rparr>) s)))))
                else Ok s) (\<lambda>s.
         iupdate ip (upd_inode ip (isize_update (\<lambda>_. 0)) s))))"

definition iput :: "nat \<Rightarrow> 'z fsst_scheme \<Rightarrow> 'z fsst_scheme res" where
  "iput ip s =
     bindR (if ref (itable s ! ip) = 1 \<and> ivalid (itable s ! ip) \<and> nlink (itable s ! ip) = 0
            then bindR (mypid s) (\<lambda>pd.
                 bindR (acquiresleep pd (ilk (itable s ! ip))) (\<lambda>lk.
                 bindR (itrunc ip (upd_inode ip (ilk_update (\<lambda>_. lk)) s)) (\<lambda>s.
                 bindR (iupdate ip (upd_inode ip (itype_update (\<lambda>_. 0)) s)) (\<lambda>s.
                 let s = upd_inode ip (ivalid_update (\<lambda>_. False)) s
                 in case releasesleep (Chan_inode_lock ip) (ilk (itable s ! ip)) s of (lk, s) \<Rightarrow>
                    Ok (upd_inode ip (ilk_update (\<lambda>_. lk)) s)))))
            else Ok s) (\<lambda>s.
     Ok (upd_inode ip (\<lambda>x. x\<lparr>ref := ref x - 1\<rparr>) s))"

definition iunlockput :: "nat \<Rightarrow> 'z fsst_scheme \<Rightarrow> 'z fsst_scheme res" where
  "iunlockput ip s = bindR (iunlock ip s) (\<lambda>s. iput ip s)"

section \<open>Reading and writing files\<close>

text \<open>\<open>struct stat\<close> of \<^verbatim>\<open>kernel/stat.h\<close>.\<close>

record stat =
  stdev :: uint
  stino :: uint
  sttype :: ushort
  stnlink :: ushort
  stsize :: uint64

definition stati :: "nat \<Rightarrow> 'z fsst_scheme \<Rightarrow> stat" where
  "stati ip s =
     (let i = itable s ! ip
      in \<lparr>stdev = idev i, stino = inum i, sttype = itype i, stnlink = nlink i, stsize = ucast (isize i)\<rparr>)"

text \<open>
  Where \<open>readi\<close> puts its data and where \<open>writei\<close> takes it from: a user address, a kernel address,
  or a variable on the caller's kernel stack, whose bytes are passed as a list.
\<close>

datatype dest = To_user uint64 | To_kernel uint64 | To_local

datatype src = From_user uint64 | From_kernel uint64 | From_local "byte list"

fun dest_add :: "dest \<Rightarrow> nat \<Rightarrow> dest" where
  "dest_add (To_user a) m = To_user (a + of_nat m)"
| "dest_add (To_kernel a) m = To_kernel (a + of_nat m)"
| "dest_add To_local m = To_local"

fun src_add :: "src \<Rightarrow> nat \<Rightarrow> src" where
  "src_add (From_user a) m = From_user (a + of_nat m)"
| "src_add (From_kernel a) m = From_kernel (a + of_nat m)"
| "src_add (From_local bs) m = From_local (drop m bs)"

fun copy_to :: "dest \<Rightarrow> byte list \<Rightarrow> 'z procs_scheme \<Rightarrow> (int \<times> 'z procs_scheme) res" where
  "copy_to (To_user a) bs s = either_copyout True a bs s"
| "copy_to (To_kernel a) bs s = either_copyout False a bs s"
| "copy_to To_local bs s = Ok (0, s)"

fun copy_from :: "src \<Rightarrow> nat \<Rightarrow> 'z procs_scheme \<Rightarrow> (int \<times> byte list) res" where
  "copy_from (From_user a) m s = either_copyin True a m s"
| "copy_from (From_kernel a) m s = either_copyin False a m s"
| "copy_from (From_local bs) m s = Ok (0, take m bs)"

text \<open>
  The loop of \<open>readi\<close>, with \<open>k = n - tot\<close> bytes left; \<open>off\<close> does not overflow because \<open>readi\<close> has
  checked \<open>off + n\<close>.  The result is the total read, or -1, and the bytes delivered.
\<close>

function readi_loop ::
  "nat \<Rightarrow> dest \<Rightarrow> nat \<Rightarrow> nat \<Rightarrow> 'z fsst_scheme \<Rightarrow> (int \<times> byte list \<times> 'z fsst_scheme) res" where
  "readi_loop ip dst off k s =
     (if k = 0 then Ok (0, [], s)
      else bindR (bmap ip (off div BSIZE) s) (\<lambda>(addr, s).
           bindR (bread (idev (itable s ! ip)) addr s) (\<lambda>(bp, s).
           let m = min k (BSIZE - off mod BSIZE);
               bs = take m (drop (off mod BSIZE) (data (bufs s ! bp)))
           in bindR (copy_to dst bs s) (\<lambda>(r, s).
              if r = -1 then bindR (brelse bp s) (\<lambda>s. Ok (-1, [], s))
              else bindR (brelse bp s) (\<lambda>s.
                   bindR (readi_loop ip (dest_add dst m) (off + m) (k - m) s) (\<lambda>(tot, rest, s).
                     Ok (if tot = -1 then -1 else int m + tot, bs @ rest, s)))))))"
  by pat_completeness auto
termination
  by (relation "measure (\<lambda>(ip, dst, off, k, s). k)") (auto simp: BSIZE_def)

declare readi_loop.simps [simp del]

definition readi ::
  "nat \<Rightarrow> dest \<Rightarrow> uint \<Rightarrow> uint \<Rightarrow> 'z fsst_scheme \<Rightarrow> (int \<times> byte list \<times> 'z fsst_scheme) res" where
  "readi ip dst off n s =
     (let z = isize (itable s ! ip)
      in if off > z \<or> off + n < off then Ok (0, [], s)
         else let n = (if off + n > z then z - off else n)
              in readi_loop ip dst (unat off) (unat n) s)"

text \<open>The loop of \<open>writei\<close>; the result is the total written and the final value of \<open>off\<close>.\<close>

function writei_loop ::
  "nat \<Rightarrow> src \<Rightarrow> nat \<Rightarrow> nat \<Rightarrow> nat \<Rightarrow> 'z fsst_scheme \<Rightarrow> (nat \<times> nat \<times> 'z fsst_scheme) res" where
  "writei_loop ip sr off tot k s =
     (if k = 0 then Ok (tot, off, s)
      else bindR (bmap ip (off div BSIZE) s) (\<lambda>(addr, s).
           bindR (bread (idev (itable s ! ip)) addr s) (\<lambda>(bp, s).
           let m = min k (BSIZE - off mod BSIZE)
           in bindR (copy_from sr m s) (\<lambda>(r, bs).
              let s = set_data bp (poke (off mod BSIZE) bs (data (bufs s ! bp))) s
              in if r = -1 then bindR (brelse bp s) (\<lambda>s. Ok (tot, off, s))
                 else bindR (log_write bp s) (\<lambda>s.
                      bindR (brelse bp s) (\<lambda>s.
                      writei_loop ip (src_add sr m) (off + m) (tot + m) (k - m) s))))))"
  by pat_completeness auto
termination
  by (relation "measure (\<lambda>(ip, sr, off, tot, k, s). k)") (auto simp: BSIZE_def)

declare writei_loop.simps [simp del]

definition writei ::
  "nat \<Rightarrow> src \<Rightarrow> uint \<Rightarrow> uint \<Rightarrow> 'z fsst_scheme \<Rightarrow> (int \<times> 'z fsst_scheme) res" where
  "writei ip sr off n s =
     (if off > isize (itable s ! ip) \<or> off + n < off then Ok (-1, s)
      else if unat (off + n) > MAXFILE * BSIZE then Ok (-1, s)
      else bindR (writei_loop ip sr (unat off) 0 (unat n) s) (\<lambda>(tot, off', s).
           let s = (if of_nat off' > isize (itable s ! ip)
                    then upd_inode ip (isize_update (\<lambda>_. of_nat off')) s else s)
           in bindR (iupdate ip s) (\<lambda>s. Ok (int tot, s))))"

section \<open>Directories\<close>

text \<open>Character \<open>i\<close> of a string; the byte after the last one is the terminating zero.\<close>

definition str_at :: "byte list \<Rightarrow> nat \<Rightarrow> byte" where
  "str_at a i = (if i < length a then a ! i else 0)"

definition namecmp :: "byte list \<Rightarrow> byte list \<Rightarrow> int" where
  "namecmp a b = strncmp (str_at a) (str_at b) DIRSIZ"

text \<open>\<open>struct dirent\<close> as its 16 bytes.\<close>

definition de_inum :: "byte list \<Rightarrow> ushort" where
  "de_inum de = of_le (take 2 de)"

definition de_name :: "byte list \<Rightarrow> byte list" where
  "de_name de = drop 2 de"

primrec dirlookup_loop ::
  "nat \<Rightarrow> byte list \<Rightarrow> nat list \<Rightarrow> 'z fsst_scheme \<Rightarrow> ((nat \<times> uint) option \<times> 'z fsst_scheme) res" where
  "dirlookup_loop dp nm [] s = Ok (None, s)"
| "dirlookup_loop dp nm (off # offs) s =
     bindR (readi dp To_local (of_nat off) 16 s) (\<lambda>(r, de, s).
       if r \<noteq> 16 then Panic ''dirlookup read''
       else if de_inum de = 0 then dirlookup_loop dp nm offs s
       else if namecmp nm (de_name de) = 0
       then bindR (iget (idev (itable s ! dp)) (ucast (de_inum de)) s) (\<lambda>(ip, s).
         Ok (Some (ip, of_nat off), s))
       else dirlookup_loop dp nm offs s)"

text \<open>\<open>dirlookup\<close> returns the inode and the offset \<open>*poff\<close> of its entry.\<close>

definition dirlookup ::
  "nat \<Rightarrow> byte list \<Rightarrow> 'z fsst_scheme \<Rightarrow> ((nat \<times> uint) option \<times> 'z fsst_scheme) res" where
  "dirlookup dp nm s =
     (if itype (itable s ! dp) \<noteq> T_DIR then Panic ''dirlookup not DIR''
      else dirlookup_loop dp nm (strides 16 (unat (isize (itable s ! dp)))) s)"

text \<open>The search for an empty entry: its offset, or the end of the directory.\<close>

primrec dirlink_loop ::
  "nat \<Rightarrow> nat list \<Rightarrow> nat \<Rightarrow> 'z fsst_scheme \<Rightarrow> (nat \<times> 'z fsst_scheme) res" where
  "dirlink_loop dp [] e s = Ok (e, s)"
| "dirlink_loop dp (off # offs) e s =
     bindR (readi dp To_local (of_nat off) 16 s) (\<lambda>(r, de, s).
       if r \<noteq> 16 then Panic ''dirlink read''
       else if de_inum de = 0 then Ok (off, s)
       else dirlink_loop dp offs (off + 16) s)"

definition dirlink :: "nat \<Rightarrow> byte list \<Rightarrow> uint \<Rightarrow> 'z fsst_scheme \<Rightarrow> (int \<times> 'z fsst_scheme) res" where
  "dirlink dp nm im s =
     bindR (dirlookup dp nm s) (\<lambda>(found, s).
       case found of Some (ip, _) \<Rightarrow> bindR (iput ip s) (\<lambda>s. Ok (-1, s))
       | None \<Rightarrow>
         bindR (dirlink_loop dp (strides 16 (unat (isize (itable s ! dp)))) 0 s) (\<lambda>(off, s).
         let de = le_bytes 2 (ucast im :: ushort) @
                  strncpy (replicate DIRSIZ 0) (str_at nm) (int DIRSIZ)
         in bindR (writei dp (From_local de) (of_nat off) 16 s) (\<lambda>(r, s).
            if r \<noteq> 16 then Panic ''dirlink'' else Ok (0, s))))"

section \<open>Path names\<close>

definition slash :: byte where "slash = 47"

text \<open>
  \<open>name\<close> is the caller's array of \<open>DIRSIZ\<close> bytes: a short element leaves the bytes after its
  terminating zero as they were, an element of \<open>DIRSIZ\<close> bytes or more is cut without one.
\<close>

definition skipelem :: "byte list \<Rightarrow> byte list \<Rightarrow> (byte list \<times> byte list) option" where
  "skipelem path nm =
     (let path = dropWhile (\<lambda>c. c = slash) path
      in if path = [] then None
         else let elem = takeWhile (\<lambda>c. c \<noteq> slash) path;
                  path = dropWhile (\<lambda>c. c \<noteq> slash) path;
                  len = length elem;
                  nm = (if len \<ge> DIRSIZ then take DIRSIZ elem @ drop DIRSIZ nm
                        else (elem @ drop len nm)[len := 0])
              in Some (dropWhile (\<lambda>c. c = slash) path, nm))"

lemma skipelem_shorter: "skipelem path nm = Some (path', nm') \<Longrightarrow> length path' < length path"
proof -
  assume a: "skipelem path nm = Some (path', nm')"
  define q where "q = dropWhile (\<lambda>c. c = slash) path"
  have q: "q \<noteq> []" "path' = dropWhile (\<lambda>c. c = slash) (dropWhile (\<lambda>c. c \<noteq> slash) q)"
    using a by (auto simp: skipelem_def q_def Let_def split: if_splits)
  have "hd q \<noteq> slash" using q(1) hd_dropWhile [of "\<lambda>c. c = slash" path] by (auto simp: q_def)
  then have "length (dropWhile (\<lambda>c. c \<noteq> slash) q) < length q"
    using q(1) length_dropWhile_le [of "\<lambda>c. c \<noteq> slash" "tl q"] by (cases q) auto
  also have "length q \<le> length path" by (simp add: q_def length_dropWhile_le)
  finally show ?thesis
    using q(2) length_dropWhile_le [of "\<lambda>c. c = slash" "dropWhile (\<lambda>c. c \<noteq> slash) q"] by simp
qed

function namex_loop ::
  "nat \<Rightarrow> byte list \<Rightarrow> bool \<Rightarrow> byte list \<Rightarrow> 'z fsst_scheme \<Rightarrow>
    (nat option \<times> byte list \<times> 'z fsst_scheme) res" where
  "namex_loop ip path par nm s =
     (case skipelem path nm of
        None \<Rightarrow> if par then bindR (iput ip s) (\<lambda>s. Ok (None, nm, s)) else Ok (Some ip, nm, s)
      | Some (path, nm) \<Rightarrow>
          bindR (ilock ip s) (\<lambda>s.
            if itype (itable s ! ip) \<noteq> T_DIR then bindR (iunlockput ip s) (\<lambda>s. Ok (None, nm, s))
            else if par \<and> path = [] then bindR (iunlock ip s) (\<lambda>s. Ok (Some ip, nm, s))
            else bindR (dirlookup ip nm s) (\<lambda>(next, s).
              case next of None \<Rightarrow> bindR (iunlockput ip s) (\<lambda>s. Ok (None, nm, s))
              | Some (np, _) \<Rightarrow> bindR (iunlockput ip s) (\<lambda>s. namex_loop np path par nm s))))"
  by pat_completeness auto
termination
  by (relation "measure (\<lambda>(ip, path, par, nm, s). length path)") (auto dest: skipelem_shorter)

declare namex_loop.simps [simp del]

definition namex ::
  "byte list \<Rightarrow> bool \<Rightarrow> byte list \<Rightarrow> 'z fsst_scheme \<Rightarrow> (nat option \<times> byte list \<times> 'z fsst_scheme) res" where
  "namex path par nm s =
     (if path \<noteq> [] \<and> hd path = slash
      then bindR (iget (of_nat ROOTDEV) (of_nat ROOTINO) s) (\<lambda>(ip, s). namex_loop ip path par nm s)
      else bindR (myproc s) (\<lambda>p.
           case cwd (proc s ! p) of None \<Rightarrow> Panic ''kerneltrap''
           | Some ip \<Rightarrow> namex_loop ip path par nm (idup ip s)))"

definition namei :: "byte list \<Rightarrow> 'z fsst_scheme \<Rightarrow> (nat option \<times> 'z fsst_scheme) res" where
  "namei path s =
     bindR (namex path False (replicate DIRSIZ 0) s) (\<lambda>(ip, nm, s). Ok (ip, s))"

definition nameiparent ::
  "byte list \<Rightarrow> byte list \<Rightarrow> 'z fsst_scheme \<Rightarrow> (nat option \<times> byte list \<times> 'z fsst_scheme) res" where
  "nameiparent path nm s = namex path True nm s"

end
