(* ===== verification/Virtio.thy ===== *)
theory Virtio
  imports Fs
begin

text \<open>
  The disk driver, \<^verbatim>\<open>kernel/virtio_disk.c\<close> with the structures of \<^verbatim>\<open>kernel/virtio.h\<close>.  The
  structures the driver shares with the device are fields of the state.  The device is not part
  of the sources: what the driver reads from its registers is the field \<open>vread\<close>, what it writes
  to them is recorded in \<open>vwrites\<close>, and the processing of a request is the parameter \<open>serve\<close> of
  \<open>virtio_disk_rw\<close>.
\<close>

section \<open>State\<close>

definition NUM :: nat where [params]: "NUM = 8"
definition VRING_DESC_F_NEXT :: ushort where "VRING_DESC_F_NEXT = 1"
definition VRING_DESC_F_WRITE :: ushort where "VRING_DESC_F_WRITE = 2"
definition VIRTIO_BLK_T_IN :: uint where "VIRTIO_BLK_T_IN = 0"
definition VIRTIO_BLK_T_OUT :: uint where "VIRTIO_BLK_T_OUT = 1"

text \<open>The address in a descriptor, by the object it points to.\<close>

datatype daddr = A_null | A_op nat | A_data nat | A_status nat

record virtq_desc =
  daddr :: daddr
  dlen :: uint
  dflags :: ushort
  dnext :: ushort

record virtio_blk_req =
  rtype :: uint
  reserved :: uint
  sector :: uint64

text \<open>
  \<open>struct disk\<close>; \<open>uidx\<close> is \<open>used->idx\<close>, \<open>uring\<close> the ids in \<open>used->ring\<close>, and \<open>bdisk\<close> the field
  \<open>disk\<close> of each buffer.
\<close>

record vdisk = fsst +
  desc :: "virtq_desc list"
  avail_ring :: "ushort list"
  avail_idx :: ushort
  uring :: "uint list"
  uidx :: ushort
  dfree :: "bool list"
  used_idx :: ushort
  info_b :: "nat option list"
  info_status :: "byte list"
  ops :: "virtio_blk_req list"
  bdisk :: "bool list"
  vread :: "nat \<Rightarrow> uint"
  vwrites :: "(nat \<times> uint) list"

definition vwrite :: "nat \<Rightarrow> uint \<Rightarrow> 'z vdisk_scheme \<Rightarrow> 'z vdisk_scheme" where
  "vwrite r v s = s\<lparr>vwrites := (r, v) # vwrites s\<rparr>"

section \<open>Initialisation\<close>

definition no_desc :: virtq_desc where
  "no_desc = \<lparr>daddr = A_null, dlen = 0, dflags = 0, dnext = 0\<rparr>"

text \<open>
  The register offsets are those of \<open>virtio.h\<close>: magic 0x000, version 0x004, device 0x008,
  vendor 0x00c, device features 0x010, driver features 0x020, guest page size 0x028, queue
  select 0x030, queue maximum 0x034, queue size 0x038, queue page 0x040, status 0x070.
  \<open>pages\<close> is the page number of \<open>disk.pages\<close>.
\<close>

definition virtio_disk_init :: "uint \<Rightarrow> 'z vdisk_scheme \<Rightarrow> 'z vdisk_scheme res" where
  "virtio_disk_init pages s =
     (if vread s 0x000 \<noteq> 0x74726976 \<or> vread s 0x004 \<noteq> 1 \<or> vread s 0x008 \<noteq> 2 \<or>
         vread s 0x00c \<noteq> 0x554d4551 then Panic ''could not find virtio disk''
      else let s = vwrite 0x070 1 s;
               s = vwrite 0x070 (1 OR 2) s;
               features = foldl (\<lambda>f k. f AND NOT (push_bit k 1)) (vread s 0x010)
                            [5, 7, 11, 12, 27, 29, 28];
               s = vwrite 0x020 features s;
               s = vwrite 0x070 (1 OR 2 OR 8) s;
               s = vwrite 0x070 (1 OR 2 OR 8 OR 4) s;
               s = vwrite 0x028 4096 s;
               s = vwrite 0x030 0 s;
               mx = vread s 0x034
      in if mx = 0 then Panic ''virtio disk has no queue 0''
         else if mx < of_nat NUM then Panic ''virtio disk max queue too short''
         else let s = vwrite 0x038 (of_nat NUM) s;
                  s = s\<lparr>desc := replicate NUM no_desc, avail_ring := replicate NUM 0,
                        avail_idx := 0, uring := replicate NUM 0, uidx := 0\<rparr>;
                  s = vwrite 0x040 pages s
              in Ok (s\<lparr>dfree := replicate NUM True\<rparr>))"

section \<open>Descriptors\<close>

fun find_free :: "nat \<Rightarrow> bool list \<Rightarrow> nat option" where
  "find_free i [] = None"
| "find_free i (f # fs) = (if f then Some i else find_free (Suc i) fs)"

definition alloc_desc :: "'z vdisk_scheme \<Rightarrow> nat option \<times> 'z vdisk_scheme" where
  "alloc_desc s =
     (case find_free 0 (dfree s) of None \<Rightarrow> (None, s)
      | Some i \<Rightarrow> (Some i, s\<lparr>dfree := (dfree s)[i := False]\<rparr>))"

definition free_desc :: "nat \<Rightarrow> 'z vdisk_scheme \<Rightarrow> 'z vdisk_scheme res" where
  "free_desc i s =
     (if i \<ge> NUM then Panic ''free_desc 1''
      else if dfree s ! i then Panic ''free_desc 2''
      else Ok (wakeup Chan_disk_free
             (s\<lparr>desc := (desc s)[i := no_desc], dfree := (dfree s)[i := True]\<rparr>)))"

text \<open>
  A chain visits each descriptor at most once, since \<open>free_desc\<close> panics on a free one: \<open>NUM\<close>
  steps free any chain.
\<close>

primrec free_chain :: "nat \<Rightarrow> nat \<Rightarrow> 'z vdisk_scheme \<Rightarrow> 'z vdisk_scheme res" where
  "free_chain 0 i s = Blocked"
| "free_chain (Suc fuel) i s =
     (let flag = dflags (desc s ! i);
          nx = unat (dnext (desc s ! i))
      in bindR (free_desc i s) (\<lambda>s.
           if flag AND VRING_DESC_F_NEXT \<noteq> 0 then free_chain fuel nx s else Ok s))"

primrec alloc_descs :: "nat \<Rightarrow> nat list \<Rightarrow> 'z vdisk_scheme \<Rightarrow> (nat list option \<times> 'z vdisk_scheme) res" where
  "alloc_descs 0 idx s = Ok (Some idx, s)"
| "alloc_descs (Suc k) idx s =
     (case alloc_desc s of
        (None, s) \<Rightarrow> bindR (foldR free_desc idx s) (\<lambda>s. Ok (None, s))
      | (Some i, s) \<Rightarrow> alloc_descs k (idx @ [i]) s)"

definition alloc3_desc :: "'z vdisk_scheme \<Rightarrow> (nat list option \<times> 'z vdisk_scheme) res" where
  "alloc3_desc s = alloc_descs 3 [] s"

section \<open>Requests\<close>

text \<open>
  \<open>virtio_disk_rw\<close> up to the notification of the device.  The sector number is a 32-bit product,
  as \<open>blockno\<close> and \<open>BSIZE / 512\<close> have 32 bits.
\<close>

definition virtio_format :: "nat \<Rightarrow> bool \<Rightarrow> nat \<Rightarrow> nat \<Rightarrow> nat \<Rightarrow> 'z vdisk_scheme \<Rightarrow> 'z vdisk_scheme" where
  "virtio_format b wr i0 i1 i2 s =
     (let sec = ucast (blockno (bufs s ! b) * of_nat (BSIZE div 512)) :: uint64;
          s = s\<lparr>ops := (ops s)[i0 := \<lparr>rtype = if wr then VIRTIO_BLK_T_OUT else VIRTIO_BLK_T_IN,
                reserved = 0, sector = sec\<rparr>]\<rparr>;
          s = s\<lparr>desc := (desc s)[i0 := \<lparr>daddr = A_op i0, dlen = 16,
                dflags = VRING_DESC_F_NEXT, dnext = of_nat i1\<rparr>]\<rparr>;
          s = s\<lparr>desc := (desc s)[i1 := \<lparr>daddr = A_data b, dlen = of_nat BSIZE,
                dflags = (if wr then 0 else VRING_DESC_F_WRITE) OR VRING_DESC_F_NEXT,
                dnext = of_nat i2\<rparr>]\<rparr>;
          s = s\<lparr>info_status := (info_status s)[i0 := 0xff]\<rparr>;
          s = s\<lparr>desc := (desc s)[i2 := \<lparr>daddr = A_status i0, dlen = 1,
                dflags = VRING_DESC_F_WRITE, dnext = 0\<rparr>]\<rparr>;
          s = s\<lparr>bdisk := (bdisk s)[b := True]\<rparr>;
          s = s\<lparr>info_b := (info_b s)[i0 := Some b]\<rparr>;
          s = s\<lparr>avail_ring := (avail_ring s)[unat (avail_idx s) mod NUM := of_nat i0]\<rparr>;
          s = s\<lparr>avail_idx := avail_idx s + 1\<rparr>
      in vwrite 0x050 0 s)"

definition virtio_submit :: "nat \<Rightarrow> bool \<Rightarrow> 'z vdisk_scheme \<Rightarrow> (nat \<times> 'z vdisk_scheme) res" where
  "virtio_submit b wr s =
     bindR (alloc3_desc s) (\<lambda>(idx, s).
       case idx of None \<Rightarrow> Blocked
       | Some ids \<Rightarrow> Ok (ids ! 0, virtio_format b wr (ids ! 0) (ids ! 1) (ids ! 2) s))"

text \<open>The part after the wait for the completion interrupt.\<close>

definition virtio_finish :: "nat \<Rightarrow> 'z vdisk_scheme \<Rightarrow> 'z vdisk_scheme res" where
  "virtio_finish i0 s = free_chain NUM i0 (s\<lparr>info_b := (info_b s)[i0 := None]\<rparr>)"

text \<open>
  The whole function: \<open>serve\<close> is what happens while the caller sleeps, the device's processing
  of the request and the completion interrupt.
\<close>

definition virtio_disk_rw ::
  "('z vdisk_scheme \<Rightarrow> 'z vdisk_scheme res) \<Rightarrow> nat \<Rightarrow> bool \<Rightarrow> 'z vdisk_scheme \<Rightarrow> 'z vdisk_scheme res" where
  "virtio_disk_rw serve b wr s =
     bindR (virtio_submit b wr s) (\<lambda>(i0, s).
     bindR (serve s) (\<lambda>s.
       if bdisk s ! b then Blocked else virtio_finish i0 s))"

section \<open>The completion interrupt\<close>

function virtio_intr_loop :: "'z vdisk_scheme \<Rightarrow> 'z vdisk_scheme res" where
  "virtio_intr_loop s =
     (if used_idx s = uidx s then Ok s
      else let i = unat (uring s ! (unat (used_idx s) mod NUM))
           in if info_status s ! i \<noteq> 0 then Panic ''virtio_disk_intr status''
              else case info_b s ! i of None \<Rightarrow> Panic ''kerneltrap''
                | Some b \<Rightarrow>
                    let s = wakeup (Chan_buf b) (s\<lparr>bdisk := (bdisk s)[b := False]\<rparr>)
                    in virtio_intr_loop (s\<lparr>used_idx := used_idx s + 1\<rparr>))"
  by pat_completeness auto

lemma word_dist_less: "(a :: 'a::len word) \<noteq> b \<Longrightarrow> unat (b - (a + 1)) < unat (b - a)"
proof -
  assume "a \<noteq> b"
  then have "b - a \<noteq> 0" by auto
  then have "unat (b - a - 1) < unat (b - a)" by (simp add: unat_minus_one unat_gt_0)
  then show ?thesis by (simp add: diff_diff_eq)
qed

termination virtio_intr_loop
  by (relation "measure (\<lambda>s. unat (uidx s - used_idx s))")
    (auto simp: wakeup_def Let_def intro!: word_dist_less)

declare virtio_intr_loop.simps [simp del]

definition virtio_disk_intr :: "'z vdisk_scheme \<Rightarrow> 'z vdisk_scheme res" where
  "virtio_disk_intr s = virtio_intr_loop (vwrite 0x064 (vread s 0x060 AND 0x3) s)"

end
