(* ===== verification/Console.thy ===== *)
theory Console
  imports Virtio
begin

text \<open>
  The console: the UART driver \<^verbatim>\<open>kernel/uart.c\<close>, formatted output \<^verbatim>\<open>kernel/printf.c\<close>, line
  discipline \<^verbatim>\<open>kernel/console.c\<close> and the process listing \<open>procdump\<close> of \<^verbatim>\<open>kernel/proc.c\<close>.  The
  UART itself is outside the sources: the values that reads of its line status and receive
  registers will return are inputs of the model (\<open>lsr_in\<close>, \<open>rhr_in\<close>), and the writes to its
  registers are recorded, latest first, in \<open>uart_out\<close>.
\<close>

section \<open>State\<close>

definition UART_TX_BUF_SIZE :: nat where [params]: "UART_TX_BUF_SIZE = 32"
definition INPUT_BUF :: nat where [params]: "INPUT_BUF = 128"
definition LSR_TX_IDLE :: byte where "LSR_TX_IDLE = push_bit 5 1"
definition LSR_RX_READY :: byte where "LSR_RX_READY = 1"
definition BACKSPACE :: int where "BACKSPACE = 0x100"

record consst = vdisk +
  uart_tx_buf :: "byte list"
  uart_tx_w :: uint64
  uart_tx_r :: uint64
  panicked :: bool
  pr_locking :: bool
  cbuf :: "byte list"
  cr :: uint
  cw :: uint
  ce :: uint
  lsr_in :: "byte list"
  rhr_in :: "byte list"
  uart_out :: "(nat \<times> byte) list"

section \<open>UART\<close>

definition WriteReg :: "nat \<Rightarrow> byte \<Rightarrow> 'z consst_scheme \<Rightarrow> 'z consst_scheme" where
  "WriteReg r v s = s\<lparr>uart_out := (r, v) # uart_out s\<rparr>"

definition ReadLSR :: "'z consst_scheme \<Rightarrow> byte \<times> 'z consst_scheme" where
  "ReadLSR s = (case lsr_in s of [] \<Rightarrow> (0, s) | v # vs \<Rightarrow> (v, s\<lparr>lsr_in := vs\<rparr>))"

definition ReadRHR :: "'z consst_scheme \<Rightarrow> byte \<times> 'z consst_scheme" where
  "ReadRHR s = (case rhr_in s of [] \<Rightarrow> (0, s) | v # vs \<Rightarrow> (v, s\<lparr>rhr_in := vs\<rparr>))"

text \<open>Registers: 0 \<open>THR\<close>, 1 \<open>IER\<close>, 2 \<open>FCR\<close>, 3 \<open>LCR\<close>.\<close>

definition uartinit :: "'z consst_scheme \<Rightarrow> 'z consst_scheme" where
  "uartinit s =
     foldl (\<lambda>s (r, v). WriteReg r v s) s
       [(1, 0x00), (3, push_bit 7 1), (0, 0x03), (1, 0x00), (3, 3), (2, 1 OR push_bit 1 3), (1, 2 OR 1)]"

function uartstart :: "'z consst_scheme \<Rightarrow> 'z consst_scheme" where
  "uartstart s =
     (if uart_tx_w s = uart_tx_r s then s
      else case ReadLSR s of (v, s) \<Rightarrow>
        if v AND LSR_TX_IDLE = 0 then s
        else let c = uart_tx_buf s ! (unat (uart_tx_r s) mod UART_TX_BUF_SIZE);
                 s = s\<lparr>uart_tx_r := uart_tx_r s + 1\<rparr>;
                 s = wakeup Chan_uart s
             in uartstart (WriteReg 0 c s))"
  by pat_completeness auto
termination
  by (relation "measure (\<lambda>s. unat (uart_tx_w s - uart_tx_r s))")
    (auto simp: wakeup_def WriteReg_def ReadLSR_def Let_def split: list.splits intro!: word_dist_less)

declare uartstart.simps [simp del]

definition uartputc :: "byte \<Rightarrow> 'z consst_scheme \<Rightarrow> 'z consst_scheme res" where
  "uartputc c s =
     (if panicked s then Blocked
      else if uart_tx_w s = uart_tx_r s + of_nat UART_TX_BUF_SIZE then Blocked
      else Ok (uartstart (s\<lparr>uart_tx_buf := (uart_tx_buf s)[unat (uart_tx_w s) mod UART_TX_BUF_SIZE := c],
                 uart_tx_w := uart_tx_w s + 1\<rparr>)))"

text \<open>The spin on the status register ends at the first answer with the idle bit set.\<close>

definition uartputc_sync :: "byte \<Rightarrow> 'z consst_scheme \<Rightarrow> 'z consst_scheme res" where
  "uartputc_sync c s =
     (if panicked s then Blocked
      else case dropWhile (\<lambda>v. v AND LSR_TX_IDLE = 0) (lsr_in s) of
        [] \<Rightarrow> Blocked
      | v # vs \<Rightarrow> Ok (WriteReg 0 c (s\<lparr>lsr_in := vs\<rparr>)))"

definition uartgetc :: "'z consst_scheme \<Rightarrow> int \<times> 'z consst_scheme" where
  "uartgetc s =
     (case ReadLSR s of (v, s) \<Rightarrow>
        if v AND LSR_RX_READY \<noteq> 0 then (case ReadRHR s of (c, s) \<Rightarrow> (uint c, s)) else (-1, s))"

section \<open>Formatted output\<close>

definition consputc :: "int \<Rightarrow> 'z consst_scheme \<Rightarrow> 'z consst_scheme res" where
  "consputc c s =
     (if c = BACKSPACE
      then bindR (uartputc_sync 8 s) (\<lambda>s. bindR (uartputc_sync 32 s) (uartputc_sync 8))
      else uartputc_sync (word_of_int c) s)"

definition bytes :: "string \<Rightarrow> byte list" where
  "bytes = map (\<lambda>c. of_nat (of_char c))"

definition digit_char :: "nat \<Rightarrow> byte" where
  "digit_char n = bytes ''0123456789abcdef'' ! n"

text \<open>The digits \<open>printint\<close> collects in \<open>buf\<close>, last digit first.\<close>

function int_digits :: "nat \<Rightarrow> nat \<Rightarrow> nat list" where
  "int_digits bs x = (if x div bs = 0 \<or> bs < 2 then [x mod bs] else x mod bs # int_digits bs (x div bs))"
  by pat_completeness auto
termination
  by (relation "measure (\<lambda>(bs, x). x)") (auto intro!: div_less_dividend gr0I)

declare int_digits.simps [simp del]

text \<open>The contents of \<open>buf\<close>, and the characters that are passed to \<open>consputc\<close>.\<close>

definition printint_buf :: "uint \<Rightarrow> nat \<Rightarrow> bool \<Rightarrow> byte list" where
  "printint_buf xx bs sign =
     (let sign = (sign \<and> xx <s 0);
          x = (if sign then - xx else xx)
      in map digit_char (int_digits bs (unat x)) @ (if sign then [45] else []))"

definition printint :: "uint \<Rightarrow> nat \<Rightarrow> bool \<Rightarrow> byte list" where
  "printint xx bs sign = rev (printint_buf xx bs sign)"

definition printptr :: "uint64 \<Rightarrow> byte list" where
  "printptr x = [48, 120] @ map (\<lambda>i. digit_char (unat (drop_bit 60 (push_bit (4 * i) x)))) [0..<16]"

datatype arg = Arg_int uint | Arg_ptr uint64 | Arg_str "byte list option"

text \<open>\<open>va_arg\<close>; an argument of another type than the format asks for reads as zero.\<close>

fun va_int :: "arg list \<Rightarrow> uint \<times> arg list" where
  "va_int (Arg_int v # ap) = (v, ap)"
| "va_int ap = (0, drop 1 ap)"

fun va_ptr :: "arg list \<Rightarrow> uint64 \<times> arg list" where
  "va_ptr (Arg_ptr v # ap) = (v, ap)"
| "va_ptr ap = (0, drop 1 ap)"

fun va_str :: "arg list \<Rightarrow> byte list option \<times> arg list" where
  "va_str (Arg_str v # ap) = (v, ap)"
| "va_str ap = (None, drop 1 ap)"

text \<open>The characters \<open>printf\<close> outputs: \<open>%\<close> is 37, \<open>d\<close> 100, \<open>x\<close> 120, \<open>p\<close> 112, \<open>s\<close> 115.\<close>

fun printf_chars :: "byte list \<Rightarrow> arg list \<Rightarrow> byte list" where
  "printf_chars [] ap = []"
| "printf_chars (c # fmt) ap =
     (if c \<noteq> 37 then c # printf_chars fmt ap
      else case fmt of [] \<Rightarrow> []
        | c # fmt \<Rightarrow>
          if c = 100 then (case va_int ap of (v, ap) \<Rightarrow> printint v 10 True @ printf_chars fmt ap)
          else if c = 120 then (case va_int ap of (v, ap) \<Rightarrow> printint v 16 True @ printf_chars fmt ap)
          else if c = 112 then (case va_ptr ap of (v, ap) \<Rightarrow> printptr v @ printf_chars fmt ap)
          else if c = 115 then (case va_str ap of (v, ap) \<Rightarrow>
            (case v of None \<Rightarrow> bytes ''(null)'' | Some str \<Rightarrow> str) @ printf_chars fmt ap)
          else if c = 37 then 37 # printf_chars fmt ap
          else 37 # c # printf_chars fmt ap)"

definition printf :: "byte list \<Rightarrow> arg list \<Rightarrow> 'z consst_scheme \<Rightarrow> 'z consst_scheme res" where
  "printf fmt ap s = foldR (\<lambda>c. consputc (uint c)) (printf_chars fmt ap) s"

text \<open>What \<open>panic\<close> does before it spins.\<close>

definition panic :: "byte list \<Rightarrow> 'z consst_scheme \<Rightarrow> 'z consst_scheme res" where
  "panic msg s =
     bindR (printf (bytes ''panic: '') [] (s\<lparr>pr_locking := False\<rparr>)) (\<lambda>s.
     bindR (printf msg [] s) (\<lambda>s.
     bindR (printf [10] [] s) (\<lambda>s. Ok (s\<lparr>panicked := True\<rparr>))))"

definition printfinit :: "'z consst_scheme \<Rightarrow> 'z consst_scheme" where
  "printfinit s = s\<lparr>pr_locking := True\<rparr>"

text \<open>\<open>procdump\<close> has no name for the state \<open>USED\<close>.\<close>

fun state_name :: "procstate \<Rightarrow> string" where
  "state_name UNUSED = ''unused''"
| "state_name SLEEPING = ''sleep ''"
| "state_name RUNNABLE = ''runble''"
| "state_name RUNNING = ''run   ''"
| "state_name ZOMBIE = ''zombie''"
| "state_name USED = ''???''"

definition procdump :: "'z consst_scheme \<Rightarrow> 'z consst_scheme res" where
  "procdump s =
     bindR (printf [10] [] s) (foldR (\<lambda>i s.
       let p = proc s ! i
       in if pstate p = UNUSED then Ok s
          else bindR (printf (bytes ''%d %s %s'')
                 [Arg_int (word_of_int (pid p)), Arg_str (Some (bytes (state_name (pstate p)))),
                  Arg_str (Some (takeWhile (\<lambda>c. c \<noteq> 0) (pname p)))] s) (printf [10] [])) [0..<NPROC])"

section \<open>The line discipline\<close>

lemma uartputc_sync_frame:
  "uartputc_sync c s = Ok s' \<Longrightarrow> \<exists>vs out. s' = s\<lparr>lsr_in := vs, uart_out := out\<rparr>"
  by (auto simp: uartputc_sync_def WriteReg_def split: if_splits list.splits)

lemma consputc_frame:
  "consputc c s = Ok s' \<Longrightarrow> \<exists>vs out. s' = s\<lparr>lsr_in := vs, uart_out := out\<rparr>"
  by (auto simp: consputc_def bindR_eq_Ok split: if_splits dest!: uartputc_sync_frame) blast

function kill_line :: "'z consst_scheme \<Rightarrow> 'z consst_scheme res" where
  "kill_line s =
     (if ce s \<noteq> cw s \<and> cbuf s ! (unat (ce s - 1) mod INPUT_BUF) \<noteq> 10
      then bindR (consputc BACKSPACE (s\<lparr>ce := ce s - 1\<rparr>)) kill_line
      else Ok s)"
  by pat_completeness auto
termination
proof (relation "measure (\<lambda>s. unat (ce s - cw s))")
  fix s s' :: "'z consst_scheme"
  assume "ce s \<noteq> cw s \<and> cbuf s ! (unat (ce s - 1) mod INPUT_BUF) \<noteq> 10"
    and c: "consputc BACKSPACE (s\<lparr>ce := ce s - 1\<rparr>) = Ok s'"
  then have "ce s - cw s \<noteq> 0" by simp
  then have "unat (ce s - cw s - 1) < unat (ce s - cw s)" by (simp add: unat_minus_one unat_gt_0)
  then show "(s', s) \<in> measure (\<lambda>s. unat (ce s - cw s))"
    using consputc_frame [OF c] by (auto simp: algebra_simps)
qed simp

declare kill_line.simps [simp del]

text \<open>Control-P is 16, control-U 21, control-H 8, delete 127, control-D 4.\<close>

definition consoleintr :: "int \<Rightarrow> 'z consst_scheme \<Rightarrow> 'z consst_scheme res" where
  "consoleintr c s =
     (if c = 16 then procdump s
      else if c = 21 then kill_line s
      else if c = 8 \<or> c = 127
      then if ce s \<noteq> cw s then consputc BACKSPACE (s\<lparr>ce := ce s - 1\<rparr>) else Ok s
      else if c \<noteq> 0 \<and> ce s - cr s < of_nat INPUT_BUF
      then let c = (if c = 13 then 10 else c)
           in bindR (consputc c s) (\<lambda>s.
              let s = s\<lparr>cbuf := (cbuf s)[unat (ce s) mod INPUT_BUF := word_of_int c], ce := ce s + 1\<rparr>
              in if c = 10 \<or> c = 4 \<or> ce s = cr s + of_nat INPUT_BUF
                 then Ok (wakeup Chan_cons (s\<lparr>cw := ce s\<rparr>))
                 else Ok s)
      else Ok s)"

text \<open>
  \<open>consoleread\<close> from the point where \<open>n\<close> of \<open>target\<close> bytes are still wanted: \<open>Inl r\<close> returns \<open>r\<close>,
  \<open>Inr (dst, n)\<close> sleeps on \<open>cons.r\<close> and goes on from there when it is woken.
\<close>

primrec consoleread_run ::
  "bool \<Rightarrow> uint64 \<Rightarrow> nat \<Rightarrow> nat \<Rightarrow> 'z consst_scheme \<Rightarrow> ((int + uint64 \<times> nat) \<times> 'z consst_scheme) res" where
  "consoleread_run user_dst dst 0 target s = Ok (Inl (int target), s)"
| "consoleread_run user_dst dst (Suc n) target s =
     (if cr s = cw s
      then bindR (myproc s) (\<lambda>p.
             if killed (proc s ! p) \<noteq> 0 then Ok (Inl (-1), s) else Ok (Inr (dst, Suc n), s))
      else let c = cbuf s ! (unat (cr s) mod INPUT_BUF);
               s = s\<lparr>cr := cr s + 1\<rparr>
           in if c = 4
              then Ok (Inl (int (target - Suc n)), if Suc n < target then s\<lparr>cr := cr s - 1\<rparr> else s)
              else bindR (either_copyout user_dst dst [c] s) (\<lambda>(r, s).
                if r = -1 then Ok (Inl (int (target - Suc n)), s)
                else if c = 10 then Ok (Inl (int (target - n)), s)
                else consoleread_run user_dst (dst + 1) n target s))"

definition consoleread ::
  "bool \<Rightarrow> uint64 \<Rightarrow> int \<Rightarrow> 'z consst_scheme \<Rightarrow> (int \<times> 'z consst_scheme) res" where
  "consoleread user_dst dst n s =
     bindR (consoleread_run user_dst dst (nat n) (nat n) s) (\<lambda>(r, s).
       case r of Inl v \<Rightarrow> Ok (v, s) | Inr _ \<Rightarrow> Blocked)"

primrec consolewrite_loop ::
  "bool \<Rightarrow> uint64 \<Rightarrow> nat \<Rightarrow> nat \<Rightarrow> 'z consst_scheme \<Rightarrow> (int \<times> 'z consst_scheme) res" where
  "consolewrite_loop user_src src i 0 s = Ok (int i, s)"
| "consolewrite_loop user_src src i (Suc k) s =
     bindR (either_copyin user_src (src + of_nat i) 1 s) (\<lambda>(r, bs).
       if r = -1 then Ok (int i, s)
       else bindR (uartputc (bs ! 0) s) (consolewrite_loop user_src src (Suc i) k))"

definition consolewrite ::
  "bool \<Rightarrow> uint64 \<Rightarrow> int \<Rightarrow> 'z consst_scheme \<Rightarrow> (int \<times> 'z consst_scheme) res" where
  "consolewrite user_src src n s = consolewrite_loop user_src src 0 (nat n) s"

section \<open>The UART interrupt\<close>

text \<open>Each call of \<open>uartgetc\<close> consumes an answer of the status register, so the loop ends.\<close>

primrec uart_drain :: "nat \<Rightarrow> 'z consst_scheme \<Rightarrow> 'z consst_scheme res" where
  "uart_drain 0 s = Blocked"
| "uart_drain (Suc fuel) s =
     (case uartgetc s of (c, s) \<Rightarrow>
        if c = -1 then Ok s else bindR (consoleintr c s) (uart_drain fuel))"

definition uartintr :: "'z consst_scheme \<Rightarrow> 'z consst_scheme res" where
  "uartintr s = bindR (uart_drain (Suc (length (lsr_in s))) s) (\<lambda>s. Ok (uartstart s))"

end
