(* ===== verification/File.thy ===== *)
theory File
  imports Console
begin

text \<open>
  Open files, \<^verbatim>\<open>kernel/file.c\<close>, and pipes, \<^verbatim>\<open>kernel/pipe.c\<close>.  A file pointer is an index of the
  file table.  A pipe lives in a page from the allocator; \<open>pipes\<close> gives the structure at each page
  address.  \<open>Pipe_Fifo\<close> proves that a pipe is a queue of bytes.
\<close>

section \<open>State\<close>

definition PIPESIZE :: nat where [params]: "PIPESIZE = 512"
definition CONSOLE :: nat where [params]: "CONSOLE = 1"

datatype ftype = FD_NONE | FD_PIPE | FD_INODE | FD_DEVICE

record filerec =
  ftype :: ftype
  fref :: int
  readable :: bool
  writable :: bool
  fpipe :: uint64
  fip :: nat
  foff :: uint
  fmajor :: ushort

record pipe =
  pdata :: "byte list"
  nread :: uint
  nwrite :: uint
  readopen :: bool
  writeopen :: bool

text \<open>The functions that \<open>devsw\<close> can hold: the console is the only device.\<close>

datatype devfn = Consoleread | Consolewrite

record filest = consst +
  ftable :: "filerec list"
  pipes :: "uint64 \<Rightarrow> pipe"
  devsw_read :: "devfn option list"
  devsw_write :: "devfn option list"

abbreviation upd_file :: "nat \<Rightarrow> (filerec \<Rightarrow> filerec) \<Rightarrow> 'z filest_scheme \<Rightarrow> 'z filest_scheme" where
  "upd_file i f s \<equiv> s\<lparr>ftable := (ftable s)[i := f (ftable s ! i)]\<rparr>"

abbreviation upd_pipe :: "uint64 \<Rightarrow> (pipe \<Rightarrow> pipe) \<Rightarrow> 'z filest_scheme \<Rightarrow> 'z filest_scheme" where
  "upd_pipe pi f s \<equiv> s\<lparr>pipes := (pipes s)(pi := f (pipes s pi))\<rparr>"

definition consoleinit :: "'z filest_scheme \<Rightarrow> 'z filest_scheme" where
  "consoleinit s =
     (let s = uartinit s
      in s\<lparr>devsw_read := (devsw_read s)[CONSOLE := Some Consoleread],
           devsw_write := (devsw_write s)[CONSOLE := Some Consolewrite]\<rparr>)"

fun dev_call ::
  "devfn \<Rightarrow> bool \<Rightarrow> uint64 \<Rightarrow> int \<Rightarrow> 'z filest_scheme \<Rightarrow> (int \<times> 'z filest_scheme) res" where
  "dev_call Consoleread u a n s = consoleread u a n s"
| "dev_call Consolewrite u a n s = consolewrite u a n s"

section \<open>The file table\<close>

fun find_file :: "nat \<Rightarrow> filerec list \<Rightarrow> nat option" where
  "find_file i [] = None"
| "find_file i (f # fs) = (if fref f = 0 then Some i else find_file (Suc i) fs)"

definition filealloc :: "'z filest_scheme \<Rightarrow> nat option \<times> 'z filest_scheme" where
  "filealloc s =
     (case find_file 0 (ftable s) of None \<Rightarrow> (None, s)
      | Some f \<Rightarrow> (Some f, upd_file f (fref_update (\<lambda>_. 1)) s))"

definition filedup :: "nat \<Rightarrow> 'z filest_scheme \<Rightarrow> 'z filest_scheme res" where
  "filedup f s =
     (if fref (ftable s ! f) < 1 then Panic ''filedup''
      else Ok (upd_file f (\<lambda>x. x\<lparr>fref := fref x + 1\<rparr>) s))"

section \<open>Pipes\<close>

definition pipeclose :: "uint64 \<Rightarrow> bool \<Rightarrow> 'z filest_scheme \<Rightarrow> 'z filest_scheme res" where
  "pipeclose pi wr s =
     (let s = (if wr
               then wakeup (Chan_pipe_read (unat pi)) (upd_pipe pi (writeopen_update (\<lambda>_. False)) s)
               else wakeup (Chan_pipe_write (unat pi)) (upd_pipe pi (readopen_update (\<lambda>_. False)) s))
      in if \<not> readopen (pipes s pi) \<and> \<not> writeopen (pipes s pi) then kfree pi s else Ok s)"

text \<open>
  \<open>pipewrite\<close> from the point where \<open>i\<close> bytes are written and \<open>k\<close> are left, up to its return (\<open>Inl\<close>)
  or to the next time it sleeps on \<open>pi->nwrite\<close> (\<open>Inr i\<close>).
\<close>

primrec pipewrite_run ::
  "uint64 \<Rightarrow> uint64 \<Rightarrow> nat \<Rightarrow> nat \<Rightarrow> nat \<Rightarrow> 'z filest_scheme \<Rightarrow> ((int + nat) \<times> 'z filest_scheme) res" where
  "pipewrite_run pi addr pr i 0 s = Ok (Inl (int i), wakeup (Chan_pipe_read (unat pi)) s)"
| "pipewrite_run pi addr pr i (Suc k) s =
     (if \<not> readopen (pipes s pi) \<or> killed (proc s ! pr) \<noteq> 0 then Ok (Inl (-1), s)
      else if nwrite (pipes s pi) = nread (pipes s pi) + of_nat PIPESIZE
      then Ok (Inr i, wakeup (Chan_pipe_read (unat pi)) s)
      else bindR (copyin (pagetable (proc s ! pr)) (addr + of_nat i) 1 s) (\<lambda>(r, bs).
        if r = -1 then Ok (Inl (int i), wakeup (Chan_pipe_read (unat pi)) s)
        else pipewrite_run pi addr pr (Suc i) k
          (upd_pipe pi (\<lambda>x. x\<lparr>pdata := (pdata x)[unat (nwrite x) mod PIPESIZE := bs ! 0],
             nwrite := nwrite x + 1\<rparr>) s)))"

definition pipewrite :: "uint64 \<Rightarrow> uint64 \<Rightarrow> int \<Rightarrow> 'z filest_scheme \<Rightarrow> (int \<times> 'z filest_scheme) res" where
  "pipewrite pi addr n s =
     bindR (myproc s) (\<lambda>pr.
     bindR (pipewrite_run pi addr pr 0 (nat n) s) (\<lambda>(r, s).
       case r of Inl v \<Rightarrow> Ok (v, s) | Inr _ \<Rightarrow> Blocked))"

primrec piperead_loop ::
  "uint64 \<Rightarrow> uint64 \<Rightarrow> nat \<Rightarrow> nat \<Rightarrow> nat \<Rightarrow> 'z filest_scheme \<Rightarrow> (nat \<times> 'z filest_scheme) res" where
  "piperead_loop pi addr pr i 0 s = Ok (i, s)"
| "piperead_loop pi addr pr i (Suc k) s =
     (if nread (pipes s pi) = nwrite (pipes s pi) then Ok (i, s)
      else let ch = pdata (pipes s pi) ! (unat (nread (pipes s pi)) mod PIPESIZE);
               s = upd_pipe pi (\<lambda>x. x\<lparr>nread := nread x + 1\<rparr>) s
           in bindR (copyout (pagetable (proc s ! pr)) (addr + of_nat i) [ch] s) (\<lambda>(r, s).
                if r = -1 then Ok (i, s) else piperead_loop pi addr pr (Suc i) k s))"

definition piperead :: "uint64 \<Rightarrow> uint64 \<Rightarrow> int \<Rightarrow> 'z filest_scheme \<Rightarrow> (int \<times> 'z filest_scheme) res" where
  "piperead pi addr n s =
     bindR (myproc s) (\<lambda>pr.
       if nread (pipes s pi) = nwrite (pipes s pi) \<and> writeopen (pipes s pi)
       then if killed (proc s ! pr) \<noteq> 0 then Ok (-1, s) else Blocked
       else bindR (piperead_loop pi addr pr 0 (nat n) s) (\<lambda>(i, s).
         Ok (int i, wakeup (Chan_pipe_write (unat pi)) s)))"

section \<open>Closing, creating pipes, and file metadata\<close>

definition fileclose :: "nat \<Rightarrow> 'z filest_scheme \<Rightarrow> 'z filest_scheme res" where
  "fileclose f s =
     (if fref (ftable s ! f) < 1 then Panic ''fileclose''
      else let s = upd_file f (\<lambda>x. x\<lparr>fref := fref x - 1\<rparr>) s
      in if fref (ftable s ! f) > 0 then Ok s
         else let ff = ftable s ! f;
                  s = upd_file f (\<lambda>x. x\<lparr>fref := 0, ftype := FD_NONE\<rparr>) s
              in if ftype ff = FD_PIPE then pipeclose (fpipe ff) (writable ff) s
                 else if ftype ff = FD_INODE \<or> ftype ff = FD_DEVICE
                 then bindR (begin_op s) (\<lambda>s. bindR (iput (fip ff) s) end_op)
                 else Ok s)"

text \<open>\<open>pipealloc\<close>: \<open>Some (f0, f1)\<close> for 0, \<open>None\<close> for -1.\<close>

definition pipealloc :: "'z filest_scheme \<Rightarrow> ((nat \<times> nat) option \<times> 'z filest_scheme) res" where
  "pipealloc s =
     (case filealloc s of
        (None, s) \<Rightarrow> Ok (None, s)
      | (Some f0, s) \<Rightarrow>
        (case filealloc s of
           (None, s) \<Rightarrow> bindR (fileclose f0 s) (\<lambda>s. Ok (None, s))
         | (Some f1, s) \<Rightarrow>
           (case kalloc s of (pi, s) \<Rightarrow>
              if pi = 0
              then bindR (fileclose f0 s) (\<lambda>s. bindR (fileclose f1 s) (\<lambda>s. Ok (None, s)))
              else let s = upd_pipe pi (\<lambda>x. x\<lparr>readopen := True, writeopen := True,
                             nwrite := 0, nread := 0\<rparr>) s;
                       s = upd_file f0 (\<lambda>x. x\<lparr>ftype := FD_PIPE, readable := True,
                             writable := False, fpipe := pi\<rparr>) s;
                       s = upd_file f1 (\<lambda>x. x\<lparr>ftype := FD_PIPE, readable := False,
                             writable := True, fpipe := pi\<rparr>) s
                   in Ok (Some (f0, f1), s))))"

text \<open>\<open>struct stat\<close> as its 24 bytes.\<close>

definition stat_bytes :: "stat \<Rightarrow> byte list" where
  "stat_bytes st =
     le_bytes 4 (stdev st) @ le_bytes 4 (stino st) @ le_bytes 2 (sttype st) @
     le_bytes 2 (stnlink st) @ replicate 4 0 @ le_bytes 8 (stsize st)"

definition filestat :: "nat \<Rightarrow> uint64 \<Rightarrow> 'z filest_scheme \<Rightarrow> (int \<times> 'z filest_scheme) res" where
  "filestat f addr s =
     bindR (myproc s) (\<lambda>p.
     if ftype (ftable s ! f) = FD_INODE \<or> ftype (ftable s ! f) = FD_DEVICE
     then let ip = fip (ftable s ! f)
          in bindR (ilock ip s) (\<lambda>s.
             let st = stati ip s
             in bindR (iunlock ip s) (\<lambda>s.
                bindR (copyout (pagetable (proc s ! p)) addr (stat_bytes st) s) (\<lambda>(r, s).
                  Ok (if r < 0 then -1 else 0, s))))
     else Ok (-1, s))"

section \<open>Reading and writing\<close>

text \<open>The entry of \<open>devsw\<close> for a major number, with the range check.\<close>

definition dev_entry :: "devfn option list \<Rightarrow> ushort \<Rightarrow> devfn option" where
  "dev_entry sw mj =
     (if sint mj < 0 \<or> sint mj \<ge> int NDEV then None else sw ! unat mj)"

definition fileread :: "nat \<Rightarrow> uint64 \<Rightarrow> int \<Rightarrow> 'z filest_scheme \<Rightarrow> (int \<times> 'z filest_scheme) res" where
  "fileread f addr n s =
     (let ff = ftable s ! f
      in if \<not> readable ff then Ok (-1, s)
         else case ftype ff of
           FD_PIPE \<Rightarrow> piperead (fpipe ff) addr n s
         | FD_DEVICE \<Rightarrow> (case dev_entry (devsw_read s) (fmajor ff) of
             None \<Rightarrow> Ok (-1, s) | Some fn \<Rightarrow> dev_call fn True addr n s)
         | FD_INODE \<Rightarrow>
             bindR (ilock (fip ff) s) (\<lambda>s.
             bindR (readi (fip ff) (To_user addr) (foff (ftable s ! f)) (word_of_int n) s) (\<lambda>(r, _, s).
             let s = (if r > 0 then upd_file f (\<lambda>x. x\<lparr>foff := foff x + word_of_int r\<rparr>) s else s)
             in bindR (iunlock (fip ff) s) (\<lambda>s. Ok (r, s))))
         | FD_NONE \<Rightarrow> Panic ''fileread'')"

definition write_max :: int where
  "write_max = int (((MAXOPBLOCKS - 1 - 1 - 2) div 2) * BSIZE)"

function filewrite_loop ::
  "nat \<Rightarrow> uint64 \<Rightarrow> int \<Rightarrow> int \<Rightarrow> 'z filest_scheme \<Rightarrow> (int \<times> 'z filest_scheme) res" where
  "filewrite_loop f addr n i s =
     (if i < n
      then let n1 = (if n - i > write_max then write_max else n - i);
               ip = fip (ftable s ! f)
           in bindR (begin_op s) (\<lambda>s.
              bindR (ilock ip s) (\<lambda>s.
              bindR (writei ip (From_user (addr + word_of_int i)) (foff (ftable s ! f))
                       (word_of_int n1) s) (\<lambda>(r, s).
              let s = (if r > 0 then upd_file f (\<lambda>x. x\<lparr>foff := foff x + word_of_int r\<rparr>) s else s)
              in bindR (iunlock ip s) (\<lambda>s.
                 bindR (end_op s) (\<lambda>s.
                   if r \<noteq> n1 then Ok (i, s) else filewrite_loop f addr n (i + r) s)))))
      else Ok (i, s))"
  by pat_completeness auto
termination
  by (relation "measure (\<lambda>(f, addr, n, i, s). nat (n - i))")
    (auto simp: write_max_def MAXOPBLOCKS_def BSIZE_def split: if_splits)

declare filewrite_loop.simps [simp del]

definition filewrite :: "nat \<Rightarrow> uint64 \<Rightarrow> int \<Rightarrow> 'z filest_scheme \<Rightarrow> (int \<times> 'z filest_scheme) res" where
  "filewrite f addr n s =
     (let ff = ftable s ! f
      in if \<not> writable ff then Ok (-1, s)
         else case ftype ff of
           FD_PIPE \<Rightarrow> pipewrite (fpipe ff) addr n s
         | FD_DEVICE \<Rightarrow> (case dev_entry (devsw_write s) (fmajor ff) of
             None \<Rightarrow> Ok (-1, s) | Some fn \<Rightarrow> dev_call fn True addr n s)
         | FD_INODE \<Rightarrow>
             bindR (filewrite_loop f addr n 0 s) (\<lambda>(i, s). Ok (if i = n then n else -1, s))
         | FD_NONE \<Rightarrow> Panic ''filewrite'')"

end
