(* ===== verification/Process.thy ===== *)
theory Process
  imports File
begin

text \<open>
  The process operations of \<^verbatim>\<open>kernel/proc.c\<close> that also use the file system: \<open>userinit\<close>, \<open>fork\<close>
  and \<open>exit\<close>, and program loading, \<^verbatim>\<open>kernel/exec.c\<close> with the ELF structures of
  \<^verbatim>\<open>kernel/elf.h\<close>.
\<close>

section \<open>Trap frames\<close>

text \<open>
  The trap frame of a process is a page of physical memory; a register is its byte offset in
  \<open>struct trapframe\<close> of \<^verbatim>\<open>kernel/proc.h\<close>.
\<close>

definition TF_kernel_satp :: nat where "TF_kernel_satp = 0"
definition TF_kernel_sp :: nat where "TF_kernel_sp = 8"
definition TF_kernel_trap :: nat where "TF_kernel_trap = 16"
definition TF_epc :: nat where "TF_epc = 24"
definition TF_kernel_hartid :: nat where "TF_kernel_hartid = 32"
definition TF_sp :: nat where "TF_sp = 48"
definition TF_a0 :: nat where "TF_a0 = 112"
definition TF_a1 :: nat where "TF_a1 = 120"
definition TF_a7 :: nat where "TF_a7 = 168"
definition TF_size :: nat where "TF_size = 288"

definition tf_get :: "nat \<Rightarrow> nat \<Rightarrow> 'z procs_scheme \<Rightarrow> uint64" where
  "tf_get p r s = load64 (phys s) (trapframe (proc s ! p) + of_nat r)"

definition tf_set :: "nat \<Rightarrow> nat \<Rightarrow> uint64 \<Rightarrow> 'z procs_scheme \<Rightarrow> 'z procs_scheme" where
  "tf_set p r v s = s\<lparr>phys := store64 (phys s) (trapframe (proc s ! p) + of_nat r) v\<rparr>"

section \<open>The first process\<close>

definition initcode :: "byte list" where
  "initcode =
    [0x17, 0x05, 0x00, 0x00, 0x13, 0x05, 0x45, 0x02,
     0x97, 0x05, 0x00, 0x00, 0x93, 0x85, 0x35, 0x02,
     0x93, 0x08, 0x70, 0x00, 0x73, 0x00, 0x00, 0x00,
     0x93, 0x08, 0x20, 0x00, 0x73, 0x00, 0x00, 0x00,
     0xef, 0xf0, 0x9f, 0xff, 0x2f, 0x69, 0x6e, 0x69,
     0x74, 0x00, 0x00, 0x24, 0x00, 0x00, 0x00, 0x00,
     0x00, 0x00, 0x00, 0x00]"

definition userinit :: "uint64 \<Rightarrow> 'z filest_scheme \<Rightarrow> 'z filest_scheme res" where
  "userinit forkret s =
     bindR (allocproc forkret s) (\<lambda>(r, s).
     let s = s\<lparr>initproc := r\<rparr>
     in case r of None \<Rightarrow> Panic ''kerneltrap''
      | Some p \<Rightarrow>
          bindR (uvminit (pagetable (proc s ! p)) initcode s) (\<lambda>s.
          let s = upd_proc p (sz_update (\<lambda>_. PGSIZE)) s;
              s = tf_set p TF_epc 0 s;
              s = tf_set p TF_sp PGSIZE s;
              s = upd_proc p (\<lambda>q. q\<lparr>pname := safestrcpy (pname q) (str_at (bytes ''initcode'')) 16\<rparr>) s
          in bindR (namei (bytes ''/'') s) (\<lambda>(ip, s).
             let s = upd_proc p (cwd_update (\<lambda>_. ip)) s
             in Ok (upd_proc p (pstate_update (\<lambda>_. RUNNABLE)) s))))"

section \<open>Fork and exit\<close>

text \<open>The loop of \<open>fork\<close> over the parent's descriptors.\<close>

definition fork_file :: "nat \<Rightarrow> nat \<Rightarrow> nat \<Rightarrow> 'z filest_scheme \<Rightarrow> 'z filest_scheme res" where
  "fork_file p np i s =
     (case ofile (proc s ! p) ! i of None \<Rightarrow> Ok s
      | Some f \<Rightarrow> bindR (filedup f s) (\<lambda>s.
          Ok (upd_proc np (\<lambda>q. q\<lparr>ofile := (ofile q)[i := Some f]\<rparr>) s)))"

definition fork :: "uint64 \<Rightarrow> 'z filest_scheme \<Rightarrow> (int \<times> 'z filest_scheme) res" where
  "fork forkret s =
     bindR (myproc s) (\<lambda>p.
     bindR (allocproc forkret s) (\<lambda>(r, s).
       case r of None \<Rightarrow> Ok (-1, s)
       | Some np \<Rightarrow>
         bindR (uvmcopy (pagetable (proc s ! p)) (pagetable (proc s ! np)) (sz (proc s ! p)) s) (\<lambda>(r, s).
         if r < 0 then bindR (freeproc np s) (\<lambda>s. Ok (-1, s))
         else let s = upd_proc np (sz_update (\<lambda>_. sz (proc s ! p))) s;
                  s = s\<lparr>phys := store_bytes (phys s) (trapframe (proc s ! np))
                        (load_bytes (phys s) (trapframe (proc s ! p)) TF_size)\<rparr>;
                  s = tf_set np TF_a0 0 s
              in bindR (foldR (fork_file p np) [0..<NOFILE] s) (\<lambda>s.
                 case cwd (proc s ! p) of None \<Rightarrow> Panic ''kerneltrap''
                 | Some ip \<Rightarrow>
                   let s = idup ip s;
                       s = upd_proc np (cwd_update (\<lambda>_. Some ip)) s;
                       s = upd_proc np (\<lambda>q. q\<lparr>pname :=
                             safestrcpy (pname q) (str_at (pname (proc s ! p))) 16\<rparr>) s;
                       pd = pid (proc s ! np);
                       s = upd_proc np (parent_update (\<lambda>_. Some p)) s;
                       s = upd_proc np (pstate_update (\<lambda>_. RUNNABLE)) s
                   in Ok (pd, s)))))"

definition exit_file :: "nat \<Rightarrow> nat \<Rightarrow> 'z filest_scheme \<Rightarrow> 'z filest_scheme res" where
  "exit_file p fd s =
     (case ofile (proc s ! p) ! fd of None \<Rightarrow> Ok s
      | Some f \<Rightarrow> bindR (fileclose f s) (\<lambda>s.
          Ok (upd_proc p (\<lambda>q. q\<lparr>ofile := (ofile q)[fd := None]\<rparr>) s)))"

text \<open>\<open>exit\<close> does not return: the result is the state in which it jumps into the scheduler.\<close>

definition exit :: "int \<Rightarrow> 'z filest_scheme \<Rightarrow> 'z filest_scheme res" where
  "exit status s =
     bindR (myproc s) (\<lambda>p.
     if initproc s = Some p then Panic ''init exiting''
     else bindR (foldR (exit_file p) [0..<NOFILE] s) (\<lambda>s.
          bindR (begin_op s) (\<lambda>s.
          case cwd (proc s ! p) of None \<Rightarrow> Panic ''kerneltrap''
          | Some ip \<Rightarrow>
            bindR (iput ip s) (\<lambda>s.
            bindR (end_op s) (\<lambda>s.
            let s = upd_proc p (cwd_update (\<lambda>_. None)) s;
                s = reparent p s;
                s = (case parent (proc s ! p) of None \<Rightarrow> s | Some pp \<Rightarrow> wakeup (Chan_proc pp) s)
            in Ok (upd_proc p (\<lambda>q. q\<lparr>xstate := status, pstate := ZOMBIE\<rparr>) s))))))"

section \<open>Program loading\<close>

definition ELF_MAGIC :: uint where "ELF_MAGIC = 0x464C457F"
definition ELF_PROG_LOAD :: uint where "ELF_PROG_LOAD = 1"

text \<open>The fields of \<open>struct elfhdr\<close> (64 bytes) and \<open>struct proghdr\<close> (56 bytes) that \<open>exec\<close> uses.\<close>

definition get64 :: "byte list \<Rightarrow> nat \<Rightarrow> uint64" where
  "get64 bs off = of_le (take 8 (drop off bs))"

record elfhdr =
  emagic :: uint
  eentry :: uint64
  ephoff :: uint64
  ephnum :: ushort

definition elfhdr_of :: "byte list \<Rightarrow> elfhdr" where
  "elfhdr_of d = \<lparr>emagic = get32 d 0, eentry = get64 d 24, ephoff = get64 d 32, ephnum = get16 d 56\<rparr>"

record proghdr =
  ph_type :: uint
  ph_off :: uint64
  ph_vaddr :: uint64
  ph_filesz :: uint64
  ph_memsz :: uint64

definition proghdr_of :: "byte list \<Rightarrow> proghdr" where
  "proghdr_of d = \<lparr>ph_type = get32 d 0, ph_off = get64 d 8, ph_vaddr = get64 d 16,
     ph_filesz = get64 d 32, ph_memsz = get64 d 40\<rparr>"

text \<open>
  The loop of \<open>loadseg\<close> over the page offsets.  Its \<open>offset\<close> and \<open>sz\<close> are 32-bit parameters, so
  the values of the program header are truncated.
\<close>

primrec loadseg_loop ::
  "uint64 \<Rightarrow> uint64 \<Rightarrow> nat \<Rightarrow> uint \<Rightarrow> nat \<Rightarrow> nat list \<Rightarrow> 'z filest_scheme \<Rightarrow> (int \<times> 'z filest_scheme) res" where
  "loadseg_loop pt va ip offset n [] s = Ok (0, s)"
| "loadseg_loop pt va ip offset n (i # is) s =
     bindR (walkaddr pt (va + of_nat i) s) (\<lambda>pa.
       if pa = 0 then Panic ''loadseg: address should exist''
       else let m = (if n - i < 4096 then n - i else 4096)
            in bindR (readi ip (To_kernel pa) (offset + of_nat i) (of_nat m) s) (\<lambda>(r, _, s).
                 if r \<noteq> int m then Ok (-1, s) else loadseg_loop pt va ip offset n is s))"

definition loadseg ::
  "uint64 \<Rightarrow> uint64 \<Rightarrow> nat \<Rightarrow> uint \<Rightarrow> uint \<Rightarrow> 'z filest_scheme \<Rightarrow> (int \<times> 'z filest_scheme) res" where
  "loadseg pt va ip offset n s = loadseg_loop pt va ip offset (unat n) (strides 4096 (unat n)) s"

text \<open>
  The loop of \<open>exec\<close> over \<open>k\<close> program headers from file offset \<open>off\<close>: whether it ends without an
  error, and the size of the image.
\<close>

primrec exec_load ::
  "uint64 \<Rightarrow> nat \<Rightarrow> nat \<Rightarrow> uint \<Rightarrow> uint64 \<Rightarrow> 'z filest_scheme \<Rightarrow> (bool \<times> uint64 \<times> 'z filest_scheme) res" where
  "exec_load pt ip 0 off n s = Ok (True, n, s)"
| "exec_load pt ip (Suc k) off n s =
     bindR (readi ip To_local off 56 s) (\<lambda>(r, bs, s).
     let ph = proghdr_of bs
     in if r \<noteq> 56 then Ok (False, n, s)
        else if ph_type ph \<noteq> ELF_PROG_LOAD then exec_load pt ip k (off + 56) n s
        else if ph_memsz ph < ph_filesz ph then Ok (False, n, s)
        else if ph_vaddr ph + ph_memsz ph < ph_vaddr ph then Ok (False, n, s)
        else bindR (uvmalloc pt n (ph_vaddr ph + ph_memsz ph) s) (\<lambda>(sz1, s).
             if sz1 = 0 then Ok (False, n, s)
             else if ph_vaddr ph mod PGSIZE \<noteq> 0 then Ok (False, sz1, s)
             else bindR (loadseg pt (ph_vaddr ph) ip (ucast (ph_off ph)) (ucast (ph_filesz ph)) s)
               (\<lambda>(r, s). if r < 0 then Ok (False, sz1, s) else exec_load pt ip k (off + 56) sz1 s)))"

text \<open>
  The loop that pushes the argument strings: the stack pointer and \<open>ustack\<close>, or \<open>None\<close>.  A
  stack pointer rounded down to a multiple of 16.
\<close>

definition align16 :: "uint64 \<Rightarrow> uint64" where
  "align16 a = a - a mod 16"

fun push_args ::
  "uint64 \<Rightarrow> uint64 \<Rightarrow> byte list list \<Rightarrow> uint64 \<Rightarrow> uint64 list \<Rightarrow> 'z kmem_scheme \<Rightarrow>
    ((uint64 \<times> uint64 list) option \<times> 'z kmem_scheme) res" where
  "push_args pt stackbase [] p ustack s = Ok (Some (p, ustack), s)"
| "push_args pt stackbase (arg # argv) p ustack s =
     (if length ustack \<ge> MAXARG then Ok (None, s)
      else let p = align16 (p - (of_nat (length arg) + 1))
      in if p < stackbase then Ok (None, s)
         else bindR (copyout pt p (arg @ [0]) s) (\<lambda>(r, s).
              if r < 0 then Ok (None, s) else push_args pt stackbase argv p (ustack @ [p]) s))"

text \<open>The part of \<open>exec\<close> that builds the user stack: the stack pointer and \<open>argc\<close>, or \<open>None\<close>.\<close>

definition exec_stack ::
  "uint64 \<Rightarrow> uint64 \<Rightarrow> byte list list \<Rightarrow> 'z kmem_scheme \<Rightarrow> ((uint64 \<times> nat) option \<times> 'z kmem_scheme) res" where
  "exec_stack pt n argv s =
     (let stackbase = n - PGSIZE
      in bindR (push_args pt stackbase argv n [] s) (\<lambda>(r, s).
         case r of None \<Rightarrow> Ok (None, s)
         | Some (p, ustack) \<Rightarrow>
           let argc = length ustack;
               p = align16 (p - (of_nat argc + 1) * 8)
           in if p < stackbase then Ok (None, s)
              else bindR (copyout pt p (concat (map (le_bytes 8) (ustack @ [0]))) s) (\<lambda>(r, s).
                   if r < 0 then Ok (None, s) else Ok (Some (p, argc), s))))"

text \<open>The last path element, as \<open>exec\<close> computes it.\<close>

fun last_elem :: "byte list \<Rightarrow> byte list \<Rightarrow> byte list" where
  "last_elem cur [] = cur"
| "last_elem cur (c # rest) = last_elem (if c = slash then rest else cur) rest"

text \<open>The error exit once the inode has been released: \<open>ip\<close> is null, the page table is not.\<close>

definition exec_bad :: "uint64 \<Rightarrow> uint64 \<Rightarrow> 'z filest_scheme \<Rightarrow> (int \<times> 'z filest_scheme) res" where
  "exec_bad pt n s = bindR (proc_freepagetable pt n s) (\<lambda>s. Ok (-1, s))"

text \<open>The second half of \<open>exec\<close>: build the stack, then commit to the new image.\<close>

definition exec_commit ::
  "nat \<Rightarrow> byte list \<Rightarrow> byte list list \<Rightarrow> uint64 \<Rightarrow> uint64 \<Rightarrow> uint64 \<Rightarrow> 'z filest_scheme \<Rightarrow>
    (int \<times> 'z filest_scheme) res" where
  "exec_commit p path argv entry pt n s =
     (let oldsz = sz (proc s ! p);
          n = PGROUNDUP n
      in bindR (uvmalloc pt n (n + 2 * PGSIZE) s) (\<lambda>(sz1, s).
         if sz1 = 0 then exec_bad pt n s
         else bindR (uvmclear pt (sz1 - 2 * PGSIZE) s) (\<lambda>s.
              bindR (exec_stack pt sz1 argv s) (\<lambda>(r, s).
              case r of None \<Rightarrow> exec_bad pt sz1 s
              | Some (stk, argc) \<Rightarrow>
                let s = tf_set p TF_a1 stk s;
                    s = upd_proc p (\<lambda>q. q\<lparr>pname :=
                          safestrcpy (pname q) (str_at (last_elem path path)) 16\<rparr>) s;
                    oldpagetable = pagetable (proc s ! p);
                    s = upd_proc p (\<lambda>q. q\<lparr>pagetable := pt, sz := sz1\<rparr>) s;
                    s = tf_set p TF_epc entry s;
                    s = tf_set p TF_sp stk s
                in bindR (proc_freepagetable oldpagetable oldsz s) (\<lambda>s. Ok (int argc, s))))))"

definition exec :: "byte list \<Rightarrow> byte list list \<Rightarrow> 'z filest_scheme \<Rightarrow> (int \<times> 'z filest_scheme) res" where
  "exec path argv s =
     bindR (myproc s) (\<lambda>p.
     bindR (begin_op s) (\<lambda>s.
     bindR (namei path s) (\<lambda>(r, s).
     case r of None \<Rightarrow> bindR (end_op s) (\<lambda>s. Ok (-1, s))
     | Some ip \<Rightarrow>
       bindR (ilock ip s) (\<lambda>s.
       bindR (readi ip To_local 0 64 s) (\<lambda>(r, bs, s).
       let elf = elfhdr_of bs
       in if r \<noteq> 64 \<or> emagic elf \<noteq> ELF_MAGIC
          then bindR (iunlockput ip s) (\<lambda>s. bindR (end_op s) (\<lambda>s. Ok (-1, s)))
          else bindR (proc_pagetable p s) (\<lambda>(pt, s).
               if pt = 0 then bindR (iunlockput ip s) (\<lambda>s. bindR (end_op s) (\<lambda>s. Ok (-1, s)))
               else bindR (exec_load pt ip (unat (ephnum elf)) (ucast (ephoff elf)) 0 s) (\<lambda>(good, n, s).
                    if \<not> good
                    then bindR (proc_freepagetable pt n s) (\<lambda>s.
                         bindR (iunlockput ip s) (\<lambda>s.
                         bindR (end_op s) (\<lambda>s. Ok (-1, s))))
                    else bindR (iunlockput ip s) (\<lambda>s.
                         bindR (end_op s) (\<lambda>s.
                         exec_commit p path argv (eentry elf) pt n s)))))))))"

end
