(* ===== verification/Sysfile.thy ===== *)
theory Sysfile
  imports Process
begin

text \<open>
  System call arguments, \<^verbatim>\<open>kernel/syscall.c\<close>, and the file-related system calls,
  \<^verbatim>\<open>kernel/sysfile.c\<close> with the flags of \<^verbatim>\<open>kernel/fcntl.h\<close>.  The result of a system call is the
  \<open>uint64\<close> that the caller finds in \<open>a0\<close>, as a signed number.
\<close>

section \<open>Arguments\<close>

definition fetchaddr :: "uint64 \<Rightarrow> 'z procs_scheme \<Rightarrow> uint64 option res" where
  "fetchaddr addr s =
     bindR (myproc s) (\<lambda>p.
       if addr \<ge> sz (proc s ! p) \<or> addr + 8 > sz (proc s ! p) then Ok None
       else bindR (copyin (pagetable (proc s ! p)) addr 8 s) (\<lambda>(r, bs).
         Ok (if r \<noteq> 0 then None else Some (of_le bs))))"

text \<open>\<open>fetchstr\<close> and \<open>argstr\<close> give the string, whose length is the C result, or \<open>None\<close> for -1.\<close>

definition fetchstr :: "uint64 \<Rightarrow> nat \<Rightarrow> 'z procs_scheme \<Rightarrow> byte list option res" where
  "fetchstr addr mx s =
     bindR (myproc s) (\<lambda>p.
     bindR (copyinstr (pagetable (proc s ! p)) addr mx s) (\<lambda>(r, bs).
       Ok (if r < 0 then None else Some (takeWhile (\<lambda>c. c \<noteq> 0) bs))))"

definition argraw :: "nat \<Rightarrow> 'z procs_scheme \<Rightarrow> uint64 res" where
  "argraw n s =
     bindR (myproc s) (\<lambda>p. if n < 6 then Ok (tf_get p (TF_a0 + 8 * n) s) else Panic ''argraw'')"

definition argint :: "nat \<Rightarrow> 'z procs_scheme \<Rightarrow> int res" where
  "argint n s = bindR (argraw n s) (\<lambda>v. Ok (sint (ucast v :: uint)))"

definition argaddr :: "nat \<Rightarrow> 'z procs_scheme \<Rightarrow> uint64 res" where
  "argaddr n s = argraw n s"

definition argstr :: "nat \<Rightarrow> nat \<Rightarrow> 'z procs_scheme \<Rightarrow> byte list option res" where
  "argstr n mx s = bindR (argaddr n s) (\<lambda>addr. fetchstr addr mx s)"

text \<open>\<open>argfd\<close>: the descriptor and the file, or \<open>None\<close> for -1.\<close>

definition argfd :: "nat \<Rightarrow> 'z procs_scheme \<Rightarrow> (nat \<times> nat) option res" where
  "argfd n s =
     bindR (argint n s) (\<lambda>fd.
     bindR (myproc s) (\<lambda>p.
       if fd < 0 \<or> fd \<ge> int NOFILE then Ok None
       else case ofile (proc s ! p) ! nat fd of None \<Rightarrow> Ok None | Some f \<Rightarrow> Ok (Some (nat fd, f))))"

definition fdalloc :: "nat \<Rightarrow> 'z procs_scheme \<Rightarrow> (nat option \<times> 'z procs_scheme) res" where
  "fdalloc f s =
     bindR (myproc s) (\<lambda>p.
       case find (\<lambda>fd. ofile (proc s ! p) ! fd = None) [0..<NOFILE] of
         None \<Rightarrow> Ok (None, s)
       | Some fd \<Rightarrow> Ok (Some fd, upd_proc p (\<lambda>q. q\<lparr>ofile := (ofile q)[fd := Some f]\<rparr>) s))"

abbreviation clear_fd :: "nat \<Rightarrow> nat \<Rightarrow> 'z procs_scheme \<Rightarrow> 'z procs_scheme" where
  "clear_fd p fd s \<equiv> upd_proc p (\<lambda>q. q\<lparr>ofile := (ofile q)[fd := None]\<rparr>) s"

section \<open>Descriptors\<close>

definition sys_dup :: "'z filest_scheme \<Rightarrow> (int \<times> 'z filest_scheme) res" where
  "sys_dup s =
     bindR (argfd 0 s) (\<lambda>r. case r of None \<Rightarrow> Ok (-1, s)
     | Some (_, f) \<Rightarrow>
       bindR (fdalloc f s) (\<lambda>(r, s). case r of None \<Rightarrow> Ok (-1, s)
       | Some fd \<Rightarrow> bindR (filedup f s) (\<lambda>s. Ok (int fd, s))))"

definition sys_read :: "'z filest_scheme \<Rightarrow> (int \<times> 'z filest_scheme) res" where
  "sys_read s =
     bindR (argfd 0 s) (\<lambda>r. case r of None \<Rightarrow> Ok (-1, s)
     | Some (_, f) \<Rightarrow>
       bindR (argint 2 s) (\<lambda>n. bindR (argaddr 1 s) (\<lambda>p. fileread f p n s)))"

definition sys_write :: "'z filest_scheme \<Rightarrow> (int \<times> 'z filest_scheme) res" where
  "sys_write s =
     bindR (argfd 0 s) (\<lambda>r. case r of None \<Rightarrow> Ok (-1, s)
     | Some (_, f) \<Rightarrow>
       bindR (argint 2 s) (\<lambda>n. bindR (argaddr 1 s) (\<lambda>p. filewrite f p n s)))"

definition sys_close :: "'z filest_scheme \<Rightarrow> (int \<times> 'z filest_scheme) res" where
  "sys_close s =
     bindR (argfd 0 s) (\<lambda>r. case r of None \<Rightarrow> Ok (-1, s)
     | Some (fd, f) \<Rightarrow>
       bindR (myproc s) (\<lambda>p. bindR (fileclose f (clear_fd p fd s)) (\<lambda>s. Ok (0, s))))"

definition sys_fstat :: "'z filest_scheme \<Rightarrow> (int \<times> 'z filest_scheme) res" where
  "sys_fstat s =
     bindR (argfd 0 s) (\<lambda>r. case r of None \<Rightarrow> Ok (-1, s)
     | Some (_, f) \<Rightarrow> bindR (argaddr 1 s) (\<lambda>st. filestat f st s))"

section \<open>Links\<close>

text \<open>The common ending \<open>iunlockput(ip); end_op(); return -1;\<close>, and the one without an inode.\<close>

definition fail_put :: "nat \<Rightarrow> 'z fsst_scheme \<Rightarrow> (int \<times> 'z fsst_scheme) res" where
  "fail_put ip s = bindR (iunlockput ip s) (\<lambda>s. bindR (end_op s) (\<lambda>s. Ok (-1, s)))"

definition fail_end :: "'z fsst_scheme \<Rightarrow> (int \<times> 'z fsst_scheme) res" where
  "fail_end s = bindR (end_op s) (\<lambda>s. Ok (-1, s))"

text \<open>The exit \<open>bad\<close> of \<open>sys_link\<close>.\<close>

definition link_bad :: "nat \<Rightarrow> 'z fsst_scheme \<Rightarrow> (int \<times> 'z fsst_scheme) res" where
  "link_bad ip s =
     bindR (ilock ip s) (\<lambda>s.
     bindR (iupdate ip (upd_inode ip (\<lambda>x. x\<lparr>nlink := nlink x - 1\<rparr>) s)) (fail_put ip))"

definition sys_link :: "'z fsst_scheme \<Rightarrow> (int \<times> 'z fsst_scheme) res" where
  "sys_link s =
     bindR (argstr 0 MAXPATH s) (\<lambda>old. bindR (if old = None then Ok None else argstr 1 MAXPATH s) (\<lambda>new.
     case (old, new) of
       (Some old, Some new) \<Rightarrow>
         bindR (begin_op s) (\<lambda>s.
         bindR (namei old s) (\<lambda>(r, s).
         case r of None \<Rightarrow> fail_end s
         | Some ip \<Rightarrow>
           bindR (ilock ip s) (\<lambda>s.
           if itype (itable s ! ip) = T_DIR then fail_put ip s
           else bindR (iupdate ip (upd_inode ip (\<lambda>x. x\<lparr>nlink := nlink x + 1\<rparr>) s)) (\<lambda>s.
                bindR (iunlock ip s) (\<lambda>s.
                bindR (nameiparent new (replicate DIRSIZ 0) s) (\<lambda>(r, nm, s).
                case r of None \<Rightarrow> link_bad ip s
                | Some dp \<Rightarrow>
                  bindR (ilock dp s) (\<lambda>s.
                  bindR (if idev (itable s ! dp) \<noteq> idev (itable s ! ip) then Ok (-1, s)
                         else dirlink dp nm (inum (itable s ! ip)) s) (\<lambda>(r, s).
                  bindR (iunlockput dp s) (\<lambda>s.
                  if r < 0 then link_bad ip s
                  else bindR (iput ip s) (\<lambda>s. bindR (end_op s) (\<lambda>s. Ok (0, s))))))))))))
     | _ \<Rightarrow> Ok (-1, s)))"

text \<open>The loop of \<open>isdirempty\<close>, from the third entry on.\<close>

primrec isdirempty_loop :: "nat \<Rightarrow> nat list \<Rightarrow> 'z fsst_scheme \<Rightarrow> (bool \<times> 'z fsst_scheme) res" where
  "isdirempty_loop dp [] s = Ok (True, s)"
| "isdirempty_loop dp (off # offs) s =
     bindR (readi dp To_local (of_nat off) 16 s) (\<lambda>(r, de, s).
       if r \<noteq> 16 then Panic ''isdirempty: readi''
       else if de_inum de \<noteq> 0 then Ok (False, s)
       else isdirempty_loop dp offs s)"

definition isdirempty :: "nat \<Rightarrow> 'z fsst_scheme \<Rightarrow> (bool \<times> 'z fsst_scheme) res" where
  "isdirempty dp s =
     isdirempty_loop dp (drop 2 (strides 16 (unat (isize (itable s ! dp))))) s"

definition dot :: "byte list" where "dot = [46]"
definition dotdot :: "byte list" where "dotdot = [46, 46]"

text \<open>\<open>sys_unlink\<close> once the entry at offset \<open>off\<close> of \<open>dp\<close> has been found to be the inode \<open>ip\<close>.\<close>

definition unlink_found :: "nat \<Rightarrow> nat \<Rightarrow> uint \<Rightarrow> 'z fsst_scheme \<Rightarrow> (int \<times> 'z fsst_scheme) res" where
  "unlink_found dp ip off s =
     bindR (ilock ip s) (\<lambda>s.
     if nlink (itable s ! ip) <s 1 then Panic ''unlink: nlink < 1''
     else bindR (if itype (itable s ! ip) = T_DIR then isdirempty ip s else Ok (True, s)) (\<lambda>(e, s).
     if \<not> e then bindR (iunlockput ip s) (fail_put dp)
     else bindR (writei dp (From_local (replicate 16 0)) off 16 s) (\<lambda>(r, s).
     if r \<noteq> 16 then Panic ''unlink: writei''
     else bindR (if itype (itable s ! ip) = T_DIR
                 then iupdate dp (upd_inode dp (\<lambda>x. x\<lparr>nlink := nlink x - 1\<rparr>) s) else Ok s) (\<lambda>s.
          bindR (iunlockput dp s) (\<lambda>s.
          bindR (iupdate ip (upd_inode ip (\<lambda>x. x\<lparr>nlink := nlink x - 1\<rparr>) s)) (\<lambda>s.
          bindR (iunlockput ip s) (\<lambda>s.
          bindR (end_op s) (\<lambda>s. Ok (0, s)))))))))"

definition sys_unlink :: "'z fsst_scheme \<Rightarrow> (int \<times> 'z fsst_scheme) res" where
  "sys_unlink s =
     bindR (argstr 0 MAXPATH s) (\<lambda>r. case r of None \<Rightarrow> Ok (-1, s)
     | Some path \<Rightarrow>
       bindR (begin_op s) (\<lambda>s.
       bindR (nameiparent path (replicate DIRSIZ 0) s) (\<lambda>(r, nm, s).
       case r of None \<Rightarrow> fail_end s
       | Some dp \<Rightarrow>
         bindR (ilock dp s) (\<lambda>s.
         if namecmp nm dot = 0 \<or> namecmp nm dotdot = 0 then fail_put dp s
         else bindR (dirlookup dp nm s) (\<lambda>(r, s).
              case r of None \<Rightarrow> fail_put dp s
              | Some (ip, off) \<Rightarrow> unlink_found dp ip off s)))))"

section \<open>Creating and opening\<close>

text \<open>\<open>create\<close> with no entry of that name in \<open>dp\<close>.\<close>

definition create_new ::
  "nat \<Rightarrow> byte list \<Rightarrow> ushort \<Rightarrow> ushort \<Rightarrow> ushort \<Rightarrow> 'z fsst_scheme \<Rightarrow> (nat option \<times> 'z fsst_scheme) res" where
  "create_new dp nm ty mj mn s =
     bindR (ialloc (idev (itable s ! dp)) ty s) (\<lambda>(ip, s).
     bindR (ilock ip s) (\<lambda>s.
     bindR (iupdate ip (upd_inode ip (\<lambda>x. x\<lparr>major := mj, minor := mn, nlink := 1\<rparr>) s)) (\<lambda>s.
     bindR (if ty = T_DIR
            then bindR (iupdate dp (upd_inode dp (\<lambda>x. x\<lparr>nlink := nlink x + 1\<rparr>) s)) (\<lambda>s.
                 bindR (dirlink ip dot (inum (itable s ! ip)) s) (\<lambda>(r, s).
                 if r < 0 then Panic ''create dots''
                 else bindR (dirlink ip dotdot (inum (itable s ! dp)) s) (\<lambda>(r, s).
                      if r < 0 then Panic ''create dots'' else Ok s)))
            else Ok s) (\<lambda>s.
     bindR (dirlink dp nm (inum (itable s ! ip)) s) (\<lambda>(r, s).
     if r < 0 then Panic ''create: dirlink''
     else bindR (iunlockput dp s) (\<lambda>s. Ok (Some ip, s)))))))"

definition create ::
  "byte list \<Rightarrow> ushort \<Rightarrow> ushort \<Rightarrow> ushort \<Rightarrow> 'z fsst_scheme \<Rightarrow> (nat option \<times> 'z fsst_scheme) res" where
  "create path ty mj mn s =
     bindR (nameiparent path (replicate DIRSIZ 0) s) (\<lambda>(r, nm, s).
     case r of None \<Rightarrow> Ok (None, s)
     | Some dp \<Rightarrow>
       bindR (ilock dp s) (\<lambda>s.
       bindR (dirlookup dp nm s) (\<lambda>(r, s).
       case r of
         Some (ip, _) \<Rightarrow>
           bindR (iunlockput dp s) (\<lambda>s.
           bindR (ilock ip s) (\<lambda>s.
           if ty = T_FILE \<and> (itype (itable s ! ip) = T_FILE \<or> itype (itable s ! ip) = T_DEVICE)
           then Ok (Some ip, s)
           else bindR (iunlockput ip s) (\<lambda>s. Ok (None, s))))
       | None \<Rightarrow> create_new dp nm ty mj mn s)))"

definition O_RDONLY :: uint where "O_RDONLY = 0x000"
definition O_WRONLY :: uint where "O_WRONLY = 0x001"
definition O_RDWR :: uint where "O_RDWR = 0x002"
definition O_CREATE :: uint where "O_CREATE = 0x200"
definition O_TRUNC :: uint where "O_TRUNC = 0x400"

text \<open>\<open>sys_open\<close> once the inode is found and locked.\<close>

definition open_inode :: "nat \<Rightarrow> uint \<Rightarrow> 'z filest_scheme \<Rightarrow> (int \<times> 'z filest_scheme) res" where
  "open_inode ip omode s =
     (if itype (itable s ! ip) = T_DEVICE \<and>
         (sint (major (itable s ! ip)) < 0 \<or> sint (major (itable s ! ip)) \<ge> int NDEV)
      then fail_put ip s
      else case filealloc s of
        (None, s) \<Rightarrow> fail_put ip s
      | (Some f, s) \<Rightarrow>
        bindR (fdalloc f s) (\<lambda>(r, s).
        case r of
          None \<Rightarrow> bindR (fileclose f s) (fail_put ip)
        | Some fd \<Rightarrow>
          let s = (if itype (itable s ! ip) = T_DEVICE
                   then upd_file f (\<lambda>x. x\<lparr>ftype := FD_DEVICE, fmajor := major (itable s ! ip)\<rparr>) s
                   else upd_file f (\<lambda>x. x\<lparr>ftype := FD_INODE, foff := 0\<rparr>) s);
              s = upd_file f (\<lambda>x. x\<lparr>fip := ip, readable := (omode AND O_WRONLY = 0),
                    writable := (omode AND O_WRONLY \<noteq> 0 \<or> omode AND O_RDWR \<noteq> 0)\<rparr>) s
          in bindR (if omode AND O_TRUNC \<noteq> 0 \<and> itype (itable s ! ip) = T_FILE
                    then itrunc ip s else Ok s) (\<lambda>s.
             bindR (iunlock ip s) (\<lambda>s.
             bindR (end_op s) (\<lambda>s. Ok (int fd, s))))))"

definition sys_open :: "'z filest_scheme \<Rightarrow> (int \<times> 'z filest_scheme) res" where
  "sys_open s =
     bindR (argstr 0 MAXPATH s) (\<lambda>r. case r of None \<Rightarrow> Ok (-1, s)
     | Some path \<Rightarrow>
       bindR (argint 1 s) (\<lambda>m.
       let omode = (word_of_int m :: uint)
       in bindR (begin_op s) (\<lambda>s.
          if omode AND O_CREATE \<noteq> 0
          then bindR (create path T_FILE 0 0 s) (\<lambda>(r, s).
               case r of None \<Rightarrow> fail_end s | Some ip \<Rightarrow> open_inode ip omode s)
          else bindR (namei path s) (\<lambda>(r, s).
               case r of None \<Rightarrow> fail_end s
               | Some ip \<Rightarrow>
                 bindR (ilock ip s) (\<lambda>s.
                 if itype (itable s ! ip) = T_DIR \<and> omode \<noteq> O_RDONLY then fail_put ip s
                 else open_inode ip omode s)))))"

definition sys_mkdir :: "'z fsst_scheme \<Rightarrow> (int \<times> 'z fsst_scheme) res" where
  "sys_mkdir s =
     bindR (begin_op s) (\<lambda>s.
     bindR (argstr 0 MAXPATH s) (\<lambda>r. case r of None \<Rightarrow> fail_end s
     | Some path \<Rightarrow>
       bindR (create path T_DIR 0 0 s) (\<lambda>(r, s). case r of None \<Rightarrow> fail_end s
       | Some ip \<Rightarrow> bindR (iunlockput ip s) (\<lambda>s. bindR (end_op s) (\<lambda>s. Ok (0, s))))))"

definition sys_mknod :: "'z fsst_scheme \<Rightarrow> (int \<times> 'z fsst_scheme) res" where
  "sys_mknod s =
     bindR (begin_op s) (\<lambda>s.
     bindR (argstr 0 MAXPATH s) (\<lambda>r. case r of None \<Rightarrow> fail_end s
     | Some path \<Rightarrow>
       bindR (argint 1 s) (\<lambda>mj. bindR (argint 2 s) (\<lambda>mn.
       bindR (create path T_DEVICE (word_of_int mj) (word_of_int mn) s) (\<lambda>(r, s).
       case r of None \<Rightarrow> fail_end s
       | Some ip \<Rightarrow> bindR (iunlockput ip s) (\<lambda>s. bindR (end_op s) (\<lambda>s. Ok (0, s))))))))"

definition sys_chdir :: "'z fsst_scheme \<Rightarrow> (int \<times> 'z fsst_scheme) res" where
  "sys_chdir s =
     bindR (myproc s) (\<lambda>p.
     bindR (begin_op s) (\<lambda>s.
     bindR (argstr 0 MAXPATH s) (\<lambda>r. case r of None \<Rightarrow> fail_end s
     | Some path \<Rightarrow>
       bindR (namei path s) (\<lambda>(r, s). case r of None \<Rightarrow> fail_end s
       | Some ip \<Rightarrow>
         bindR (ilock ip s) (\<lambda>s.
         if itype (itable s ! ip) \<noteq> T_DIR then fail_put ip s
         else bindR (iunlock ip s) (\<lambda>s.
              case cwd (proc s ! p) of None \<Rightarrow> Panic ''kerneltrap''
              | Some old \<Rightarrow>
                bindR (iput old s) (\<lambda>s.
                bindR (end_op s) (\<lambda>s.
                Ok (0, upd_proc p (cwd_update (\<lambda>_. Some ip)) s)))))))))"

section \<open>Exec and pipe\<close>

text \<open>
  The loop of \<open>sys_exec\<close> that copies the arguments, each into a page of its own: whether it
  ended without an error, the pages and the strings.  \<open>k\<close> of the \<open>MAXARG\<close> slots are left.
\<close>

primrec exec_args ::
  "nat \<Rightarrow> uint64 \<Rightarrow> nat \<Rightarrow> uint64 list \<Rightarrow> byte list list \<Rightarrow> 'z procs_scheme \<Rightarrow>
    (bool \<times> uint64 list \<times> byte list list \<times> 'z procs_scheme) res" where
  "exec_args 0 uargv i pages argv s = Ok (False, pages, argv, s)"
| "exec_args (Suc k) uargv i pages argv s =
     bindR (fetchaddr (uargv + 8 * of_nat i) s) (\<lambda>r.
     case r of None \<Rightarrow> Ok (False, pages, argv, s)
     | Some uarg \<Rightarrow>
       if uarg = 0 then Ok (True, pages, argv, s)
       else case kalloc s of (pa, s) \<Rightarrow>
         if pa = 0 then Ok (False, pages, argv, s)
         else bindR (fetchstr uarg 4096 s) (\<lambda>r.
           case r of None \<Rightarrow> Ok (False, pages @ [pa], argv, s)
           | Some str \<Rightarrow>
             exec_args k uargv (Suc i) (pages @ [pa]) (argv @ [str])
               (s\<lparr>phys := store_bytes (phys s) pa (str @ [0])\<rparr>)))"

definition sys_exec :: "'z filest_scheme \<Rightarrow> (int \<times> 'z filest_scheme) res" where
  "sys_exec s =
     bindR (argstr 0 MAXPATH s) (\<lambda>r. case r of None \<Rightarrow> Ok (-1, s)
     | Some path \<Rightarrow>
       bindR (argaddr 1 s) (\<lambda>uargv.
       bindR (exec_args MAXARG uargv 0 [] [] s) (\<lambda>(good, pages, argv, s).
       bindR (if good then exec path argv s else Ok (-1, s)) (\<lambda>(ret, s).
       bindR (foldR kfree pages s) (\<lambda>s. Ok (ret, s))))))"

definition sys_pipe :: "'z filest_scheme \<Rightarrow> (int \<times> 'z filest_scheme) res" where
  "sys_pipe s =
     bindR (myproc s) (\<lambda>p.
     bindR (argaddr 0 s) (\<lambda>fdarray.
     bindR (pipealloc s) (\<lambda>(r, s). case r of None \<Rightarrow> Ok (-1, s)
     | Some (rfile, wfile) \<Rightarrow>
       let close_both = (\<lambda>s. bindR (fileclose rfile s) (\<lambda>s. bindR (fileclose wfile s) (\<lambda>s. Ok (-1, s))))
       in bindR (fdalloc rfile s) (\<lambda>(r, s). case r of None \<Rightarrow> close_both s
          | Some fd0 \<Rightarrow>
            bindR (fdalloc wfile s) (\<lambda>(r, s). case r of None \<Rightarrow> close_both (clear_fd p fd0 s)
            | Some fd1 \<Rightarrow>
              bindR (copyout (pagetable (proc s ! p)) fdarray (le_bytes 4 (of_nat fd0 :: uint)) s) (\<lambda>(r, s).
              bindR (if r < 0 then Ok (r, s)
                     else copyout (pagetable (proc s ! p)) (fdarray + 4) (le_bytes 4 (of_nat fd1 :: uint)) s)
                (\<lambda>(r, s).
                if r < 0 then close_both (clear_fd p fd1 (clear_fd p fd0 s)) else Ok (0, s))))))))"

end
