(* ===== verification/Trap.thy ===== *)
theory Trap
  imports Sysfile
begin

text \<open>
  The remaining system calls, \<^verbatim>\<open>kernel/sysproc.c\<close>, the dispatcher \<open>syscall\<close> of
  \<^verbatim>\<open>kernel/syscall.c\<close>, traps and interrupts, \<^verbatim>\<open>kernel/trap.c\<close>, the interrupt controller,
  \<^verbatim>\<open>kernel/plic.c\<close>, and start-up, \<^verbatim>\<open>kernel/main.c\<close> and \<^verbatim>\<open>kernel/start.c\<close>.  The control and
  status registers of the hart that runs the code are fields of the state; what the interrupt
  controller answers to a claim is an input (\<open>claims\<close>).
\<close>

section \<open>State\<close>

record kst = filest +
  ticks :: uint
  sstatus :: uint64
  scause :: uint64
  sepc :: uint64
  stval :: uint64
  stvec :: uint64
  satp :: uint64
  sip :: uint64
  tp :: uint64
  claims :: "uint list"
  plic_out :: "(uint64 \<times> uint) list"
  forkret_first :: bool
  started :: bool
  kernel_pagetable :: uint64

definition SSTATUS_SPP :: uint64 where "SSTATUS_SPP = push_bit 8 1"
definition SSTATUS_SPIE :: uint64 where "SSTATUS_SPIE = push_bit 5 1"
definition SSTATUS_SIE :: uint64 where "SSTATUS_SIE = push_bit 1 1"

definition MAKE_SATP :: "uint64 \<Rightarrow> uint64" where
  "MAKE_SATP pt = push_bit 60 8 OR drop_bit 12 pt"

text \<open>The addresses of functions and symbols that the linker provides.\<close>

record symbols =
  s_forkret :: uint64
  s_kernelvec :: uint64
  s_usertrap :: uint64
  s_uservec :: uint64
  s_userret :: uint64
  s_etext :: uint64

section \<open>Process system calls\<close>

definition sys_getpid :: "'z kst_scheme \<Rightarrow> (int \<times> 'z kst_scheme) res" where
  "sys_getpid s = bindR (myproc s) (\<lambda>p. Ok (pid (proc s ! p), s))"

definition sys_fork :: "symbols \<Rightarrow> 'z kst_scheme \<Rightarrow> (int \<times> 'z kst_scheme) res" where
  "sys_fork lk s = fork (s_forkret lk) s"

definition sys_wait :: "'z kst_scheme \<Rightarrow> (int \<times> 'z kst_scheme) res" where
  "sys_wait s = bindR (argaddr 0 s) (\<lambda>p. wait p s)"

text \<open>\<open>addr\<close> is an \<open>int\<close>: the old size is truncated to 32 bits and sign-extended.\<close>

definition sys_sbrk :: "'z kst_scheme \<Rightarrow> (int \<times> 'z kst_scheme) res" where
  "sys_sbrk s =
     bindR (argint 0 s) (\<lambda>n.
     bindR (myproc s) (\<lambda>p.
     let addr = sint (ucast (sz (proc s ! p)) :: uint)
     in bindR (growproc n s) (\<lambda>(r, s). Ok (if r < 0 then -1 else addr, s))))"

text \<open>One test of the loop of \<open>sys_sleep\<close>: a result, or \<open>None\<close> when it goes to sleep.\<close>

definition sleep_check :: "uint \<Rightarrow> int \<Rightarrow> 'z kst_scheme \<Rightarrow> int option res" where
  "sleep_check ticks0 n s =
     bindR (myproc s) (\<lambda>p.
       Ok (if ticks s - ticks0 < word_of_int n
           then if killed (proc s ! p) \<noteq> 0 then Some (-1) else None
           else Some 0))"

definition sys_sleep :: "'z kst_scheme \<Rightarrow> (int \<times> 'z kst_scheme) res" where
  "sys_sleep s =
     bindR (argint 0 s) (\<lambda>n.
     bindR (sleep_check (ticks s) n s) (\<lambda>r. case r of Some v \<Rightarrow> Ok (v, s) | None \<Rightarrow> Blocked))"

definition sys_kill :: "'z kst_scheme \<Rightarrow> (int \<times> 'z kst_scheme) res" where
  "sys_kill s = bindR (argint 0 s) (\<lambda>pd. Ok (kill pd s))"

definition sys_uptime :: "'z kst_scheme \<Rightarrow> (int \<times> 'z kst_scheme) res" where
  "sys_uptime s = Ok (uint (ticks s), s)"

text \<open>\<open>sys_exit\<close> does not return.\<close>

definition sys_exit :: "'z kst_scheme \<Rightarrow> 'z kst_scheme res" where
  "sys_exit s = bindR (argint 0 s) (\<lambda>n. exit n s)"

section \<open>The dispatcher\<close>

text \<open>
  The table \<open>syscalls\<close>, by the numbers of \<^verbatim>\<open>kernel/syscall.h\<close>; the result \<open>None\<close> is a call that
  does not return.
\<close>

definition ret :: "(int \<times> 'z kst_scheme) res \<Rightarrow> (int option \<times> 'z kst_scheme) res" where
  "ret m = bindR m (\<lambda>(r, s). Ok (Some r, s))"

definition syscalls :: "symbols \<Rightarrow> int \<Rightarrow> ('z kst_scheme \<Rightarrow> (int option \<times> 'z kst_scheme) res) option" where
  "syscalls lk num =
     (if num = 1 then Some (\<lambda>s. ret (sys_fork lk s))
      else if num = 2 then Some (\<lambda>s. bindR (sys_exit s) (\<lambda>s. Ok (None, s)))
      else if num = 3 then Some (\<lambda>s. ret (sys_wait s))
      else if num = 4 then Some (\<lambda>s. ret (sys_pipe s))
      else if num = 5 then Some (\<lambda>s. ret (sys_read s))
      else if num = 6 then Some (\<lambda>s. ret (sys_kill s))
      else if num = 7 then Some (\<lambda>s. ret (sys_exec s))
      else if num = 8 then Some (\<lambda>s. ret (sys_fstat s))
      else if num = 9 then Some (\<lambda>s. ret (sys_chdir s))
      else if num = 10 then Some (\<lambda>s. ret (sys_dup s))
      else if num = 11 then Some (\<lambda>s. ret (sys_getpid s))
      else if num = 12 then Some (\<lambda>s. ret (sys_sbrk s))
      else if num = 13 then Some (\<lambda>s. ret (sys_sleep s))
      else if num = 14 then Some (\<lambda>s. ret (sys_uptime s))
      else if num = 15 then Some (\<lambda>s. ret (sys_open s))
      else if num = 16 then Some (\<lambda>s. ret (sys_write s))
      else if num = 17 then Some (\<lambda>s. ret (sys_mknod s))
      else if num = 18 then Some (\<lambda>s. ret (sys_unlink s))
      else if num = 19 then Some (\<lambda>s. ret (sys_link s))
      else if num = 20 then Some (\<lambda>s. ret (sys_mkdir s))
      else if num = 21 then Some (\<lambda>s. ret (sys_close s))
      else None)"

text \<open>The result tells whether the call returned.\<close>

definition syscall :: "symbols \<Rightarrow> 'z kst_scheme \<Rightarrow> (bool \<times> 'z kst_scheme) res" where
  "syscall lk s =
     bindR (myproc s) (\<lambda>p.
     let num = sint (ucast (tf_get p TF_a7 s) :: uint)
     in case syscalls lk num of
       Some f \<Rightarrow> bindR (f s) (\<lambda>(r, s).
         case r of None \<Rightarrow> Ok (False, s)
         | Some v \<Rightarrow> Ok (True, tf_set p TF_a0 (word_of_int v) s))
     | None \<Rightarrow>
         bindR (printf (bytes ''%d %s: unknown sys call %d'' @ [10])
           [Arg_int (word_of_int (pid (proc s ! p))),
            Arg_str (Some (takeWhile (\<lambda>c. c \<noteq> 0) (pname (proc s ! p)))), Arg_int (word_of_int num)] s)
         (\<lambda>s. Ok (True, tf_set p TF_a0 (-1) s)))"

section \<open>Interrupts\<close>

definition UART0_IRQ :: uint where "UART0_IRQ = 10"
definition VIRTIO0_IRQ :: uint where "VIRTIO0_IRQ = 1"

definition plic_write :: "uint64 \<Rightarrow> uint \<Rightarrow> 'z kst_scheme \<Rightarrow> 'z kst_scheme" where
  "plic_write a v s = s\<lparr>plic_out := (a, v) # plic_out s\<rparr>"

definition plicinit :: "'z kst_scheme \<Rightarrow> 'z kst_scheme" where
  "plicinit s =
     plic_write (PLIC + ucast VIRTIO0_IRQ * 4) 1 (plic_write (PLIC + ucast UART0_IRQ * 4) 1 s)"

definition plicinithart :: "'z kst_scheme \<Rightarrow> 'z kst_scheme" where
  "plicinithart s =
     plic_write (PLIC + 0x201000 + tp s * 0x2000) 0
       (plic_write (PLIC + 0x2080 + tp s * 0x100)
          (push_bit (unat UART0_IRQ) 1 OR push_bit (unat VIRTIO0_IRQ) 1) s)"

definition plic_claim :: "'z kst_scheme \<Rightarrow> uint \<times> 'z kst_scheme" where
  "plic_claim s = (case claims s of [] \<Rightarrow> (0, s) | irq # rest \<Rightarrow> (irq, s\<lparr>claims := rest\<rparr>))"

definition plic_complete :: "uint \<Rightarrow> 'z kst_scheme \<Rightarrow> 'z kst_scheme" where
  "plic_complete irq s = plic_write (PLIC + 0x201004 + tp s * 0x2000) irq s"

definition clockintr :: "'z kst_scheme \<Rightarrow> 'z kst_scheme" where
  "clockintr s = wakeup Chan_ticks (s\<lparr>ticks := ticks s + 1\<rparr>)"

definition devintr :: "'z kst_scheme \<Rightarrow> (int \<times> 'z kst_scheme) res" where
  "devintr s =
     (if bit (scause s) 63 \<and> scause s AND 0xff = 9
      then case plic_claim s of (irq, s) \<Rightarrow>
        bindR (if irq = UART0_IRQ then uartintr s
               else if irq = VIRTIO0_IRQ then virtio_disk_intr s
               else if irq \<noteq> 0
               then printf (bytes ''unexpected interrupt irq=%d'' @ [10]) [Arg_int irq] s
               else Ok s) (\<lambda>s.
        Ok (1, if irq \<noteq> 0 then plic_complete irq s else s))
      else if scause s = 0x8000000000000001
      then let s = (if tp s = 0 then clockintr s else s)
           in Ok (2, s\<lparr>sip := sip s AND NOT 2\<rparr>)
      else Ok (0, s))"

section \<open>Traps\<close>

definition trapinithart :: "symbols \<Rightarrow> 'z kst_scheme \<Rightarrow> 'z kst_scheme" where
  "trapinithart lk s = s\<lparr>stvec := s_kernelvec lk\<rparr>"

text \<open>
  \<open>usertrapret\<close> up to the jump to \<open>userret\<close>, to which it passes the result as the page table
  register; \<open>Asm\<close> has the code from there on.
\<close>

definition usertrapret :: "symbols \<Rightarrow> 'z kst_scheme \<Rightarrow> (uint64 \<times> 'z kst_scheme) res" where
  "usertrapret lk s =
     bindR (myproc s) (\<lambda>p.
     let s = s\<lparr>sstatus := sstatus s AND NOT SSTATUS_SIE\<rparr>;
         s = s\<lparr>stvec := TRAMPOLINE + (s_uservec lk - tramp s)\<rparr>;
         s = tf_set p TF_kernel_satp (satp s) s;
         s = tf_set p TF_kernel_sp (kstack (proc s ! p) + PGSIZE) s;
         s = tf_set p TF_kernel_trap (s_usertrap lk) s;
         s = tf_set p TF_kernel_hartid (tp s) s;
         x = (sstatus s AND NOT SSTATUS_SPP) OR SSTATUS_SPIE;
         s = s\<lparr>sstatus := x\<rparr>;
         s = s\<lparr>sepc := tf_get p TF_epc s\<rparr>
     in Ok (MAKE_SATP (pagetable (proc s ! p)), s))"

text \<open>How \<open>usertrap\<close> ends: on the way back to user space, in \<open>yield\<close>, or with the process exited.\<close>

datatype trap_end = To_userspace uint64 | Yielding | Exited

text \<open>The end of \<open>usertrap\<close>, after the cause of the trap has been handled.\<close>

definition usertrap_end :: "symbols \<Rightarrow> nat \<Rightarrow> int \<Rightarrow> 'z kst_scheme \<Rightarrow> (trap_end \<times> 'z kst_scheme) res" where
  "usertrap_end lk p which_dev s =
     (if killed (proc s ! p) \<noteq> 0 then bindR (exit (-1) s) (\<lambda>s. Ok (Exited, s))
      else if which_dev = 2 then Ok (Yielding, yield_enter p s)
      else bindR (usertrapret lk s) (\<lambda>(st, s). Ok (To_userspace st, s)))"

definition usertrap :: "symbols \<Rightarrow> 'z kst_scheme \<Rightarrow> (trap_end \<times> 'z kst_scheme) res" where
  "usertrap lk s =
     (if sstatus s AND SSTATUS_SPP \<noteq> 0 then Panic ''usertrap: not from user mode''
      else let s = s\<lparr>stvec := s_kernelvec lk\<rparr>
      in bindR (myproc s) (\<lambda>p.
         let s = tf_set p TF_epc (sepc s) s
         in if scause s = 8
            then if killed (proc s ! p) \<noteq> 0 then bindR (exit (-1) s) (\<lambda>s. Ok (Exited, s))
                 else let s = tf_set p TF_epc (tf_get p TF_epc s + 4) s;
                          s = s\<lparr>sstatus := sstatus s OR SSTATUS_SIE\<rparr>
                      in bindR (syscall lk s) (\<lambda>(returns, s).
                         if returns then usertrap_end lk p 0 s else Ok (Exited, s))
            else bindR (devintr s) (\<lambda>(which_dev, s).
              if which_dev \<noteq> 0 then usertrap_end lk p which_dev s
              else bindR (printf (bytes ''usertrap(): unexpected scause %p pid=%d'' @ [10])
                     [Arg_ptr (scause s), Arg_int (word_of_int (pid (proc s ! p)))] s) (\<lambda>s.
                   bindR (printf (bytes ''            sepc=%p stval=%p'' @ [10])
                     [Arg_ptr (sepc s), Arg_ptr (stval s)] s) (\<lambda>s.
                   usertrap_end lk p 0 (upd_proc p (killed_update (\<lambda>_. 1)) s))))))"

text \<open>\<open>kerneltrap\<close>: the result tells whether it yields.\<close>

definition kerneltrap :: "'z kst_scheme \<Rightarrow> (bool \<times> 'z kst_scheme) res" where
  "kerneltrap s =
     (let sepc0 = sepc s; sstatus0 = sstatus s
      in if sstatus s AND SSTATUS_SPP = 0 then Panic ''kerneltrap: not from supervisor mode''
         else if sstatus s AND SSTATUS_SIE \<noteq> 0 then Panic ''kerneltrap: interrupts enabled''
         else bindR (devintr s) (\<lambda>(which_dev, s).
              if which_dev = 0
              then bindR (printf (bytes ''scause %p'' @ [10]) [Arg_ptr (scause s)] s) (\<lambda>s.
                   bindR (printf (bytes ''sepc=%p stval=%p'' @ [10])
                     [Arg_ptr (sepc s), Arg_ptr (stval s)] s) (\<lambda>s. Panic ''kerneltrap''))
              else let restore = (\<lambda>s. s\<lparr>sepc := sepc0, sstatus := sstatus0\<rparr>)
                   in case cpu_proc s of
                        None \<Rightarrow> Ok (False, restore s)
                      | Some p \<Rightarrow>
                          if which_dev = 2 \<and> pstate (proc s ! p) = RUNNING
                          then Ok (True, restore (yield_enter p s)) else Ok (False, restore s)))"

definition forkret :: "symbols \<Rightarrow> 'z kst_scheme \<Rightarrow> (uint64 \<times> 'z kst_scheme) res" where
  "forkret lk s =
     bindR (if forkret_first s
            then fsinit (of_nat ROOTDEV) (s\<lparr>forkret_first := False\<rparr>) else Ok s)
       (usertrapret lk)"

section \<open>Start-up\<close>

definition kvminithart :: "'z kst_scheme \<Rightarrow> 'z kst_scheme" where
  "kvminithart s = s\<lparr>satp := MAKE_SATP (kernel_pagetable s)\<rparr>"

definition kvminit :: "symbols \<Rightarrow> 'z kst_scheme \<Rightarrow> 'z kst_scheme res" where
  "kvminit lk s =
     bindR (kvmmake (s_etext lk) (tramp s) s) (\<lambda>(pt, s). Ok (s\<lparr>kernel_pagetable := pt\<rparr>))"

text \<open>\<open>main\<close> up to the call of \<open>scheduler\<close>; \<open>pages\<close> is the page number of the disk's rings.\<close>

definition main0 :: "symbols \<Rightarrow> uint \<Rightarrow> 'z kst_scheme \<Rightarrow> 'z kst_scheme res" where
  "main0 lk pages s =
     bindR (printf [10] [] (printfinit (consoleinit s))) (\<lambda>s.
     bindR (printf (bytes ''xv6 kernel is booting'' @ [10]) [] s) (\<lambda>s.
     bindR (printf [10] [] s) (\<lambda>s.
     bindR (kinit s) (\<lambda>s.
     bindR (kvminit lk s) (\<lambda>s.
     let s = kvminithart s;
         s = procinit s;
         s = trapinithart lk s;
         s = plicinithart (plicinit s);
         s = iinit (binit s)
     in bindR (virtio_disk_init pages s) (\<lambda>s.
        bindR (userinit (s_forkret lk) s) (\<lambda>s.
        Ok (s\<lparr>started := True\<rparr>))))))))"

definition main_other :: "symbols \<Rightarrow> 'z kst_scheme \<Rightarrow> 'z kst_scheme res" where
  "main_other lk s =
     (if \<not> started s then Blocked
      else bindR (printf (bytes ''hart %d starting'' @ [10]) [Arg_int (ucast (tp s))] s) (\<lambda>s.
           Ok (plicinithart (trapinithart lk (kvminithart s)))))"

definition main :: "symbols \<Rightarrow> uint \<Rightarrow> 'z kst_scheme \<Rightarrow> 'z kst_scheme res" where
  "main lk pages s = (if tp s = 0 then main0 lk pages s else main_other lk s)"

section \<open>Machine mode\<close>

text \<open>The registers that \<open>start\<close> and \<open>timerinit\<close> set, and the CLINT's comparators.\<close>

record mregs =
  mstatus :: uint64
  mepc :: uint64
  m_satp :: uint64
  medeleg :: uint64
  mideleg :: uint64
  m_sie :: uint64
  pmpaddr0 :: uint64
  pmpcfg0 :: uint64
  mscratch :: uint64
  mtvec :: uint64
  mie :: uint64
  m_tp :: uint64
  mtimecmp :: "nat \<Rightarrow> uint64"
  timer_scratch :: "nat \<Rightarrow> uint64 list"

text \<open>\<open>now\<close> is \<open>CLINT_MTIME\<close>, \<open>hart\<close> the hart id; \<open>scratch_at\<close> is the address of \<open>timer_scratch\<close>.\<close>

definition timerinit :: "nat \<Rightarrow> uint64 \<Rightarrow> uint64 \<Rightarrow> uint64 \<Rightarrow> mregs \<Rightarrow> mregs" where
  "timerinit hart now scratch_at timervec m =
     (let interval = 1000000;
          m = m\<lparr>mtimecmp := (mtimecmp m)(hart := now + interval)\<rparr>;
          m = m\<lparr>timer_scratch := (timer_scratch m)(hart :=
                (timer_scratch m hart)[3 := 0x2000000 + 0x4000 + 8 * of_nat hart, 4 := interval])\<rparr>;
          m = m\<lparr>mscratch := scratch_at + 40 * of_nat hart\<rparr>;
          m = m\<lparr>mtvec := timervec\<rparr>;
          m = m\<lparr>mstatus := mstatus m OR push_bit 3 1\<rparr>
      in m\<lparr>mie := mie m OR push_bit 7 1\<rparr>)"

definition start :: "nat \<Rightarrow> uint64 \<Rightarrow> uint64 \<Rightarrow> uint64 \<Rightarrow> uint64 \<Rightarrow> mregs \<Rightarrow> mregs" where
  "start hart now scratch_at timervec main_at m =
     (let x = (mstatus m AND NOT (push_bit 11 3)) OR push_bit 11 1;
          m = m\<lparr>mstatus := x, mepc := main_at, m_satp := 0, medeleg := 0xffff, mideleg := 0xffff\<rparr>;
          m = m\<lparr>m_sie := m_sie m OR push_bit 9 1 OR push_bit 5 1 OR push_bit 1 1\<rparr>;
          m = m\<lparr>pmpaddr0 := 0x3fffffffffffff, pmpcfg0 := 0xf\<rparr>;
          m = timerinit hart now scratch_at timervec m
      in m\<lparr>m_tp := of_nat hart\<rparr>)"

end
