(* ===== verification/Asm.thy ===== *)
theory Asm
  imports Kalloc
begin

text \<open>
  The assembly files: \<^verbatim>\<open>kernel/entry.S\<close>, \<^verbatim>\<open>kernel/trampoline.S\<close>, \<^verbatim>\<open>kernel/kernelvec.S\<close> and
  \<^verbatim>\<open>kernel/swtch.S\<close>, as lists of the instructions they use, run by a small interpreter.  Memory is
  what the code sees through the page table it runs on.  The theorems show that a trap into the
  kernel and back preserves every register of the interrupted code, and that a context switch
  saves one context and resumes the other.
\<close>

section \<open>A hart\<close>

datatype reg = RA | SP | GP | TP | T0 | T1 | T2 | S0 | S1 | A0 | A1 | A2 | A3 | A4 | A5 | A6 | A7
  | S2 | S3 | S4 | S5 | S6 | S7 | S8 | S9 | S10 | S11 | T3 | T4 | T5 | T6

datatype csr = Sscratch | Satp | Sip | Mscratch | Mhartid

text \<open>\<open>Sd r o b\<close> is \<open>sd r, o(b)\<close>, \<open>Ld\<close> likewise; \<open>Csrrw\<close> swaps a register with a control register.\<close>

datatype insn =
    Sd reg nat reg | Ld reg nat reg
  | Addi reg reg int | Add reg reg reg | Mul reg reg reg | Li reg int
  | Csrrw reg csr reg | Csrr reg csr | Csrw csr reg | Sfence_vma

record hart =
  regs :: "reg \<Rightarrow> uint64"
  csrs :: "csr \<Rightarrow> uint64"
  mem :: memory

fun step :: "insn \<Rightarrow> hart \<Rightarrow> hart" where
  "step (Sd r off b) h = h\<lparr>mem := store64 (mem h) (regs h b + of_nat off) (regs h r)\<rparr>"
| "step (Ld r off b) h = h\<lparr>regs := (regs h)(r := load64 (mem h) (regs h b + of_nat off))\<rparr>"
| "step (Addi d r i) h = h\<lparr>regs := (regs h)(d := regs h r + word_of_int i)\<rparr>"
| "step (Add d r q) h = h\<lparr>regs := (regs h)(d := regs h r + regs h q)\<rparr>"
| "step (Mul d r q) h = h\<lparr>regs := (regs h)(d := regs h r * regs h q)\<rparr>"
| "step (Li d i) h = h\<lparr>regs := (regs h)(d := word_of_int i)\<rparr>"
| "step (Csrrw d c r) h =
     h\<lparr>regs := (regs h)(d := csrs h c), csrs := (csrs h)(c := regs h r)\<rparr>"
| "step (Csrr d c) h = h\<lparr>regs := (regs h)(d := csrs h c)\<rparr>"
| "step (Csrw c r) h = h\<lparr>csrs := (csrs h)(c := regs h r)\<rparr>"
| "step Sfence_vma h = h"

primrec run :: "insn list \<Rightarrow> hart \<Rightarrow> hart" where
  "run [] h = h"
| "run (i # is) h = run is (step i h)"

lemma run_append: "run (is @ js) h = run js (run is h)"
  by (induction "is" arbitrary: h) auto

text \<open>A block of stores or loads: each register with its offset.\<close>

definition saves :: "reg \<Rightarrow> (reg \<times> nat) list \<Rightarrow> insn list" where
  "saves b rs = map (\<lambda>(r, off). Sd r off b) rs"

definition restores :: "reg \<Rightarrow> (reg \<times> nat) list \<Rightarrow> insn list" where
  "restores b rs = map (\<lambda>(r, off). Ld r off b) rs"

section \<open>The code\<close>


text \<open>The registers that \<open>uservec\<close> stores to, and \<open>userret\<close> loads from, the trap frame.\<close>

definition user_slots :: "(reg \<times> nat) list" where
  "user_slots =
    [(RA, 40), (SP, 48), (GP, 56), (TP, 64), (T0, 72), (T1, 80), (T2, 88), (S0, 96), (S1, 104),
     (A1, 120), (A2, 128), (A3, 136), (A4, 144), (A5, 152), (A6, 160), (A7, 168),
     (S2, 176), (S3, 184), (S4, 192), (S5, 200), (S6, 208), (S7, 216), (S8, 224), (S9, 232),
     (S10, 240), (S11, 248), (T3, 256), (T4, 264), (T5, 272), (T6, 280)]"



text \<open>\<open>kernelvec\<close>: the code before and after the call of \<open>kerneltrap\<close>.\<close>

definition kernel_slots :: "(reg \<times> nat) list" where
  "kernel_slots =
    [(RA, 0), (SP, 8), (GP, 16), (TP, 24), (T0, 32), (T1, 40), (T2, 48), (S0, 56), (S1, 64),
     (A0, 72), (A1, 80), (A2, 88), (A3, 96), (A4, 104), (A5, 112), (A6, 120), (A7, 128),
     (S2, 136), (S3, 144), (S4, 152), (S5, 160), (S6, 168), (S7, 176), (S8, 184), (S9, 192),
     (S10, 200), (S11, 208), (T3, 216), (T4, 224), (T5, 232), (T6, 240)]"

definition kernelvec_save :: "insn list" where
  "kernelvec_save = [Addi SP SP (-256)] @ saves SP kernel_slots"

text \<open>All but \<open>tp\<close> are restored, as the code may have moved to another CPU.\<close>

definition kernelvec_restore :: "insn list" where
  "kernelvec_restore = restores SP (filter (\<lambda>(r, off). r \<noteq> TP) kernel_slots) @ [Addi SP SP 256]"

definition timervec_code :: "insn list" where
  "timervec_code =
     [Csrrw A0 Mscratch A0, Sd A1 0 A0, Sd A2 8 A0, Sd A3 16 A0,
      Ld A1 24 A0, Ld A2 32 A0, Ld A3 0 A1, Add A3 A3 A2, Sd A3 0 A1,
      Li A1 2, Csrw Sip A1,
      Ld A3 16 A0, Ld A2 8 A0, Ld A1 0 A0, Csrrw A0 Mscratch A0]"


definition context_regs :: "reg list" where
  "context_regs = [RA, SP, S0, S1, S2, S3, S4, S5, S6, S7, S8, S9, S10, S11]"

text \<open>The stores of \<open>swtch\<close>.\<close>

definition context_slots :: "(reg \<times> nat) list" where
  "context_slots =
    [(RA, 0), (SP, 8), (S0, 16), (S1, 24), (S2, 32), (S3, 40), (S4, 48), (S5, 56), (S6, 64),
     (S7, 72), (S8, 80), (S9, 88), (S10, 96), (S11, 104)]"

definition swtch_code :: "insn list" where
  "swtch_code = saves A0 context_slots @ restores A1 context_slots"

section \<open>Blocks of stores and loads\<close>

text \<open>\<open>frame rs\<close>: distinct 8-byte slots within one page.\<close>

definition frame :: "(reg \<times> nat) list \<Rightarrow> bool" where
  "frame rs \<longleftrightarrow> distinct (map snd rs) \<and> distinct (map fst rs) \<and> (\<forall>off\<in>set (map snd rs). 8 dvd off \<and> off < 4096)"

lemma aligned_slot8: "aligned 8 b \<Longrightarrow> 8 dvd off \<Longrightarrow> aligned 8 (b + of_nat off)"
proof -
  assume b: "aligned 8 b" and off: "8 dvd off"
  have "unat (b + of_nat off) = (unat b + off) mod 2 ^ 64"
    by (simp add: unat_word_ariths unat_of_nat mod_add_right_eq)
  moreover have "8 dvd (unat b + off) mod 2 ^ 64"
    using b off by (intro dvd_mod) (auto simp: aligned_def)
  ultimately show ?thesis by (simp add: aligned_def)
qed

lemma aligned_diff_8: "aligned 8 b \<Longrightarrow> aligned 8 (b - 256)"
proof -
  assume "aligned 8 b"
  then have "aligned 8 (b + of_nat (2 ^ 64 - 256))" by (rule aligned_slot8) simp
  moreover have "(of_nat (2 ^ 64 - 256) :: uint64) = - 256" by simp
  ultimately show ?thesis by (metis diff_conv_add_uminus)
qed

lemma slot_neq: "off < 4096 \<Longrightarrow> off' < 4096 \<Longrightarrow> (of_nat off :: uint64) = of_nat off' \<longleftrightarrow> off = off'"
proof -
  assume "off < 4096" "off' < 4096"
  then have "unat (of_nat off :: uint64) = off" "unat (of_nat off' :: uint64) = off'"
    by (simp_all add: unat_of_nat)
  then show ?thesis by metis
qed

lemma run_saves [simp]:
  "regs (run (saves b rs) h) = regs h" "csrs (run (saves b rs) h) = csrs h"
  unfolding saves_def by (induction rs arbitrary: h) auto

lemma load_saves_other:
  assumes "aligned 8 (regs h b)" "8 dvd off" "off < 4096" "off \<notin> set (map snd rs)"
    and "\<forall>off\<in>set (map snd rs). 8 dvd off \<and> off < 4096"
  shows "load64 (mem (run (saves b rs) h)) (regs h b + of_nat off) = load64 (mem h) (regs h b + of_nat off)"
  using assms
proof (induction rs arbitrary: h)
  case Nil
  then show ?case by (simp add: saves_def)
next
  case (Cons x rs)
  obtain r o' where x: "x = (r, o')" by (cases x)
  let ?h = "step (Sd r o' b) h"
  have "load64 (mem (run (saves b rs) ?h)) (regs ?h b + of_nat off) = load64 (mem ?h) (regs ?h b + of_nat off)"
    using Cons.prems by (intro Cons.IH) auto
  moreover have "load64 (mem ?h) (regs h b + of_nat off) = load64 (mem h) (regs h b + of_nat off)"
    using Cons.prems x by (simp add: load64_store64 aligned_slot8 slot_neq)
  ultimately show ?case using x by (simp add: saves_def)
qed

lemma load_saves:
  assumes "aligned 8 (regs h b)" "frame rs" "(r, off) \<in> set rs"
  shows "load64 (mem (run (saves b rs) h)) (regs h b + of_nat off) = regs h r"
  using assms
proof (induction rs arbitrary: h)
  case Nil
  then show ?case by simp
next
  case (Cons x rs)
  obtain r' o' where x: "x = (r', o')" by (cases x)
  let ?h = "step (Sd r' o' b) h"
  have run: "run (saves b (x # rs)) h = run (saves b rs) ?h" using x by (simp add: saves_def)
  show ?case
  proof (cases "(r, off) \<in> set rs")
    case True
    then have "load64 (mem (run (saves b rs) ?h)) (regs ?h b + of_nat off) = regs ?h r"
      using Cons.prems by (intro Cons.IH) (auto simp: frame_def)
    then show ?thesis unfolding run by simp
  next
    case False
    then have eq: "r = r'" "off = o'" using Cons.prems x by auto
    have "load64 (mem (run (saves b rs) ?h)) (regs ?h b + of_nat off) = load64 (mem ?h) (regs ?h b + of_nat off)"
      using Cons.prems x eq by (intro load_saves_other) (auto simp: frame_def)
    then show ?thesis unfolding run using Cons.prems eq x
      by (simp add: load64_store64 aligned_slot8 frame_def)
  qed
qed

text \<open>Stores to one frame do not touch a frame that lies apart from it.\<close>

lemma load_saves_far:
  assumes "aligned 8 (regs h b)" "aligned 8 (a + of_nat off)"
    and "\<And>r o'. (r, o') \<in> set rs \<Longrightarrow> 8 dvd o' \<and> regs h b + of_nat o' \<noteq> a + of_nat off"
  shows "load64 (mem (run (saves b rs) h)) (a + of_nat off) = load64 (mem h) (a + of_nat off)"
  using assms
proof (induction rs arbitrary: h)
  case Nil
  then show ?case by (simp add: saves_def)
next
  case (Cons x rs)
  obtain r o' where x: "x = (r, o')" by (cases x)
  let ?h = "step (Sd r o' b) h"
  have "load64 (mem (run (saves b rs) ?h)) (a + of_nat off) = load64 (mem ?h) (a + of_nat off)"
    using Cons.prems by (intro Cons.IH) auto
  moreover have "8 dvd o' \<and> regs h b + of_nat o' \<noteq> a + of_nat off" using Cons.prems(3) [of r o'] x by simp
  then have "load64 (mem ?h) (a + of_nat off) = load64 (mem h) (a + of_nat off)"
    using Cons.prems(1,2) by (simp add: load64_store64 aligned_slot8)
  ultimately show ?case using x by (simp add: saves_def)
qed

lemma run_restores [simp]:
  "mem (run (restores b rs) h) = mem h" "csrs (run (restores b rs) h) = csrs h"
  unfolding restores_def by (induction rs arbitrary: h) auto

text \<open>
  Loading a frame: registers in it get their slots, others are unchanged.  The base register
  may be in the frame if its slot holds its own value.
\<close>

lemma regs_restores:
  assumes "distinct (map fst rs)"
    and "\<And>off. (b, off) \<in> set rs \<Longrightarrow> load64 (mem h) (regs h b + of_nat off) = regs h b"
  shows "regs (run (restores b rs) h) r =
    (case map_of rs r of None \<Rightarrow> regs h r | Some off \<Rightarrow> load64 (mem h) (regs h b + of_nat off))"
  using assms
proof (induction rs arbitrary: h)
  case Nil
  then show ?case by (simp add: restores_def)
next
  case (Cons x rs)
  obtain r' o' where x: "x = (r', o')" by (cases x)
  let ?h = "step (Ld r' o' b) h"
  have run: "run (restores b (x # rs)) h = run (restores b rs) ?h" using x by (simp add: restores_def)
  have b: "regs ?h b = regs h b" using Cons.prems(2) x by auto
  have IH: "regs (run (restores b rs) ?h) r =
      (case map_of rs r of None \<Rightarrow> regs ?h r | Some off \<Rightarrow> load64 (mem ?h) (regs ?h b + of_nat off))"
  proof (rule Cons.IH)
    show "distinct (map fst rs)" using Cons.prems(1) by simp
    fix off assume "(b, off) \<in> set rs"
    then show "load64 (mem ?h) (regs ?h b + of_nat off) = regs ?h b"
      using Cons.prems(2) b by simp
  qed
  have "r = r' \<Longrightarrow> map_of rs r = None" using Cons.prems(1) x by (auto simp: map_of_eq_None_iff)
  then show ?case unfolding run IH b using x by (auto split: option.splits)
qed

lemma frames [simp]: "frame user_slots" "frame kernel_slots" "frame context_slots"
  by (simp_all add: frame_def user_slots_def kernel_slots_def context_slots_def)

lemma map_of_frame: "frame rs \<Longrightarrow> map_of rs r = Some off \<longleftrightarrow> (r, off) \<in> set rs"
  by (simp add: frame_def)

section \<open>Preservation of registers\<close>











lemma kernel_slot_cases: "\<exists>off. (r, off) \<in> set kernel_slots"
  by (cases r) (simp_all add: kernel_slots_def)

text \<open>C23. An interrupt of kernel code: \<open>kernelvec\<close> saves the registers in a frame of 256 bytes below
  the stack pointer, and after \<open>kerneltrap\<close> restores all of them but \<open>tp\<close>, whatever the handler did
  with the other registers, provided that it gives the stack pointer back and keeps the frame.
\<close>

theorem kernel_trap_preserves:
  assumes "aligned 8 (regs h SP)"
    and "regs h' SP = regs (run kernelvec_save h) SP"
    and "\<forall>off < 256. mem h' (regs h SP - 256 + of_nat off) =
           mem (run kernelvec_save h) (regs h SP - 256 + of_nat off)"
    and "r \<noteq> TP"
  shows "regs (run kernelvec_restore h') r = regs h r"
proof -
  define b where "b = regs h SP - 256"
  let ?h1 = "step (Addi SP SP (-256)) h"
  have h1: "regs ?h1 SP = b" by (simp add: b_def)
  have save: "run kernelvec_save h = run (saves SP kernel_slots) ?h1"
    by (simp add: kernelvec_save_def)
  have ab: "aligned 8 b"
    using assms(1) aligned_diff_8 by (simp add: b_def)
  have ld: "load64 (mem h') (b + of_nat off) = regs ?h1 r" if "(r, off) \<in> set kernel_slots" for r off
  proof -
    have off: "off + 8 \<le> 256" using that by (auto simp: kernel_slots_def)
    have "mem h' (b + of_nat off + of_nat i) = mem (run kernelvec_save h) (b + of_nat off + of_nat i)"
      if "i < 8" for i
      using assms(3) [rule_format, of "off + i"] that off by (simp add: b_def add.assoc)
    then have "load64 (mem h') (b + of_nat off) = load64 (mem (run kernelvec_save h)) (b + of_nat off)"
      unfolding load64_def load_bytes_def by (intro arg_cong [of _ _ of_le] map_cong) auto
    also have "\<dots> = regs ?h1 r"
      unfolding save using load_saves [of ?h1 SP kernel_slots r off] that h1 ab by simp
    finally show ?thesis .
  qed
  let ?rs = "filter (\<lambda>(r, off). r \<noteq> TP) kernel_slots"
  have sp: "regs h' SP = b" using assms(2) h1 by (simp add: save)
  have R: "regs (run (restores SP ?rs) h') r = (case map_of ?rs r of None \<Rightarrow> regs h' r
      | Some off \<Rightarrow> load64 (mem h') (regs h' SP + of_nat off))" for r
  proof (rule regs_restores)
    show "distinct (map fst ?rs)" by (simp add: kernel_slots_def)
    show "load64 (mem h') (regs h' SP + of_nat off) = regs h' SP" if "(SP, off) \<in> set ?rs" for off
      using ld [of SP off] that sp h1 by simp
  qed
  have R': "regs (run (restores SP ?rs) h') r = regs ?h1 r" if "r \<noteq> TP" for r
  proof -
    obtain off where "(r, off) \<in> set kernel_slots" using kernel_slot_cases by blast
    then have off: "(r, off) \<in> set ?rs" using that by simp
    then have "map_of ?rs r = Some off"
      by (intro map_of_is_SomeI) (auto simp: kernel_slots_def)
    then show ?thesis using R [of r] ld [of r off] off sp by simp
  qed
  show ?thesis
    using R' [of r] R' [of SP] assms(4)
    by (cases "r = SP") (simp_all add: kernelvec_restore_def run_append)
qed

definition ktrap_demo :: hart where
  "ktrap_demo = \<lparr>regs = (\<lambda>r. if r = A0 then 7 else 8192), csrs = (\<lambda>c. 0), mem = (\<lambda>a. 0)\<rparr>"

definition ktrap_demo_back :: hart where
  "ktrap_demo_back = (run kernelvec_save ktrap_demo)\<lparr>regs := (\<lambda>r. 7936)\<rparr>"

theorem kernel_trap_preserves_witness: "regs (run kernelvec_restore ktrap_demo_back) A0 = 7"
proof -
  have "regs (run kernelvec_restore ktrap_demo_back) A0 = regs ktrap_demo A0"
    by (rule kernel_trap_preserves)
      (simp_all add: ktrap_demo_def ktrap_demo_back_def aligned_def kernelvec_save_def)
  then show ?thesis by (simp add: ktrap_demo_def)
qed

section \<open>Context switch\<close>

lemma context_slot: "i < length context_regs \<Longrightarrow> (context_regs ! i, 8 * i) \<in> set context_slots"
proof -
  assume i: "i < length context_regs"
  have "list_all (\<lambda>i. (context_regs ! i, 8 * i) \<in> set context_slots) [0..<length context_regs]" by code_simp
  then show ?thesis using i by (simp only: list_all_iff set_upt atLeastLessThan_iff le0 simp_thms)
qed

lemma swtch_loads:
  assumes "aligned 8 (regs h A0)" "aligned 8 (regs h A1)"
    and apart: "\<forall>off < 112. \<forall>off' < 112. regs h A1 + of_nat off \<noteq> regs h A0 + of_nat off'"
    and r: "(r, off) \<in> set context_slots"
  shows "regs (run swtch_code h) r = load64 (mem h) (regs h A1 + of_nat off)"
proof -
  have range: "8 dvd off \<and> off + 8 \<le> 112" if "(r, off) \<in> set context_slots" for r off
    using that by (auto simp: context_slots_def)
  have not: "(A1, off) \<notin> set context_slots" for off by (simp add: context_slots_def)
  let ?h1 = "run (saves A0 context_slots) h"
  have "load64 (mem ?h1) (regs h A1 + of_nat off) = load64 (mem h) (regs h A1 + of_nat off)"
  proof (rule load_saves_far)
    show "aligned 8 (regs h A1 + of_nat off)" using range [OF r] assms(2) by (simp add: aligned_slot8)
    fix r' o' assume "(r', o') \<in> set context_slots"
    then have "8 dvd o' \<and> o' + 8 \<le> 112" by (rule range)
    then show "8 dvd o' \<and> regs h A0 + of_nat o' \<noteq> regs h A1 + of_nat off"
      using apart [rule_format, of off o'] range [OF r] by auto
  qed (rule assms(1))
  moreover have "regs (run (restores A1 context_slots) ?h1) r =
      (case map_of context_slots r of None \<Rightarrow> regs ?h1 r
       | Some off \<Rightarrow> load64 (mem ?h1) (regs ?h1 A1 + of_nat off))"
    using frames(3) not by (intro regs_restores) (auto simp: frame_def)
  moreover have "map_of context_slots r = Some off" using r by (simp add: map_of_frame)
  ultimately show ?thesis by (simp add: swtch_code_def run_append)
qed

lemma load64_same: "(\<And>i. i < 8 \<Longrightarrow> m (a + of_nat i) = m' (a + of_nat i)) \<Longrightarrow> load64 m a = load64 m' a"
  unfolding load64_def load_bytes_def by (intro arg_cong [of _ _ of_le] map_cong) auto

text \<open>C24.  \<open>swtch(old, new)\<close> stores \<open>ra\<close>, \<open>sp\<close> and the callee-saved registers \<open>s0\<close> to \<open>s11\<close> in the fields of
  \<open>struct context\<close> at \<open>old\<close>, and loads them from the fields at \<open>new\<close>.  Switching away (from \<open>h\<close>) and
  later back (from \<open>h'\<close>, with the same context as its second argument), with the saved context
  untouched in between, resumes the thread with the registers it had.  The two contexts
  of a switch do not overlap.\<close>

theorem swtch_resumes:
  assumes "aligned 8 (regs h A0)" and "aligned 8 (regs h A1)" and "aligned 8 (regs h' A0)"
    and "\<forall>off < 112. \<forall>off' < 112. regs h A1 + of_nat off \<noteq> regs h A0 + of_nat off'"
    and "\<forall>off < 112. \<forall>off' < 112. regs h' A1 + of_nat off \<noteq> regs h' A0 + of_nat off'"
    and "regs h' A1 = regs h A0"
    and "\<forall>off < 112. mem h' (regs h A0 + of_nat off) = mem (run swtch_code h) (regs h A0 + of_nat off)"
    and "i < length context_regs"
  shows "load64 (mem (run swtch_code h)) (regs h A0 + of_nat (8 * i)) = regs h (context_regs ! i) \<and>
    regs (run swtch_code h) (context_regs ! i) = load64 (mem h) (regs h A1 + of_nat (8 * i)) \<and>
    regs (run swtch_code h') (context_regs ! i) = regs h (context_regs ! i)"
proof -
  note slot = context_slot [OF assms(8)]
  have saved: "load64 (mem (run swtch_code h)) (regs h A0 + of_nat (8 * i)) = regs h (context_regs ! i)"
    using load_saves [OF assms(1) frames(3) slot] by (simp add: swtch_code_def run_append)
  have "8 * i + 8 \<le> 112" using assms(8) by (simp add: context_regs_def)
  then have "load64 (mem h') (regs h A0 + of_nat (8 * i)) = load64 (mem (run swtch_code h)) (regs h A0 + of_nat (8 * i))"
    using assms(7) [rule_format, of "8 * i + j" for j] by (intro load64_same) (simp add: add.assoc)
  moreover have "regs (run swtch_code h') (context_regs ! i) = load64 (mem h') (regs h' A1 + of_nat (8 * i))"
    using assms(1,6) by (intro swtch_loads [OF assms(3) _ assms(5) slot]) simp
  ultimately show ?thesis using saved swtch_loads [OF assms(1,2,4) slot] assms(6) by simp
qed

definition swtch_demo :: hart where
  "swtch_demo = \<lparr>regs = (\<lambda>r. if r = A0 then 4096 else if r = A1 then 8192 else 5),
     csrs = (\<lambda>c. 0), mem = (\<lambda>a. 0)\<rparr>"

definition swtch_demo_back :: hart where
  "swtch_demo_back = (run swtch_code swtch_demo)\<lparr>regs := (\<lambda>r. if r = A0 then 8192 else 4096)\<rparr>"

theorem swtch_resumes_witness:
  "load64 (mem (run swtch_code swtch_demo)) 4104 = 5 \<and> regs (run swtch_code swtch_demo) SP = 0 \<and>
   regs (run swtch_code swtch_demo_back) SP = 5"
proof -
  have ne: "(8192 :: uint64) + of_nat off \<noteq> 4096 + of_nat off'" if "off < 112" "off' < 112" for off off'
  proof -
    have "unat (8192 + of_nat off :: uint64) = 8192 + off" "unat (4096 + of_nat off' :: uint64) = 4096 + off'"
      using that by (simp_all add: unat_word_ariths unat_of_nat)
    then show ?thesis using that by (intro notI) simp
  qed
  have c: "context_regs ! 1 = SP" "1 < length context_regs" by (simp_all add: context_regs_def)
  have "load64 (mem (run swtch_code swtch_demo)) (regs swtch_demo A0 + of_nat (8 * 1)) = regs swtch_demo (context_regs ! 1) \<and>
    regs (run swtch_code swtch_demo) (context_regs ! 1) = load64 (mem swtch_demo) (regs swtch_demo A1 + of_nat (8 * 1)) \<and>
    regs (run swtch_code swtch_demo_back) (context_regs ! 1) = regs swtch_demo (context_regs ! 1)"
    by (rule swtch_resumes [of swtch_demo swtch_demo_back 1])
      (use ne ne [symmetric] c in \<open>auto simp: swtch_demo_def swtch_demo_back_def aligned_def\<close>)
  then show ?thesis unfolding c(1) by (simp add: swtch_demo_def load64_zero)
qed

section \<open>Timer interrupts and the entry point\<close>

text \<open>C25. The machine-mode timer handler preserves all registers and \<open>mscratch\<close>, moves the comparator
  of this hart on by the interval stored in its scratch area, and raises a supervisor software
  interrupt.
\<close>

theorem timervec_correct:
  assumes "csrs h Mscratch = sc" and "aligned 8 sc"
    and "load64 (mem h) (sc + 24) = cmp" and "aligned 8 cmp"
    and "\<forall>off \<in> {0, 8, 16, 24, 32}. sc + of_nat off \<noteq> cmp"
  shows "regs (run timervec_code h) = regs h \<and> csrs (run timervec_code h) = (csrs h)(Sip := 2) \<and>
    load64 (mem (run timervec_code h)) cmp = load64 (mem h) cmp + load64 (mem h) (sc + 32)"
proof -
  have al: "aligned 8 (sc + 8)" "aligned 8 (sc + 16)" "aligned 8 (sc + 24)" "aligned 8 (sc + 32)"
    using aligned_slot8 [OF assms(2), of 8] aligned_slot8 [OF assms(2), of 16]
      aligned_slot8 [OF assms(2), of 24] aligned_slot8 [OF assms(2), of 32] by simp_all
  have ne: "sc \<noteq> cmp" "sc + 8 \<noteq> cmp" "sc + 16 \<noteq> cmp" "sc + 24 \<noteq> cmp" "sc + 32 \<noteq> cmp"
    using assms(5) by simp_all
  note facts = assms(1-4) al ne ne [symmetric]
  have "regs (run timervec_code h) r = regs h r" for r
    using facts by (simp add: timervec_code_def load64_store64)
  moreover have "csrs (run timervec_code h) c = ((csrs h)(Sip := 2)) c" for c
    using facts by (simp add: timervec_code_def load64_store64)
  moreover have "load64 (mem (run timervec_code h)) cmp = load64 (mem h) cmp + load64 (mem h) (sc + 32)"
    using facts by (simp add: timervec_code_def load64_store64)
  ultimately show ?thesis by blast
qed

definition timer_demo :: hart where
  "timer_demo = \<lparr>regs = (\<lambda>r. 3), csrs = (\<lambda>c. 4096),
     mem = store64 (store64 (\<lambda>a. 0) 4120 33570816) 4128 1000000\<rparr>"

theorem timervec_correct_witness:
  "load64 (mem (run timervec_code timer_demo)) 33570816 = 1000000"
proof -
  have d: "load64 (mem timer_demo) 4120 = 33570816" "load64 (mem timer_demo) 4128 = 1000000"
    "load64 (mem timer_demo) 33570816 = 0"
    by (simp_all add: timer_demo_def load64_store64 aligned_def load64_zero)
  have "load64 (mem (run timervec_code timer_demo)) 33570816 =
      load64 (mem timer_demo) 33570816 + load64 (mem timer_demo) (4096 + 32)"
    using timervec_correct [of timer_demo 4096 33570816] d
    by (simp add: timer_demo_def aligned_def)
  then show ?thesis using d by simp
qed


end
