(* ===== verification/Log_Steps.thy ===== *)
theory Log_Steps
  imports Log
begin

text \<open>
  The operations of the buffer cache as steps on its logical contents: what \<open>bread\<close>, a store
  followed by \<open>bwrite\<close>, and \<open>brelse\<close> do to \<open>blk\<close>, the disk and its write history, with everything
  else unchanged.  The log, and the file system above it, reason with these steps.
\<close>

section \<open>Words in a block\<close>

lemma length_poke [simp]: "off + length bs \<le> length d \<Longrightarrow> length (poke off bs d) = length d"
  by (simp add: poke_def)

lemma peek_poke_same:
  "off + length bs \<le> length d \<Longrightarrow> take (length bs) (drop off (poke off bs d)) = bs"
  by (simp add: poke_def)

lemma peek_poke_other:
  assumes "off + length bs \<le> length d" "off' + n \<le> off \<or> off + length bs \<le> off'"
  shows "take n (drop off' (poke off bs d)) = take n (drop off' d)"
proof (cases "off' + n \<le> off")
  case True
  then have "n \<le> off - off'" "off' \<le> off" by simp_all
  then show ?thesis using assms(1) by (simp add: poke_def drop_take min_absorb1)
next
  case False
  then have o: "off + length bs \<le> off'" using assms(2) by simp
  then have "drop off' (poke off bs d) = drop (off' - (off + length bs)) (drop (off + length bs) d)"
    using assms(1) by (simp add: poke_def drop_append)
  then show ?thesis using o by simp
qed

lemma length_put32 [simp]: "off + 4 \<le> length d \<Longrightarrow> length (put32 off v d) = length d"
  by (simp add: put32_def)

lemma get_put32: "off + 4 \<le> length d \<Longrightarrow> get32 (put32 off v d) off = v"
  using peek_poke_same [of off "le_bytes 4 v" d]
  by (simp add: get32_def put32_def of_le_le_bytes)

lemma get_put32_other:
  "off + 4 \<le> length d \<Longrightarrow> off' + 4 \<le> off \<or> off + 4 \<le> off' \<Longrightarrow> get32 (put32 off v d) off' = get32 d off'"
  using peek_poke_other [of off "le_bytes 4 v" d off' 4] by (simp add: get32_def put32_def)

section \<open>Steps\<close>

text \<open>A sequence of block writes, in the order they reach the disk.\<close>

type_synonym dwrites = "(uint \<times> byte list) list"

definition apply_writes :: "dwrites \<Rightarrow> (uint \<Rightarrow> byte list) \<Rightarrow> uint \<Rightarrow> byte list" where
  "apply_writes ws d = foldl (\<lambda>d (b, x). d(b := x)) d ws"

lemma apply_writes_simps [simp]:
  "apply_writes [] d = d" "apply_writes ((b, x) # ws) d = apply_writes ws (d(b := x))"
  "apply_writes (ws @ ws') d = apply_writes ws' (apply_writes ws d)"
  by (simp_all add: apply_writes_def)

lemma apply_writes_other: "b \<notin> fst ` set ws \<Longrightarrow> apply_writes ws d b = d b"
  by (induction ws arbitrary: d) auto

lemma apply_map_other:
  "(\<And>t. t < k \<Longrightarrow> f t \<noteq> b) \<Longrightarrow> apply_writes (map (\<lambda>t. (f t, g t)) [0..<k]) d b = d b"
proof (induction k)
  case (Suc k)
  then have "f k \<noteq> b" "apply_writes (map (\<lambda>t. (f t, g t)) [0..<k]) d b = d b" by simp_all
  then show ?case by simp
qed simp

lemma apply_map_hit:
  "u < k \<Longrightarrow> (\<And>t. t < k \<Longrightarrow> f t = f u \<Longrightarrow> g t = g u) \<Longrightarrow>
    apply_writes (map (\<lambda>t. (f t, g t)) [0..<k]) d (f u) = g u"
proof (induction k)
  case (Suc k)
  show ?case
  proof (cases "f k = f u")
    case True
    then have "g k = g u" by (rule Suc.prems(2) [OF lessI])
    then show ?thesis using True by simp
  next
    case False
    then have "u < k" using Suc.prems(1) by (metis less_SucE)
    then have "apply_writes (map (\<lambda>t. (f t, g t)) [0..<k]) d (f u) = g u"
      by (rule Suc.IH) (rule Suc.prems(2) [OF less_SucI])
    then show ?thesis using False by simp
  qed
qed simp

lemma apply_writes_eq:
  "(\<And>x. (b, x) \<in> set ws \<Longrightarrow> x = v) \<Longrightarrow> (\<exists>x. (b, x) \<in> set ws) \<or> d b = v \<Longrightarrow> apply_writes ws d b = v"
proof (induction ws arbitrary: d)
  case (Cons w ws)
  obtain c x where w: "w = (c, x)" by (cases w)
  have "(\<exists>x. (b, x) \<in> set ws) \<or> (d(c := x)) b = v" using Cons.prems w by auto
  then have "apply_writes ws (d(c := x)) b = v" using Cons.prems(1) by (intro Cons.IH) auto
  then show ?case using w by simp
qed simp

lemma foldR_append: "foldR f (xs @ ys) s = bindR (foldR f xs s) (foldR f ys)"
proof (induction xs arbitrary: s)
  case (Cons x xs)
  then have "foldR f (xs @ ys) = (\<lambda>s. bindR (foldR f xs s) (foldR f ys))" by blast
  then show ?case by (simp add: bindR_assoc)
qed simp

text \<open>
  \<open>lstep ws s s'\<close>: from \<open>s\<close> to \<open>s'\<close> only the cache and the process table (by wake-ups) have changed,
  and the disk has seen the writes \<open>ws\<close>.
\<close>

definition lstep :: "dwrites \<Rightarrow> 'z bcache_scheme \<Rightarrow> 'z bcache_scheme \<Rightarrow> bool" where
  "lstep ws s s' \<longleftrightarrow> (\<exists>ps bs. s' = s\<lparr>proc := ps, bufs := bs, disk := apply_writes ws (disk s),
     dlog := rev ws @ dlog s\<rparr>)"

lemma lstep_refl [simp]: "lstep [] s s"
  unfolding lstep_def by (intro exI [of _ "proc s"] exI [of _ "bufs s"]) simp

lemma lstep_trans [trans]: "lstep ws s s' \<Longrightarrow> lstep ws' s' s'' \<Longrightarrow> lstep (ws @ ws') s s''"
  unfolding lstep_def by (elim exE, rename_tac ps bs ps' bs', rule_tac x = ps' in exI,
    rule_tac x = bs' in exI) simp

lemma lstep_disk: "lstep ws s s' \<Longrightarrow> disk s' = apply_writes ws (disk s)"
  by (auto simp: lstep_def)

lemma lstep_dlog: "lstep ws s s' \<Longrightarrow> dlog s' = rev ws @ dlog s"
  by (auto simp: lstep_def)

lemma lstep_log: "lstep ws s s' \<Longrightarrow> log s' = log s"
  by (auto simp: lstep_def)

lemma blk_clean:
  assumes st: "bst dv P H s" and "bn \<notin> P" "bn \<notin> H"
  shows "blk dv s bn = disk s bn"
proof (cases rule: blk_cases [OF bstD(2,1) [OF st], where bn = bn])
  case (1 i)
  obtain pd where pd: "mypid s = Ok pd" using bst_pid [OF st] by blast
  have i: "i < NBUF" "blockno (bufs s ! i) = bn" using 1(1) by (auto simp: isbuf_def)
  show ?thesis using bufokD(8) [OF bst_bufok [OF st pd i(1)] 1(2)] 1(3) i assms by simp
next
  case 2
  then show ?thesis by simp
qed

lemma bread_step:
  assumes st: "bst dv P H s" and nh: "bn \<notin> H" and c: "bn \<in> P \<or> card (P \<union> H) < NBUF"
  shows "\<exists>b s'. bread dv bn s = Ok (b, s') \<and> lstep [] s s' \<and> bst dv P (insert bn H) s' \<and>
    isbuf dv (bufs s') bn b \<and> data (bufs s' ! b) = blk dv s bn \<and> blk dv s' = blk dv s \<and>
    (\<forall>bn'\<in>H. \<forall>j. isbuf dv (bufs s) bn' j \<longrightarrow> isbuf dv (bufs s') bn' j)"
proof -
  obtain b x where r: "bread dv bn s = Ok (b, s\<lparr>bufs := (bufs s)[b := x]\<rparr>)"
    "bst dv P (insert bn H) (s\<lparr>bufs := (bufs s)[b := x]\<rparr>)" "isbuf dv ((bufs s)[b := x]) bn b"
    "data x = blk dv s bn" "blk dv (s\<lparr>bufs := (bufs s)[b := x]\<rparr>) = blk dv s"
    "\<And>bn' j. bn' \<in> H \<Longrightarrow> isbuf dv (bufs s) bn' j \<Longrightarrow> j \<noteq> b"
    using bread_ok [OF assms] by blast
  have x: "(bufs s)[b := x] ! b = x" using r(3) bstD(3) [OF st] by (simp add: isbuf_def)
  have "isbuf dv ((bufs s)[b := x]) bn' j" if "bn' \<in> H" "isbuf dv (bufs s) bn' j" for bn' j
    using that r(6) [OF that] by (simp add: isbuf_def)
  moreover have "lstep [] s (s\<lparr>bufs := (bufs s)[b := x]\<rparr>)"
    unfolding lstep_def by (intro exI [of _ "proc s"] exI [of _ "(bufs s)[b := x]"]) simp
  ultimately show ?thesis using r(1-5) x
    by (intro exI [of _ b] exI [of _ "s\<lparr>bufs := (bufs s)[b := x]\<rparr>"]) simp
qed

lemma store_step:
  assumes st: "bst dv P H s" and h: "bn \<in> H" and b: "isbuf dv (bufs s) bn b" and d: "length d = BSIZE"
  shows "\<exists>s'. bwrite b (set_data b d s) = Ok s' \<and> lstep [(bn, d)] s s' \<and> bst dv P H s' \<and>
    isbuf dv (bufs s') = isbuf dv (bufs s) \<and> blk dv s' = (blk dv s)(bn := d)"
proof -
  let ?s1 = "set_data b d s"
  have s1: "bst dv P H ?s1" "isbuf dv (bufs ?s1) = isbuf dv (bufs s)" "blk dv ?s1 = (blk dv s)(bn := d)"
    using setdata_ok [OF st h b d] by (auto simp: set_data_def)
  let ?s2 = "?s1\<lparr>disk := (disk ?s1)(bn := blk dv ?s1 bn), dlog := (bn, blk dv ?s1 bn) # dlog ?s1\<rparr>"
  have "bwrite b ?s1 = Ok ?s2 \<and> bst dv P H ?s2 \<and> blk dv ?s2 = blk dv ?s1"
    using bwrite_ok [OF s1(1) h _ refl] b s1(2) by simp
  moreover have "lstep [(bn, d)] s ?s2"
    unfolding lstep_def s1(3) by (intro exI [of _ "proc s"] exI [of _ "bufs ?s1"]) (simp add: set_data_def)
  ultimately show ?thesis using s1 by (intro exI [of _ ?s2]) simp
qed

lemma brelse_step:
  assumes "bst dv P H s" and "bn \<in> H" and "isbuf dv (bufs s) bn b"
    and "bn \<in> P \<or> blk dv s bn = disk s bn"
  shows "\<exists>s'. brelse b s = Ok s' \<and> lstep [] s s' \<and> bst dv P (H - {bn}) s' \<and>
    isbuf dv (bufs s') = isbuf dv (bufs s) \<and> blk dv s' = blk dv s"
proof -
  obtain bs where "brelse b s = Ok (s\<lparr>proc := proc (wakeup (Chan_buf_lock b) s), bufs := bs\<rparr>)"
    "bst dv P (H - {bn}) (s\<lparr>proc := proc (wakeup (Chan_buf_lock b) s), bufs := bs\<rparr>)"
    "isbuf dv bs = isbuf dv (bufs s)"
    "blk dv (s\<lparr>proc := proc (wakeup (Chan_buf_lock b) s), bufs := bs\<rparr>) = blk dv s"
    using brelse_ok [OF assms] by blast
  moreover have "lstep [] s (s\<lparr>proc := proc (wakeup (Chan_buf_lock b) s), bufs := bs\<rparr>)"
    unfolding lstep_def by auto
  ultimately show ?thesis by auto
qed

end
