(* ===== verification/Log_Crash.thy ===== *)
theory Log_Crash
  imports Log_Steps
begin

text \<open>
  Crash safety of the log.  \<open>commit\<close> is shown to write the log blocks, the header, the home blocks
  and the cleared header, in this order; recovery from the disk as it is after any prefix of these
  writes yields the contents before the transaction, if the header had not been written, and the
  contents with all of the transaction's blocks otherwise.  A block write is taken to be atomic.
\<close>

section \<open>The log area\<close>

definition lblk :: "log \<Rightarrow> nat \<Rightarrow> uint" where
  "lblk l tail = lstart l + of_nat tail + 1"

text \<open>
  The number of blocks that \<open>log_write\<close> accepts: at most \<open>LOGSIZE\<close>, and one less than the size of
  the log on disk.
\<close>

definition logcap :: "log \<Rightarrow> nat" where
  "logcap l = min LOGSIZE (nat (lsize l - 1))"

definition logarea :: "log \<Rightarrow> uint set" where
  "logarea l = insert (lstart l) (lblk l ` {..<logcap l})"

lemma LOGSIZE_30 [simp]: "LOGSIZE = 30"
  by (simp add: params)

lemma NBUF_30: "NBUF = 30"
  by (simp add: params)

lemma lblk_eq: "t < 30 \<Longrightarrow> t' < 30 \<Longrightarrow> lblk l t = lblk l t' \<longleftrightarrow> t = t'"
proof -
  assume "t < 30" "t' < 30"
  then have "unat (of_nat t :: uint) = t" "unat (of_nat t' :: uint) = t'" by (simp_all add: unat_of_nat)
  then have "(of_nat t :: uint) = of_nat t' \<longleftrightarrow> t = t'" by metis
  then show ?thesis by (simp add: lblk_def)
qed

lemma lblk_start: "t < 30 \<Longrightarrow> lblk l t \<noteq> lstart l"
proof
  assume t: "t < 30" "lblk l t = lstart l"
  then have "(of_nat (Suc t) :: uint) = 0" by (simp add: lblk_def algebra_simps)
  moreover have "unat (of_nat (Suc t) :: uint) = Suc t" using t by (simp add: unat_of_nat del: of_nat_Suc)
  ultimately show False by (metis nat.distinct(1) unat_0)
qed

lemma logcap_30: "logcap l \<le> 30"
  by (simp add: logcap_def)

lemma lblk_area [simp]: "t < logcap l \<Longrightarrow> lblk l t \<in> logarea l" "lstart l \<in> logarea l"
  by (auto simp: logarea_def)

lemma logcap_upd [simp]:
  "logcap (l\<lparr>lhn := n\<rparr>) = logcap l" "logcap (l\<lparr>lhblock := B\<rparr>) = logcap l"
  "logcap (l\<lparr>outstanding := k\<rparr>) = logcap l" "logcap (l\<lparr>committing := c\<rparr>) = logcap l"
  by (simp_all add: logcap_def)

lemma logarea_upd [simp]:
  "logarea (l\<lparr>lhn := n\<rparr>) = logarea l" "logarea (l\<lparr>lhblock := B\<rparr>) = logarea l"
  "logarea (l\<lparr>outstanding := k\<rparr>) = logarea l" "logarea (l\<lparr>committing := c\<rparr>) = logarea l"
  by (auto simp: logarea_def lblk_def logcap_def)

section \<open>The header block\<close>

text \<open>What \<open>write_head\<close> makes of the header block, and what \<open>read_head\<close> reads from it.\<close>

definition head_put :: "int \<Rightarrow> uint list \<Rightarrow> byte list \<Rightarrow> byte list" where
  "head_put n B d =
     foldl (\<lambda>hb i. put32 (4 + 4 * i) (B ! i) hb) (put32 0 (word_of_int n) d) [0..<nat n]"

definition head_n :: "byte list \<Rightarrow> int" where
  "head_n d = sint (get32 d 0)"

lemma head_loop:
  assumes "length d = BSIZE" "k \<le> 30"
  shows "length (foldl (\<lambda>hb i. put32 (4 + 4 * i) (B ! i) hb) d [0..<k]) = BSIZE \<and>
    get32 (foldl (\<lambda>hb i. put32 (4 + 4 * i) (B ! i) hb) d [0..<k]) 0 = get32 d 0 \<and>
    (\<forall>i<k. get32 (foldl (\<lambda>hb i. put32 (4 + 4 * i) (B ! i) hb) d [0..<k]) (4 + 4 * i) = B ! i)"
  using assms(2)
proof (induction k)
  case 0
  then show ?case using assms by simp
next
  case (Suc k)
  define e where "e = foldl (\<lambda>hb i. put32 (4 + 4 * i) (B ! i) hb) d [0..<k]"
  have e: "length e = BSIZE" "get32 e 0 = get32 d 0" "\<And>i. i < k \<Longrightarrow> get32 e (4 + 4 * i) = B ! i"
    using Suc by (simp_all add: e_def)
  have fit: "4 + 4 * k + 4 \<le> length e" using Suc.prems e(1) by (simp add: BSIZE_def)
  have "get32 (put32 (4 + 4 * k) (B ! k) e) (4 + 4 * i) = B ! i" if "i < Suc k" for i
  proof (cases "i = k")
    case True
    then show ?thesis using get_put32 [OF fit] by simp
  next
    case False
    then show ?thesis using get_put32_other [OF fit, of "4 + 4 * i"] e(3) that by simp
  qed
  moreover have "get32 (put32 (4 + 4 * k) (B ! k) e) 0 = get32 d 0"
    using get_put32_other [OF fit, of 0] e(2) by simp
  ultimately show ?case using e(1) fit by (simp add: e_def [symmetric])
qed

lemma head_put:
  assumes "length d = BSIZE" "n \<le> 30"
  shows "length (head_put n B d) = BSIZE" "get32 (head_put n B d) 0 = word_of_int n"
    "\<And>i. i < nat n \<Longrightarrow> get32 (head_put n B d) (4 + 4 * i) = B ! i"
proof -
  have d: "length (put32 0 (word_of_int n) d) = BSIZE" "get32 (put32 0 (word_of_int n) d) 0 = word_of_int n"
    using assms get_put32 [of 0 d] by (simp_all add: BSIZE_def)
  show "length (head_put n B d) = BSIZE" "get32 (head_put n B d) 0 = word_of_int n"
    "\<And>i. i < nat n \<Longrightarrow> get32 (head_put n B d) (4 + 4 * i) = B ! i"
    using head_loop [OF d(1), of "nat n" B] d(2) assms(2) unfolding head_put_def by simp_all
qed

lemma sint_small: "0 \<le> n \<Longrightarrow> n \<le> 30 \<Longrightarrow> sint (word_of_int n :: uint) = n"
  by (simp add: sint_sbintrunc' signed_take_bit_int_eq_self)

lemma head_n_put: "length d = BSIZE \<Longrightarrow> 0 \<le> n \<Longrightarrow> n \<le> 30 \<Longrightarrow> head_n (head_put n B d) = n"
  using head_put(2) [of d n B] by (simp add: head_n_def sint_small)

section \<open>The steps of commit and recovery\<close>

lemma log_block_ok:
  assumes st: "bst dv P {} s" and dv: "ldev (log s) = dv"
    and P: "lhblock (log s) ! t \<in> P" "lblk (log s) t \<notin> P" "card P < NBUF"
  shows "\<exists>s'. log_block t s = Ok s' \<and> lstep [(lblk (log s) t, blk dv s (lhblock (log s) ! t))] s s' \<and>
    bst dv P {} s' \<and> blk dv s' = (blk dv s)(lblk (log s) t := blk dv s (lhblock (log s) ! t))"
proof -
  define a where "a = lblk (log s) t"
  define h where "h = lhblock (log s) ! t"
  have ah: "a \<noteq> h" "h \<in> P" "a \<notin> P" using P by (auto simp: a_def h_def)
  obtain b1 s1 where 1: "bread dv a s = Ok (b1, s1)" "lstep [] s s1" "bst dv P {a} s1"
    "isbuf dv (bufs s1) a b1" "blk dv s1 = blk dv s"
    using bread_step [OF st, of a] P(3) by auto
  obtain b2 s2 where 2: "bread dv h s1 = Ok (b2, s2)" "lstep [] s1 s2" "bst dv P {h, a} s2"
    "isbuf dv (bufs s2) h b2" "data (bufs s2 ! b2) = blk dv s h" "blk dv s2 = blk dv s"
    "isbuf dv (bufs s2) a b1"
    using bread_step [OF 1(3), of h] ah 1(4,5) by auto
  obtain s3 where 3: "bwrite b1 (set_data b1 (blk dv s h) s2) = Ok s3" "lstep [(a, blk dv s h)] s2 s3"
    "bst dv P {h, a} s3" "isbuf dv (bufs s3) = isbuf dv (bufs s2)" "blk dv s3 = (blk dv s)(a := blk dv s h)"
    using store_step [OF 2(3) _ 2(7), of "blk dv s h"] blk_length [OF st] 2(6) by auto
  obtain s4 where 4: "brelse b2 s3 = Ok s4" "lstep [] s3 s4" "bst dv P ({h, a} - {h}) s4"
    "isbuf dv (bufs s4) = isbuf dv (bufs s3)" "blk dv s4 = blk dv s3"
    using brelse_step [OF 3(3), of h b2] ah 2(4) 3(4) by auto
  have H: "{h, a} - {h} = {a}" using ah by auto
  have "disk s4 a = blk dv s h" using lstep_disk [OF 3(2)] lstep_disk [OF 4(2)] by simp
  then obtain s5 where 5: "brelse b1 s4 = Ok s5" "lstep [] s4 s5" "bst dv P {} s5" "blk dv s5 = blk dv s3"
    using brelse_step [OF 4(3) [unfolded H], of a b1] 2(7) 3(4,5) 4(4,5) by auto
  have l: "log s1 = log s" "log s2 = log s" using 1(2) 2(2) by (simp_all add: lstep_log)
  have "log_block t s = Ok s5"
    using 1(1) 2(1,5) 3(1) 4(1) 5(1) dv l by (simp add: log_block_def a_def lblk_def h_def)
  moreover have "lstep [(a, blk dv s h)] s s5"
    using lstep_trans [OF lstep_trans [OF lstep_trans [OF lstep_trans [OF 1(2) 2(2)] 3(2)] 4(2)] 5(2)]
    by simp
  ultimately show ?thesis using 5 3(5) by (auto simp: a_def h_def)
qed

lemma install_block_ok:
  assumes st: "bst dv P {} s" and dv: "ldev (log s) = dv"
    and P: "lblk (log s) t \<notin> P" "lblk (log s) t \<noteq> lhblock (log s) ! t"
    and rc: "if rc then P = {} else lhblock (log s) ! t \<in> P \<and> card P < NBUF"
  shows "\<exists>s'. install_block rc t s = Ok s' \<and>
    lstep [(lhblock (log s) ! t, disk s (lblk (log s) t))] s s' \<and>
    bst dv (if rc then {} else P - {lhblock (log s) ! t}) {} s' \<and>
    blk dv s' = (blk dv s)(lhblock (log s) ! t := disk s (lblk (log s) t))"
proof -
  define a where "a = lblk (log s) t"
  define h where "h = lhblock (log s) ! t"
  define P' where "P' = (if rc then {} else P - {h})"
  have ah: "a \<noteq> h" "a \<notin> P" using P by (auto simp: a_def h_def)
  have card: "h \<in> P \<or> card (P \<union> {a}) < NBUF" "card P < NBUF"
    using rc by (auto simp: h_def NBUF_30 split: if_splits)
  have blk_a: "blk dv s a = disk s a" using blk_clean [OF st] ah by simp
  obtain b1 s1 where 1: "bread dv a s = Ok (b1, s1)" "lstep [] s s1" "bst dv P {a} s1"
    "isbuf dv (bufs s1) a b1" "data (bufs s1 ! b1) = disk s a" "blk dv s1 = blk dv s"
    using bread_step [OF st, of a] card blk_a by auto
  obtain b2 s2 where 2: "bread dv h s1 = Ok (b2, s2)" "lstep [] s1 s2" "bst dv P {h, a} s2"
    "isbuf dv (bufs s2) h b2" "blk dv s2 = blk dv s" "isbuf dv (bufs s2) a b1"
    using bread_step [OF 1(3), of h] ah 1(4,6) card(1) by auto
  obtain pd where pd: "mypid s2 = Ok pd" using bst_pid [OF 2(3)] by blast
  have d1: "data (bufs s2 ! b1) = disk s a" using heldD(7) [OF 2(3) _ 2(6) pd] 2(5) blk_a by simp
  have len: "length (disk s a) = BSIZE" using bstD(5) [OF st] .
  obtain s3 where 3: "bwrite b2 (set_data b2 (disk s a) s2) = Ok s3" "lstep [(h, disk s a)] s2 s3"
    "bst dv P {h, a} s3" "isbuf dv (bufs s3) = isbuf dv (bufs s2)" "blk dv s3 = (blk dv s)(h := disk s a)"
    using store_step [OF 2(3) _ 2(4) len] 2(5) by auto
  define s4 where "s4 = (if rc then s3 else bunpin b2 s3)"
  have 4: "lstep [] s3 s4" "bst dv P' {h, a} s4" "isbuf dv (bufs s4) = isbuf dv (bufs s3)" "blk dv s4 = blk dv s3"
  proof -
    show "lstep [] s3 s4"
      unfolding s4_def lstep_def by (intro exI [of _ "proc s4"] exI [of _ "bufs s4"]) (simp add: s4_def bunpin_def)
    show "bst dv P' {h, a} s4" "isbuf dv (bufs s4) = isbuf dv (bufs s3)" "blk dv s4 = blk dv s3"
      using 3(3) rc bunpin_ok [OF 3(3), of h b2] 2(4) 3(4) by (auto simp: s4_def P'_def h_def split: if_splits)
  qed
  have aP: "a \<notin> P'" using ah rc by (auto simp: P'_def)
  have d3: "disk s3 = (disk s)(h := disk s a)"
    using lstep_disk [OF 1(2)] lstep_disk [OF 2(2)] lstep_disk [OF 3(2)] by simp
  have "blk dv s4 a = disk s4 a"
    using 4(4) 3(5) d3 lstep_disk [OF 4(1)] blk_a ah by simp
  then obtain s5 where 5: "brelse b1 s4 = Ok s5" "lstep [] s4 s5" "bst dv P' ({h, a} - {a}) s5"
    "isbuf dv (bufs s5) = isbuf dv (bufs s4)" "blk dv s5 = blk dv s4"
    using brelse_step [OF 4(2), of a b1] 2(6) 3(4) 4(3) by auto
  have H: "{h, a} - {a} = {h}" using ah by auto
  have "blk dv s5 h = disk s5 h"
    using 5(5) 4(4) 3(5) d3 lstep_disk [OF 4(1)] lstep_disk [OF 5(2)] by simp
  then obtain s6 where 6: "brelse b2 s5 = Ok s6" "lstep [] s5 s6" "bst dv P' {} s6" "blk dv s6 = blk dv s5"
    using brelse_step [OF 5(3) [unfolded H], of h b2] 2(4) 3(4) 4(3) 5(4) by auto
  have l: "log s1 = log s" using 1(2) by (simp add: lstep_log)
  have "install_block rc t s = Ok s6"
    using 1(1) 2(1) d1 3(1) 5(1) 6(1) dv l
    by (simp add: install_block_def a_def lblk_def h_def s4_def Let_def split: if_splits)
  moreover have "lstep [(h, disk s a)] s s6"
    using lstep_trans [OF lstep_trans [OF lstep_trans [OF lstep_trans [OF lstep_trans
      [OF 1(2) 2(2)] 3(2)] 4(1)] 5(2)] 6(2)] by simp
  ultimately show ?thesis using 6(3,4) 5(5) 4(4) 3(5) by (auto simp: a_def h_def P'_def)
qed

lemma write_head_ok:
  assumes st: "bst dv P {} s" and dv: "ldev (log s) = dv"
    and P: "lstart (log s) \<notin> P" "card P < NBUF" and n: "lhn (log s) \<le> 30"
  shows "\<exists>s'. write_head s = Ok s' \<and>
    lstep [(lstart (log s), head_put (lhn (log s)) (lhblock (log s)) (disk s (lstart (log s))))] s s' \<and>
    bst dv P {} s' \<and>
    blk dv s' = (blk dv s)(lstart (log s) := head_put (lhn (log s)) (lhblock (log s)) (disk s (lstart (log s))))"
proof -
  define a where "a = lstart (log s)"
  define d where "d = head_put (lhn (log s)) (lhblock (log s)) (disk s a)"
  have blk_a: "blk dv s a = disk s a" using blk_clean [OF st] P by (simp add: a_def)
  obtain b s1 where 1: "bread dv a s = Ok (b, s1)" "lstep [] s s1" "bst dv P {a} s1"
    "isbuf dv (bufs s1) a b" "data (bufs s1 ! b) = disk s a" "blk dv s1 = blk dv s"
    using bread_step [OF st, of a] P(2) blk_a by auto
  have "length d = BSIZE" using head_put(1) [OF bstD(5) [OF st] n] by (simp add: d_def)
  then obtain s2 where 2: "bwrite b (set_data b d s1) = Ok s2" "lstep [(a, d)] s1 s2" "bst dv P {a} s2"
    "isbuf dv (bufs s2) = isbuf dv (bufs s1)" "blk dv s2 = (blk dv s)(a := d)"
    using store_step [OF 1(3) _ 1(4)] 1(6) by auto
  have "blk dv s2 a = disk s2 a" using 2(5) lstep_disk [OF 2(2)] by simp
  then obtain s3 where 3: "brelse b s2 = Ok s3" "lstep [] s2 s3" "bst dv P {} s3" "blk dv s3 = blk dv s2"
    using brelse_step [OF 2(3), of a b] 1(4) 2(4) by auto
  have "write_head s = Ok s3"
    using 1(1,5) 2(1) 3(1) dv lstep_log [OF 1(2)] by (simp add: write_head_def a_def d_def head_put_def)
  moreover have "lstep [(a, d)] s s3" using lstep_trans [OF lstep_trans [OF 1(2) 2(2)] 3(2)] by simp
  ultimately show ?thesis using 3 2(5) by (auto simp: a_def d_def)
qed

lemma write_log_ok:
  fixes s :: "'z logst_scheme"
  defines "l \<equiv> log s"
  assumes st: "bst dv P {} s" and dv: "ldev l = dv" and n: "n \<le> logcap l"
    and P: "\<And>t. t < n \<Longrightarrow> lhblock l ! t \<in> P" "P \<inter> logarea l = {}" "card P < NBUF" and k: "k \<le> n"
  shows "\<exists>s'. foldR log_block [0..<k] s = Ok s' \<and>
    lstep (map (\<lambda>t. (lblk l t, blk dv s (lhblock l ! t))) [0..<k]) s s' \<and> bst dv P {} s' \<and>
    (\<forall>b. b \<notin> logarea l \<longrightarrow> blk dv s' b = blk dv s b)"
  using k
proof (induction k)
  case 0
  then show ?case using st by simp
next
  case (Suc k)
  then obtain s1 where 1: "foldR log_block [0..<k] s = Ok s1"
    "lstep (map (\<lambda>t. (lblk l t, blk dv s (lhblock l ! t))) [0..<k]) s s1" "bst dv P {} s1"
    "\<And>b. b \<notin> logarea l \<Longrightarrow> blk dv s1 b = blk dv s b" by auto
  have l: "log s1 = l" using lstep_log [OF 1(2)] by (simp add: l_def)
  have a: "lblk l k \<in> logarea l" "lblk l k \<notin> P" using Suc.prems n P(2) lblk_area(1) [of k l] by auto
  have h: "lhblock l ! k \<notin> logarea l" using P(1) [of k] P(2) Suc.prems by auto
  obtain s2 where 2: "log_block k s1 = Ok s2" "lstep [(lblk l k, blk dv s1 (lhblock l ! k))] s1 s2"
    "bst dv P {} s2" "blk dv s2 = (blk dv s1)(lblk l k := blk dv s1 (lhblock l ! k))"
    using log_block_ok [OF 1(3), of k] l dv P a Suc.prems by auto
  have "lstep (map (\<lambda>t. (lblk l t, blk dv s (lhblock l ! t))) [0..<k] @ [(lblk l k, blk dv s (lhblock l ! k))]) s s2"
    using lstep_trans [OF 1(2) 2(2)] 1(4) [OF h] by simp
  moreover have "foldR log_block [0..<Suc k] s = Ok s2" using 1(1) 2(1) by (simp add: foldR_append)
  ultimately show ?case using 2(3,4) 1(4) a by (intro exI [of _ s2]) auto
qed

lemma install_ok:
  fixes s :: "'z logst_scheme"
  defines "l \<equiv> log s"
  assumes st: "bst dv (if rc then {} else set (take n (lhblock l))) {} s" and dv: "ldev l = dv"
    and n: "n \<le> length (lhblock l)" "n < 30 \<or> rc" "n \<le> logcap l" and d: "rc \<or> distinct (take n (lhblock l))"
    and H: "\<And>t. t < n \<Longrightarrow> lhblock l ! t \<notin> logarea l" and k: "k \<le> n"
  shows "\<exists>s'. foldR (install_block rc) [0..<k] s = Ok s' \<and>
    lstep (map (\<lambda>t. (lhblock l ! t, disk s (lblk l t))) [0..<k]) s s' \<and>
    bst dv (if rc then {} else set (drop k (take n (lhblock l)))) {} s'"
  using k
proof (induction k)
  case 0
  then show ?case using st by (cases rc) simp_all
next
  case (Suc k)
  define B where "B = lhblock l"
  let ?P = "\<lambda>k. if rc then {} else set (drop k (take n B))"
  obtain s1 where 1: "foldR (install_block rc) [0..<k] s = Ok s1"
    "lstep (map (\<lambda>t. (B ! t, disk s (lblk l t))) [0..<k]) s s1" "bst dv (?P k) {} s1"
    using Suc unfolding B_def by auto
  have l: "log s1 = l" using lstep_log [OF 1(2)] by (simp add: l_def)
  have kn: "k < n" "k < logcap l" using Suc.prems n by simp_all
  have area: "lblk l k \<in> logarea l" using kn by simp
  have homes: "set (take n B) \<inter> logarea l = {}" using H n(1) by (auto simp: B_def in_set_conv_nth)
  have dk: "drop k (take n B) = B ! k # drop (Suc k) (take n B)"
    using kn n(1) by (simp add: Cons_nth_drop_Suc [symmetric] B_def)
  have "set (drop k (take n B)) \<subseteq> set (take n B)" by (rule set_drop_subset)
  then have a: "lblk l k \<notin> ?P k" using area homes by auto
  have ne: "lblk l k \<noteq> B ! k" using H [OF kn(1)] area by (auto simp: B_def)
  have "card (set (drop k (take n B))) < NBUF \<or> rc"
    using card_length [of "drop k (take n B)"] n by (auto simp: NBUF_30)
  then have pre: "if rc then ?P k = {} else B ! k \<in> ?P k \<and> card (?P k) < NBUF" using dk by auto
  obtain s2 where 2: "install_block rc k s1 = Ok s2" "lstep [(B ! k, disk s1 (lblk l k))] s1 s2"
    "bst dv (if rc then {} else ?P k - {B ! k}) {} s2"
    using install_block_ok [OF 1(3), of k rc] l dv a ne pre unfolding B_def by auto
  have P': "(if rc then {} else ?P k - {B ! k}) = ?P (Suc k)"
  proof (cases rc)
    case False
    then have "distinct (drop k (take n B))" using d by (simp add: B_def)
    then have "B ! k \<notin> set (drop (Suc k) (take n B))" unfolding dk by simp
    then show ?thesis using False dk by simp
  qed simp
  have D: "disk s1 (lblk l k) = disk s (lblk l k)"
  proof -
    have "B ! t \<noteq> lblk l k" if "t < k" for t
    proof -
      have "B ! t \<notin> logarea l" using H [of t] that kn(1) by (simp add: B_def)
      then show ?thesis using area by metis
    qed
    then show ?thesis unfolding lstep_disk [OF 1(2)] by (rule apply_map_other)
  qed
  have F: "foldR (install_block rc) [0..<Suc k] s = Ok s2" using 1(1) 2(1) by (simp add: foldR_append)
  have W: "lstep (map (\<lambda>t. (lhblock l ! t, disk s (lblk l t))) [0..<Suc k]) s s2"
    using lstep_trans [OF 1(2) 2(2)] unfolding B_def D by simp
  show ?case using F W 2(3) [unfolded P'] unfolding B_def by (intro exI [of _ s2] conjI)
qed

lemma bst_log_upd [simp]: "bst dv P H (s\<lparr>log := l\<rparr>) = bst dv P H s"
  by (simp add: bst_def mypid_def myproc_def split: option.split)

lemma blk_log_upd [simp]: "blk dv (s\<lparr>log := l\<rparr>) = blk dv s"
  by (simp add: blk_def fun_eq_iff split: option.split)

text \<open>
  A transaction ready to commit: the blocks of the in-memory header are distinct, outside the log
  area, and exactly the pinned ones.  The blocks in \<open>H\<close> are locked by the caller.
\<close>

definition logok :: "uint \<Rightarrow> uint set \<Rightarrow> 'z logst_scheme \<Rightarrow> bool" where
  "logok dv H s \<longleftrightarrow>
     (let l = log s; B = take (nat (lhn l)) (lhblock l)
      in ldev l = dv \<and> 0 \<le> lhn l \<and> lhn l \<le> int (logcap l) \<and> length (lhblock l) = LOGSIZE \<and>
         distinct B \<and> set B \<inter> logarea l = {} \<and> bst dv (set B) H s)"

text \<open>The disk writes of a commit.\<close>

definition commit_writes :: "uint \<Rightarrow> 'z logst_scheme \<Rightarrow> dwrites" where
  "commit_writes dv s =
     (let l = log s; n = nat (lhn l); B = lhblock l; h = head_put (lhn l) B (disk s (lstart l))
      in map (\<lambda>t. (lblk l t, blk dv s (B ! t))) [0..<n] @ [(lstart l, h)] @
         map (\<lambda>t. (B ! t, blk dv s (B ! t))) [0..<n] @ [(lstart l, head_put 0 B h)])"

lemma commit_trace:
  assumes ok: "logok dv {} s" and n: "0 < lhn (log s)" "lhn (log s) < int NBUF"
  shows "\<exists>s'. commit s = Ok s' \<and> disk s' = apply_writes (commit_writes dv s) (disk s) \<and>
    dlog s' = rev (commit_writes dv s) @ dlog s \<and> bst dv {} {} s' \<and> log s' = (log s)\<lparr>lhn := 0\<rparr>"
proof -
  define l where "l = log s"
  define k where "k = nat (lhn l)"
  define B where "B = lhblock l"
  define P where "P = set (take k B)"
  have k: "k < 30" "0 < k" "lhn l = int k" using n by (auto simp: k_def l_def NBUF_30)
  have o: "ldev l = dv" "length B = 30" "distinct (take k B)" "P \<inter> logarea l = {}" "bst dv P {} s" "k \<le> logcap l"
    using ok by (auto simp: logok_def Let_def l_def k_def B_def P_def)
  have mem: "B ! t \<in> P" if "t < k" for t using that o(2) k by (auto simp: P_def in_set_conv_nth)
  have card: "card P < NBUF" using card_length [of "take k B"] k by (simp add: P_def NBUF_30)
  have start: "lstart l \<notin> P" using o(4) by (auto simp: logarea_def)
  let ?wl = "map (\<lambda>t. (lblk l t, blk dv s (B ! t))) [0..<k]"
  obtain s1 where 1: "foldR log_block [0..<k] s = Ok s1" "lstep ?wl s s1" "bst dv P {} s1"
    using write_log_ok [OF o(5), of k k] o mem card k unfolding B_def l_def by auto
  have l1: "log s1 = l" using lstep_log [OF 1(2)] by (simp add: l_def)
  have st1: "disk s1 (lstart l) = disk s (lstart l)"
  proof -
    have "lblk l t \<noteq> lstart l" if "t < k" for t using lblk_start [of t l] that k(1) by linarith
    then show ?thesis unfolding lstep_disk [OF 1(2)] by (rule apply_map_other)
  qed
  let ?h = "head_put (int k) B (disk s (lstart l))"
  obtain s2 where 2: "write_head s1 = Ok s2" "lstep [(lstart l, ?h)] s1 s2" "bst dv P {} s2"
    using write_head_ok [OF 1(3)] l1 o(1) start card k st1 unfolding B_def by auto
  have l2: "log s2 = l" using lstep_log [OF 2(2)] l1 by simp
  have logged: "disk s2 (lblk l t) = blk dv s (B ! t)" if "t < k" for t
  proof -
    have "disk s1 (lblk l t) = blk dv s (B ! t)"
      unfolding lstep_disk [OF 1(2)]
    proof (rule apply_map_hit [OF that])
      fix u assume "u < k" "lblk l u = lblk l t"
      then show "blk dv s (B ! u) = blk dv s (B ! t)" using lblk_eq [of u t l] that k(1) by simp
    qed
    then show ?thesis using lstep_disk [OF 2(2)] lblk_start [of t l] that k(1) by simp
  qed
  obtain s3 where 3: "foldR (install_block False) [0..<k] s2 = Ok s3"
    "lstep (map (\<lambda>t. (B ! t, disk s2 (lblk l t))) [0..<k]) s2 s3" "bst dv {} {} s3"
  proof -
    have "B ! t \<notin> logarea l" if "t < k" for t using mem [OF that] o(4) by auto
    then show ?thesis
      using install_ok [where s = s2 and rc = False and dv = dv and n = k and k = k] that
        l2 2(3) o k unfolding B_def P_def by auto
  qed
  have inst: "map (\<lambda>t. (B ! t, disk s2 (lblk l t))) [0..<k] = map (\<lambda>t. (B ! t, blk dv s (B ! t))) [0..<k]"
    using logged by auto
  have l3: "log s3 = l" using lstep_log [OF 3(2)] l2 by simp
  have st3: "disk s3 (lstart l) = ?h"
  proof -
    have "B ! t \<noteq> lstart l" if "t < k" for t using mem [OF that] start by auto
    then have "disk s3 (lstart l) = disk s2 (lstart l)"
      unfolding lstep_disk [OF 3(2)] by (rule apply_map_other)
    then show ?thesis using lstep_disk [OF 2(2)] by simp
  qed
  let ?s3 = "s3\<lparr>log := l\<lparr>lhn := 0\<rparr>\<rparr>"
  have "bst dv {} {} ?s3" using 3(3) by simp
  then obtain s4 where 4: "write_head ?s3 = Ok s4" "lstep [(lstart l, head_put 0 B ?h)] ?s3 s4" "bst dv {} {} s4"
    using write_head_ok [of dv "{}" ?s3] o(1) st3 unfolding B_def by (auto simp: NBUF_30)
  have c: "commit s = Ok s4"
    using n 1(1) 2(1) 3(1) 4(1) l1 l2 l3
    by (simp add: commit_def write_log_def install_trans_def l_def k_def)
  have W: "commit_writes dv s = ((?wl @ [(lstart l, ?h)]) @
      map (\<lambda>t. (B ! t, blk dv s (B ! t))) [0..<k]) @ [(lstart l, head_put 0 B ?h)]"
    by (simp add: commit_writes_def Let_def l_def [symmetric] k_def [symmetric] B_def k(3))
  have L: "lstep ((?wl @ [(lstart l, ?h)]) @ map (\<lambda>t. (B ! t, blk dv s (B ! t))) [0..<k]) s s3"
    by (rule lstep_trans [OF lstep_trans [OF 1(2) 2(2)] 3(2) [unfolded inst]])
  have d4: "disk s4 = apply_writes (commit_writes dv s) (disk s)"
    using lstep_disk [OF 4(2)] unfolding W apply_writes_simps(3) [of _ "[_]"] lstep_disk [OF L, symmetric] by simp
  have g4: "dlog s4 = rev (commit_writes dv s) @ dlog s"
    using lstep_dlog [OF 4(2)] unfolding W by (simp add: lstep_dlog [OF L])
  have l4: "log s4 = (log s)\<lparr>lhn := 0\<rparr>" using lstep_log [OF 4(2)] by (simp add: l_def)
  show ?thesis by (intro exI [of _ s4] conjI c d4 g4 4(3) l4)
qed

section \<open>Writing in a transaction\<close>

lemma absorb:
  "i \<le> absorb bn bl i k \<and> absorb bn bl i k \<le> i + k \<and>
   (if absorb bn bl i k < i + k then bl ! absorb bn bl i k = bn
    else \<forall>j. i \<le> j \<longrightarrow> j < i + k \<longrightarrow> bl ! j \<noteq> bn)"
proof (induction k arbitrary: i)
  case (Suc k)
  show ?case
  proof (cases "bl ! i = bn")
    case False
    have "bl ! j \<noteq> bn" if "\<forall>j. Suc i \<le> j \<longrightarrow> j < i + Suc k \<longrightarrow> bl ! j \<noteq> bn" "i \<le> j" "j < i + Suc k" for j
      using that False by (cases "j = i") auto
    then show ?thesis using Suc [of "Suc i"] False by auto
  qed simp
qed simp

lemma take_snoc_upd: "n < length bl \<Longrightarrow> take (Suc n) (bl[n := v]) = take n bl @ [v]"
  by (simp add: take_Suc_conv_app_nth)

text \<open>\<open>log_write\<close> on a locked block.\<close>

lemma log_write_ok:
  assumes ok: "logok dv H s" and h: "bn \<in> H" and b: "isbuf dv (bufs s) bn b"
    and room: "lhn (log s) < int (logcap (log s))" and out: "1 \<le> outstanding (log s)"
    and area: "bn \<notin> logarea (log s)"
  shows "\<exists>s'. log_write b s = Ok s' \<and> logok dv H s' \<and> blk dv s' = blk dv s \<and> disk s' = disk s \<and>
    isbuf dv (bufs s') = isbuf dv (bufs s) \<and>
    set (take (nat (lhn (log s'))) (lhblock (log s'))) = insert bn (set (take (nat (lhn (log s))) (lhblock (log s)))) \<and>
    lhn (log s') = lhn (log s) + (if bn \<in> set (take (nat (lhn (log s))) (lhblock (log s))) then 0 else 1) \<and>
    log s' = (log s)\<lparr>lhn := lhn (log s'), lhblock := lhblock (log s')\<rparr>"
proof -
  define l where "l = log s"
  define n where "n = nat (lhn l)"
  define B where "B = lhblock l"
  define i where "i = absorb bn B 0 n"
  have o: "ldev l = dv" "length B = 30" "lhn l = int n" "n < 30" "distinct (take n B)"
    "set (take n B) \<inter> logarea l = {}" "bst dv (set (take n B)) H s" "n < logcap l"
    using ok room logcap_30 [of l] by (auto simp: logok_def Let_def l_def n_def B_def)
  have bn: "blockno (bufs s ! b) = bn" using b by (simp add: isbuf_def)
  let ?s1 = "s\<lparr>log := l\<lparr>lhblock := B[i := bn]\<rparr>\<rparr>"
  have lw: "log_write b s = (if int i = lhn l then Ok ((bpin b ?s1)\<lparr>log := l\<lparr>lhblock := B[i := bn], lhn := lhn l + 1\<rparr>\<rparr>)
      else Ok ?s1)"
  proof -
    have "\<not> 30 \<le> lhn (log s)" "\<not> lsize (log s) - 1 \<le> lhn (log s)"
      using room o(3) by (auto simp: logcap_def l_def)
    then show ?thesis using out bn by (simp add: log_write_def Let_def i_def l_def n_def B_def bpin_def)
  qed
  show ?thesis
  proof (cases "i < n")
    case True
    then have bi: "B ! i = bn" using absorb [of 0 bn B n] by (simp add: i_def split: if_splits)
    then have same: "B[i := bn] = B" by (metis list_update_id)
    have "bn \<in> set (take n B)" using bi True o(2,4) by (auto simp: in_set_conv_nth)
    moreover have "?s1 = s" using same by (simp add: B_def l_def)
    ultimately show ?thesis
      using lw True o(3) ok by (intro exI [of _ s]) (auto simp: l_def n_def B_def insert_absorb)
  next
    case False
    then have i: "i = n" and new: "\<And>j. j < n \<Longrightarrow> B ! j \<noteq> bn"
      using absorb [of 0 bn B n] by (auto simp: i_def split: if_splits)
    have nb: "bn \<notin> set (take n B)" using new o(2,4) by (auto simp: in_set_conv_nth)
    have s1: "bst dv (set (take n B)) H ?s1" using o(7) by simp
    have b1: "isbuf dv (bufs ?s1) bn b" using b by simp
    let ?s2 = "(bpin b ?s1)\<lparr>log := l\<lparr>lhblock := B[n := bn], lhn := int n + 1\<rparr>\<rparr>"
    have T: "take (Suc n) (B[n := bn]) = take n B @ [bn]" using o(2,4) by (simp add: take_snoc_upd)
    have P: "bst dv (insert bn (set (take n B))) H ?s2 \<and> isbuf dv (bufs ?s2) = isbuf dv (bufs s) \<and>
        blk dv ?s2 = blk dv s"
      using bpin_ok [OF s1 h b1 nb] by simp
    have "logok dv H ?s2"
      using P o area nb T by (simp add: logok_def Let_def nat_add_distrib l_def)
    moreover have "log_write b s = Ok ?s2" using lw i o(3) by simp
    moreover have "disk ?s2 = disk s" by (simp add: bpin_def)
    ultimately show ?thesis
      using P nb T o(3) by (intro exI [of _ ?s2]) (simp add: l_def [symmetric] n_def [symmetric] B_def [symmetric] nat_add_distrib)
  qed
qed

section \<open>Recovery\<close>

lemma read_blocks:
  "k \<le> length bl \<Longrightarrow> foldl (\<lambda>bl i. bl[i := f i]) bl [0..<k] = map f [0..<k] @ drop k bl"
proof (induction k)
  case (Suc k)
  then have "drop k bl = bl ! k # drop (Suc k) bl" by (simp add: Cons_nth_drop_Suc [symmetric])
  then show ?case using Suc by (simp add: list_update_append)
qed simp

lemma read_head_ok:
  assumes st: "bst dv {} {} s" and dv: "ldev (log s) = dv" and len: "length (lhblock (log s)) = 30"
    and n: "head_n (disk s (lstart (log s))) \<le> 30"
  shows "\<exists>s'. read_head s = Ok s' \<and> bst dv {} {} s' \<and> disk s' = disk s \<and>
    log s' = (log s)\<lparr>lhn := head_n (disk s (lstart (log s))),
      lhblock := map (\<lambda>i. get32 (disk s (lstart (log s))) (4 + 4 * i)) [0..<nat (head_n (disk s (lstart (log s))))] @
        drop (nat (head_n (disk s (lstart (log s))))) (lhblock (log s))\<rparr>"
proof -
  define a where "a = lstart (log s)"
  define l' where "l' = (log s)\<lparr>lhn := head_n (disk s a),
    lhblock := map (\<lambda>i. get32 (disk s a) (4 + 4 * i)) [0..<nat (head_n (disk s a))] @
      drop (nat (head_n (disk s a))) (lhblock (log s))\<rparr>"
  obtain b s1 where 1: "bread dv a s = Ok (b, s1)" "lstep [] s s1" "bst dv {} {a} s1"
    "isbuf dv (bufs s1) a b" "data (bufs s1 ! b) = disk s a" "blk dv s1 = blk dv s"
    using bread_step [OF st, of a] blk_clean [OF st, of a] by (auto simp: NBUF_30)
  let ?s1 = "s1\<lparr>log := l'\<rparr>"
  have "blk dv ?s1 a = disk ?s1 a"
    using 1(6) blk_clean [OF st, of a] lstep_disk [OF 1(2)] by simp
  then obtain s2 where 2: "brelse b ?s1 = Ok s2" "lstep [] ?s1 s2" "bst dv {} {} s2"
    using brelse_step [of dv "{}" "{a}" ?s1 a b] 1(3,4) by auto
  have "read_head s = Ok s2"
    using 1(1,5) 2(1) dv len n lstep_log [OF 1(2)]
    by (simp add: read_head_def a_def l'_def head_n_def read_blocks)
  then show ?thesis
    using 2(3) lstep_disk [OF 2(2)] lstep_disk [OF 1(2)] lstep_log [OF 2(2)]
    unfolding l'_def a_def by (intro exI [of _ s2]) simp
qed

text \<open>
  What recovery does to the disk, given the header block \<open>hd\<close>: it copies the logged blocks home
  and clears the count in the header.
\<close>

lemma recover_ok:
  fixes s :: "'z logst_scheme"
  defines "l \<equiv> log s"
  defines "n \<equiv> nat (head_n (disk s (lstart l)))"
  assumes st: "bst dv {} {} s" and dv: "ldev l = dv" and len: "length (lhblock l) = 30"
    and n: "head_n (disk s (lstart l)) \<le> int (logcap l)"
    and homes: "\<And>t. t < n \<Longrightarrow> get32 (disk s (lstart l)) (4 + 4 * t) \<notin> logarea l"
  shows "\<exists>s' d. recover_from_log s = Ok s' \<and> bst dv {} {} s' \<and> lhn (log s') = 0 \<and> head_n d = 0 \<and>
    disk s' = (apply_writes (map (\<lambda>t. (get32 (disk s (lstart l)) (4 + 4 * t), disk s (lblk l t))) [0..<n])
      (disk s))(lstart l := d)"
proof -
  let ?h = "disk s (lstart l)"
  obtain s1 where 1: "read_head s = Ok s1" "bst dv {} {} s1" "disk s1 = disk s"
    "log s1 = l\<lparr>lhn := head_n ?h, lhblock := map (\<lambda>i. get32 ?h (4 + 4 * i)) [0..<n] @ drop n (lhblock l)\<rparr>"
    using read_head_ok [OF st] dv len n logcap_30 [of l] unfolding l_def n_def by force
  define l1 where "l1 = log s1"
  have l1: "lstart l1 = lstart l" "lblk l1 = lblk l" "logarea l1 = logarea l" "logcap l1 = logcap l" "ldev l1 = dv" "nat (lhn l1) = n"
    "n \<le> length (lhblock l1)" "\<And>t. t < n \<Longrightarrow> lhblock l1 ! t = get32 ?h (4 + 4 * t)"
    using 1(4) dv n by (auto simp: l1_def lblk_def logarea_def logcap_def n_def nth_append fun_eq_iff)
  have n30: "n \<le> logcap l" using n by (simp add: n_def)
  obtain s2 where 2: "foldR (install_block True) [0..<n] s1 = Ok s2"
    "lstep (map (\<lambda>t. (lhblock l1 ! t, disk s1 (lblk l1 t))) [0..<n]) s1 s2" "bst dv {} {} s2"
    using install_ok [where s = s1 and rc = True and dv = dv and n = n and k = n] 1(2) l1 n30 homes
    unfolding l1_def [symmetric] by auto
  have W: "map (\<lambda>t. (lhblock l1 ! t, disk s1 (lblk l1 t))) [0..<n] =
      map (\<lambda>t. (get32 ?h (4 + 4 * t), disk s (lblk l t))) [0..<n]"
    using l1 1(3) by simp
  let ?s2 = "s2\<lparr>log := (log s2)\<lparr>lhn := 0\<rparr>\<rparr>"
  have l2: "log s2 = l1" using lstep_log [OF 2(2)] by (simp add: l1_def)
  let ?d = "head_put 0 (lhblock l1) (disk s2 (lstart l))"
  have "bst dv {} {} ?s2" using 2(3) by simp
  then obtain s3 where 3: "write_head ?s2 = Ok s3" "lstep [(lstart l, ?d)] ?s2 s3" "bst dv {} {} s3"
    using write_head_ok [of dv "{}" ?s2] l2 l1 by (auto simp: NBUF_30)
  have "recover_from_log s = Ok s3"
    using 1(1) 2(1) 3(1) l1(6) by (simp add: recover_from_log_def install_trans_def l1_def)
  moreover have "head_n ?d = 0" using head_n_put [OF bstD(5) [OF 2(3)], of 0] by simp
  moreover have "disk s3 = (disk s2)(lstart l := ?d)" using lstep_disk [OF 3(2)] by simp
  moreover have "lhn (log s3) = 0" using lstep_log [OF 3(2)] by simp
  ultimately show ?thesis
    using 3(3) lstep_disk [OF 2(2)] 1(3) unfolding W by (intro exI [of _ s3] exI [of _ ?d]) simp
qed

section \<open>Crash safety\<close>

text \<open>The disk after a crash that has lost all but the first \<open>k\<close> writes of a commit.\<close>

lemma crash_before_header:
  assumes ok: "logok dv {} s" and k: "k \<le> nat (lhn (log s))"
    and d: "d = apply_writes (take k (commit_writes dv s)) (disk s)"
  shows "d (lstart (log s)) = disk s (lstart (log s))" "\<And>b. b \<notin> logarea (log s) \<Longrightarrow> d b = disk s b"
proof -
  define l where "l = log s"
  have n: "nat (lhn l) \<le> logcap l" "nat (lhn l) \<le> 30"
    using ok logcap_30 [of l] by (auto simp: logok_def l_def Let_def)
  have "take k (commit_writes dv s) = map (\<lambda>t. (lblk l t, blk dv s (lhblock l ! t))) [0..<k]"
    using k by (simp add: commit_writes_def Let_def l_def take_map)
  then have d: "d = apply_writes (map (\<lambda>t. (lblk l t, blk dv s (lhblock l ! t))) [0..<k]) (disk s)"
    using d by simp
  have "lblk l t \<noteq> lstart l" if "t < k" for t using lblk_start [of t l] that k n by (simp add: l_def)
  then show "d (lstart (log s)) = disk s (lstart (log s))"
    unfolding d l_def [symmetric] by (rule apply_map_other)
  fix b assume "b \<notin> logarea (log s)"
  then have "lblk l t \<noteq> b" if "t < k" for t using lblk_area(1) [of t l] that k n by (auto simp: l_def)
  then show "d b = disk s b" unfolding d by (rule apply_map_other)
qed

text \<open>
  After the header write: the log blocks hold the transaction, the header is complete or already
  cleared, and the home blocks have their old or their new contents, the new ones once the header
  has been cleared.
\<close>

lemma crash_after_header:
  assumes ok: "logok dv {} s" and k: "nat (lhn (log s)) < k" "k \<le> length (commit_writes dv s)"
    and d: "d = apply_writes (take k (commit_writes dv s)) (disk s)"
  shows "\<And>t. t < nat (lhn (log s)) \<Longrightarrow> d (lblk (log s) t) = blk dv s (lhblock (log s) ! t)"
    "if k < length (commit_writes dv s)
     then d (lstart (log s)) = head_put (lhn (log s)) (lhblock (log s)) (disk s (lstart (log s)))
     else head_n (d (lstart (log s))) = 0 \<and> (\<forall>b. b \<notin> logarea (log s) \<longrightarrow> d b = blk dv s b)"
    "\<And>b. b \<notin> logarea (log s) \<Longrightarrow> b \<notin> set (take (nat (lhn (log s))) (lhblock (log s))) \<Longrightarrow> d b = disk s b"
proof -
  define l where "l = log s"
  define n where "n = nat (lhn l)"
  define B where "B = lhblock l"
  define h where "h = head_put (lhn l) B (disk s (lstart l))"
  let ?wl = "map (\<lambda>t. (lblk l t, blk dv s (B ! t))) [0..<n]"
  let ?wi = "\<lambda>j. map (\<lambda>t. (B ! t, blk dv s (B ! t))) [0..<j]"
  have o: "length B = 30" "0 \<le> lhn l" "n \<le> 30" "set (take n B) \<inter> logarea l = {}"
    "bst dv (set (take n B)) {} s" "n \<le> logcap l"
    using ok logcap_30 [of l] by (auto simp: logok_def Let_def l_def n_def B_def)
  have W: "commit_writes dv s = (?wl @ [(lstart l, h)]) @ ?wi n @ [(lstart l, head_put 0 B h)]"
    by (simp add: commit_writes_def Let_def l_def n_def B_def h_def)
  define d1 where "d1 = (apply_writes ?wl (disk s))(lstart l := h)"
  define j where "j = k - (n + 1)"
  have "take k (commit_writes dv s) = (?wl @ [(lstart l, h)]) @ take j (?wi n @ [(lstart l, head_put 0 B h)])"
  proof -
    have T: "take k (xs @ ys) = xs @ take (k - length xs) ys" if "length xs \<le> k" for xs ys :: dwrites
      using that by simp
    have L: "length (?wl @ [(lstart l, h)]) = n + 1" by simp
    have "n + 1 \<le> k" using k(1) by (simp add: l_def n_def)
    then show ?thesis unfolding W j_def using T [of "?wl @ [(lstart l, h)]", unfolded L] by blast
  qed
  then have d: "d = apply_writes (take j (?wi n @ [(lstart l, head_put 0 B h)])) d1"
    using d by (simp add: d1_def)
  have home: "B ! t \<noteq> a" if "t < n" "a \<in> logarea l" for t a
  proof -
    have "B ! t \<in> set (take n B)" using that o(1,3) by (auto simp: in_set_conv_nth)
    then show ?thesis using o(4) that(2) by auto
  qed
  have tgt: "b = lstart l \<or> (\<exists>x<n. B ! x = b)"
    if "b \<in> fst ` set (take j (?wi n @ [(lstart l, head_put 0 B h)]))" for b
    using that by (auto dest!: in_set_takeD) blast
  have lb: "d1 (lblk l t) = blk dv s (B ! t)" if "t < n" for t
  proof -
    have "apply_writes ?wl (disk s) (lblk l t) = blk dv s (B ! t)"
    proof (rule apply_map_hit [OF that])
      fix u assume "u < n" "lblk l u = lblk l t"
      then show "blk dv s (B ! u) = blk dv s (B ! t)" using lblk_eq [of u t l] that o(3) by simp
    qed
    then show ?thesis using lblk_start [of t l] that o(3) by (simp add: d1_def)
  qed
  have old: "d1 b = disk s b" if "b \<notin> logarea l" for b
  proof -
    have "lblk l t \<noteq> b" if "t < n" for t using lblk_area(1) [of t l] that o(6) \<open>b \<notin> logarea l\<close> by auto
    then have "apply_writes ?wl (disk s) b = disk s b" by (rule apply_map_other)
    moreover have "b \<noteq> lstart l" using that by auto
    ultimately show ?thesis by (simp add: d1_def)
  qed
  have len: "length h = BSIZE" using head_put(1) [OF bstD(5) [OF o(5)], of "lhn l"] o(2,3)
    by (simp add: h_def n_def)
  show "d (lblk (log s) t) = blk dv s (lhblock (log s) ! t)" if "t < nat (lhn (log s))" for t
  proof -
    have t: "t < n" using that by (simp add: n_def l_def)
    have "(lblk l t) \<notin> fst ` set (take j (?wi n @ [(lstart l, head_put 0 B h)]))"
    proof
      assume "lblk l t \<in> fst ` set (take j (?wi n @ [(lstart l, head_put 0 B h)]))"
      then have "lblk l t = lstart l \<or> (\<exists>x<n. B ! x = lblk l t)" by (rule tgt)
      moreover have "lblk l t \<noteq> lstart l" "lblk l t \<in> logarea l"
        using lblk_start [of t l] lblk_area(1) [of t l] t o(3,6) by linarith+
      ultimately show False using home by blast
    qed
    then have "d (lblk l t) = d1 (lblk l t)" unfolding d by (rule apply_writes_other)
    then show ?thesis using lb [OF t] by (simp add: l_def B_def)
  qed
  show "d b = disk s b" if "b \<notin> logarea (log s)" "b \<notin> set (take (nat (lhn (log s))) (lhblock (log s)))" for b
  proof -
    have "B ! t \<noteq> b" if "t < n" for t
      using that o(1,3) \<open>b \<notin> set (take _ _)\<close> by (auto simp: in_set_conv_nth n_def B_def l_def)
    moreover have "b \<noteq> lstart l" using that(1) lblk_area(2) [of l] by (auto simp: l_def)
    ultimately have "b \<notin> fst ` set (take j (?wi n @ [(lstart l, head_put 0 B h)]))"
      using tgt by blast
    then have "d b = d1 b" unfolding d by (rule apply_writes_other)
    then show ?thesis using old that(1) by (simp add: l_def)
  qed
  have lenW: "length (commit_writes dv s) = n + 1 + n + 1" unfolding W by simp
  have kn: "n < k" using k(1) by (simp add: n_def l_def)
  show "if k < length (commit_writes dv s)
     then d (lstart (log s)) = head_put (lhn (log s)) (lhblock (log s)) (disk s (lstart (log s)))
     else head_n (d (lstart (log s))) = 0 \<and> (\<forall>b. b \<notin> logarea (log s) \<longrightarrow> d b = blk dv s b)"
  proof (cases "j \<le> n")
    case True
    then have "take j (?wi n @ [(lstart l, head_put 0 B h)]) = ?wi j" by (simp add: take_map)
    then have "d = apply_writes (?wi j) d1" using d by simp
    moreover have "apply_writes (?wi j) d1 (lstart l) = d1 (lstart l)"
      using home True by (intro apply_map_other) auto
    moreover have "k < length (commit_writes dv s)" using True kn by (simp add: lenW j_def)
    ultimately show ?thesis by (simp add: d1_def h_def l_def B_def)
  next
    case False
    then have "d = (apply_writes (?wi n) d1)(lstart l := head_put 0 B h)" using d by simp
    moreover have "apply_writes (?wi n) d1 b = blk dv s b" if "b \<notin> logarea l" for b
    proof (rule apply_writes_eq)
      show "x = blk dv s b" if "(b, x) \<in> set (?wi n)" for x using that by auto
      show "(\<exists>x. (b, x) \<in> set (?wi n)) \<or> d1 b = blk dv s b"
      proof (cases "b \<in> set (take n B)")
        case True
        then obtain t where "t < n" "B ! t = b" using o(1,3) by (auto simp: in_set_conv_nth)
        then have "(b, blk dv s b) \<in> set (?wi n)" by auto
        then show ?thesis by blast
      next
        case False
        then show ?thesis using old [OF that] blk_clean [OF o(5), of b] by simp
      qed
    qed
    moreover have "head_n (head_put 0 B h) = 0" using head_n_put [OF len, of 0 B] by simp
    moreover have "\<not> k < length (commit_writes dv s)" using False kn by (simp add: lenW j_def)
    ultimately show ?thesis by (auto simp: l_def)
  qed
qed

text \<open>A machine that has just booted with an empty cache on the device.\<close>

definition booted :: "uint \<Rightarrow> 'z logst_scheme \<Rightarrow> bool" where
  "booted dv r \<longleftrightarrow> bst dv {} {} r \<and> length (lhblock (log r)) = LOGSIZE"

lemma crash_recovers:
  assumes ok: "logok dv {} s" and clean: "head_n (disk s (lstart (log s))) = 0"
    and k: "k \<le> length (commit_writes dv s)" and r: "booted dv r"
    and b0: "logstart b0 = lstart (log s) \<and> sint (nlog b0) = lsize (log s)"
    and d: "disk r = apply_writes (take k (commit_writes dv s)) (disk s)"
  shows "\<exists>r'. initlog dv b0 r = Ok r' \<and> head_n (disk r' (lstart (log s))) = 0 \<and> lhn (log r') = 0 \<and>
    (\<forall>b. b \<notin> logarea (log s) \<longrightarrow> disk r' b = (if k \<le> nat (lhn (log s)) then disk s b else blk dv s b))"
proof -
  define l where "l = log s"
  define n where "n = nat (lhn l)"
  define B where "B = lhblock l"
  define r0 where "r0 = r\<lparr>log := (log r)\<lparr>lstart := logstart b0, lsize := sint (nlog b0), ldev := dv\<rparr>\<rparr>"
  have o: "length B = 30" "0 \<le> lhn l" "n \<le> 30" "lhn l \<le> 30" "set (take n B) \<inter> logarea l = {}"
    "bst dv (set (take n B)) {} s" "lhn l \<le> int (logcap l)"
    using ok logcap_30 [of l] by (auto simp: logok_def Let_def l_def n_def B_def)
  have r0: "bst dv {} {} r0" "ldev (log r0) = dv" "length (lhblock (log r0)) = 30" "lstart (log r0) = lstart l"
    "lblk (log r0) = lblk l" "logarea (log r0) = logarea l" "disk r0 = disk r" "logcap (log r0) = logcap l"
    using r b0 by (auto simp: r0_def booted_def l_def lblk_def logarea_def logcap_def fun_eq_iff)
  have init: "initlog dv b0 r = recover_from_log r0" by (simp add: initlog_def r0_def BSIZE_def)
  have empty: ?thesis if h: "head_n (disk r (lstart l)) = 0"
    and new: "\<And>b. b \<notin> logarea l \<Longrightarrow> disk r b = (if k \<le> n then disk s b else blk dv s b)"
  proof -
    obtain r' e where "recover_from_log r0 = Ok r'" "lhn (log r') = 0" "head_n e = 0"
      "disk r' = (disk r)(lstart l := e)"
      using recover_ok [of dv r0] r0 h by auto
    moreover have "b \<notin> logarea l \<Longrightarrow> b \<noteq> lstart l" for b using lblk_area(2) [of l] by auto
    ultimately show ?thesis using new init by (intro exI [of _ r']) (simp add: l_def n_def)
  qed
  show ?thesis
  proof (cases "k \<le> n \<or> k = length (commit_writes dv s)")
    case True
    show ?thesis
    proof (rule empty)
      show "head_n (disk r (lstart l)) = 0"
        using True crash_before_header(1) [OF ok _ d] crash_after_header(2) [OF ok _ k d] clean
        by (cases "k \<le> n") (auto simp: l_def n_def)
      show "disk r b = (if k \<le> n then disk s b else blk dv s b)" if "b \<notin> logarea l" for b
        using True crash_before_header(2) [OF ok _ d] crash_after_header(2) [OF ok _ k d] that
        by (cases "k \<le> n") (auto simp: l_def n_def)
    qed
  next
    case False
    then have kn: "nat (lhn (log s)) < k" "k < length (commit_writes dv s)" "\<not> k \<le> n"
      using k by (auto simp: l_def n_def)
    note A = crash_after_header [OF ok kn(1) k d]
    have h: "disk r (lstart l) = head_put (lhn l) B (disk s (lstart l))"
      using A(2) kn(2) by (simp add: l_def B_def)
    have len: "length (disk s (lstart l)) = BSIZE" by (rule bstD(5) [OF o(6)])
    have hn: "nat (head_n (disk r (lstart l))) = n" "head_n (disk r (lstart l)) \<le> int (logcap l)"
      unfolding h using head_n_put [OF len o(2,4)] o(7) by (simp_all add: n_def)
    have hb: "get32 (disk r (lstart l)) (4 + 4 * t) = B ! t" if "t < n" for t
      unfolding h using head_put(3) [OF len o(4)] that by (simp add: n_def)
    have home: "B ! t \<in> set (take n B)" if "t < n" for t
      using that o(1,3) by (auto simp: in_set_conv_nth)
    have W: "map (\<lambda>t. (get32 (disk r (lstart l)) (4 + 4 * t), disk r (lblk l t))) [0..<n] =
        map (\<lambda>t. (B ! t, blk dv s (B ! t))) [0..<n]"
      using hb A(1) by (auto simp: l_def n_def B_def)
    obtain r' e where r': "recover_from_log r0 = Ok r'" "lhn (log r') = 0" "head_n e = 0"
      "disk r' = (apply_writes (map (\<lambda>t. (B ! t, blk dv s (B ! t))) [0..<n]) (disk r))(lstart l := e)"
    proof -
      have "get32 (disk r (lstart l)) (4 + 4 * t) \<notin> logarea l" if "t < n" for t
        using hb [OF that] home [OF that] o(5) by auto
      then show ?thesis using recover_ok [of dv r0] r0 hn W that by auto
    qed
    have "disk r' b = blk dv s b" if b: "b \<notin> logarea l" for b
    proof -
      have "b \<noteq> lstart l" using b lblk_area(2) [of l] by auto
      moreover have "apply_writes (map (\<lambda>t. (B ! t, blk dv s (B ! t))) [0..<n]) (disk r) b = blk dv s b"
      proof (rule apply_writes_eq)
        show "x = blk dv s b" if "(b, x) \<in> set (map (\<lambda>t. (B ! t, blk dv s (B ! t))) [0..<n])" for x
          using that by auto
        show "(\<exists>x. (b, x) \<in> set (map (\<lambda>t. (B ! t, blk dv s (B ! t))) [0..<n])) \<or> disk r b = blk dv s b"
        proof (cases "b \<in> set (take n B)")
          case True
          then obtain t where "t < n" "B ! t = b" using o(1,3) by (auto simp: in_set_conv_nth)
          then have "(b, blk dv s b) \<in> set (map (\<lambda>t. (B ! t, blk dv s (B ! t))) [0..<n])" by auto
          then show ?thesis by blast
        next
          case False
          then have "disk r b = disk s b" using A(3) b by (simp add: l_def n_def B_def)
          then show ?thesis using blk_clean [OF o(6) False] by simp
        qed
      qed
      ultimately show ?thesis using r'(4) by simp
    qed
    then show ?thesis using r' init kn(3) by (intro exI [of _ r']) (simp add: l_def n_def)
  qed
qed

text \<open>C1. Crash atomicity of the log.  Let a transaction of fewer than \<open>NBUF\<close> blocks be committed, with an
  empty header on disk.  The commit succeeds and leaves the disk with the new contents of every
  block.  If instead the machine crashes after any number \<open>k\<close> of the commit's disk writes and
  reboots, then \<open>initlog\<close> recovers: outside the log area the disk has exactly the contents from
  before the transaction if the header had not been written (\<open>k\<close> at most the number of blocks),
  and exactly the contents after the transaction otherwise, and the log is empty.
\<close>

theorem log_crash_atomic:
  fixes b0 :: superblock
  assumes "logok dv {} s" and "0 < lhn (log s)" and "lhn (log s) < int NBUF"
    and "head_n (disk s (lstart (log s))) = 0"
    and "booted dv r" and "logstart b0 = lstart (log s) \<and> sint (nlog b0) = lsize (log s)"
    and "k \<le> length (commit_writes dv s)"
    and "disk r = apply_writes (take k (commit_writes dv s)) (disk s)"
  shows "(\<exists>s'. commit s = Ok s' \<and> dlog s' = rev (commit_writes dv s) @ dlog s \<and>
      (\<forall>b. b \<notin> logarea (log s) \<longrightarrow> disk s' b = blk dv s b)) \<and>
    (\<exists>r'. initlog dv b0 r = Ok r' \<and> head_n (disk r' (lstart (log s))) = 0 \<and> lhn (log r') = 0 \<and>
      (\<forall>b. b \<notin> logarea (log s) \<longrightarrow>
         disk r' b = (if k \<le> nat (lhn (log s)) then disk s b else blk dv s b)))"
proof
  obtain s' where s': "commit s = Ok s'" "disk s' = apply_writes (commit_writes dv s) (disk s)"
    "dlog s' = rev (commit_writes dv s) @ dlog s"
    using commit_trace [OF assms(1-3)] by blast
  have n: "nat (lhn (log s)) < length (commit_writes dv s)" by (simp add: commit_writes_def Let_def)
  have "disk s' b = blk dv s b" if "b \<notin> logarea (log s)" for b
    using crash_after_header(2) [OF assms(1) n order.refl, of "disk s'"] s'(2) that by simp
  then show "\<exists>s'. commit s = Ok s' \<and> dlog s' = rev (commit_writes dv s) @ dlog s \<and>
      (\<forall>b. b \<notin> logarea (log s) \<longrightarrow> disk s' b = blk dv s b)" using s' by blast
qed (rule crash_recovers [OF assms(1,4,7,5,6,8)])

end
