(* ===== verification/Log_Reserve.thy ===== *)
theory Log_Reserve
  imports Log_Crash
begin

text \<open>
  Log space reservation.  File system operations run concurrently between \<open>begin_op\<close> and
  \<open>end_op\<close>; the steps of \<open>log_reach\<close> interleave them in any order.  The invariant is that the blocks
  in the log and the space reserved for the operations still running never exceed \<open>LOGSIZE\<close>.  The
  theorems show that this protects an operation that keeps to its quota, provided that the log
  on disk has room for \<open>LOGSIZE\<close> blocks besides its header and that a buffer is left to commit with;
  neither holds for the limits the code is compiled with.
\<close>

section \<open>Operations on the cache and the log\<close>

lemma bst_wakeup [simp]: "bst dv P H (wakeup ch s) = bst dv P H s"
  by (simp add: bst_def) (simp add: wakeup_def)

lemma blk_wakeup [simp]: "blk dv (wakeup ch s) = blk dv s"
  by (simp add: wakeup_def blk_def fun_eq_iff split: option.split)

lemma log_wakeup [simp]: "log (wakeup ch s) = log s"
  by (simp add: wakeup_def)

lemma disk_wakeup [simp]: "disk (wakeup ch s) = disk s"
  by (simp add: wakeup_def)

text \<open>The logged blocks.\<close>

definition logged :: "'z logst_scheme \<Rightarrow> uint set" where
  "logged s = set (take (nat (lhn (log s))) (lhblock (log s)))"

lemma logokD:
  assumes "logok dv H s"
  shows "ldev (log s) = dv" "0 \<le> lhn (log s)" "lhn (log s) \<le> int (logcap (log s))" "length (lhblock (log s)) = 30"
    "logged s \<inter> logarea (log s) = {}" "bst dv (logged s) H s"
    "distinct (take (nat (lhn (log s))) (lhblock (log s)))" "card (logged s) = nat (lhn (log s))"
proof -
  show *: "ldev (log s) = dv" "0 \<le> lhn (log s)" "lhn (log s) \<le> int (logcap (log s))" "length (lhblock (log s)) = 30"
    "logged s \<inter> logarea (log s) = {}" "bst dv (logged s) H s"
    "distinct (take (nat (lhn (log s))) (lhblock (log s)))"
    using assms by (auto simp: logok_def Let_def logged_def)
  show "card (logged s) = nat (lhn (log s))"
    using distinct_card [OF *(7)] *(2-4) logcap_30 [of "log s"] by (simp add: logged_def)
qed

text \<open>The code that writes one block in a transaction: read it, store new contents, log it.\<close>

definition write_block :: "uint \<Rightarrow> uint \<Rightarrow> byte list \<Rightarrow> 'z logst_scheme \<Rightarrow> 'z logst_scheme res" where
  "write_block dv bn d s =
     bindR (bread dv bn s) (\<lambda>(b, s).
     bindR (log_write b (set_data b d s)) (\<lambda>s. brelse b s))"

lemma write_block_ok:
  assumes ok: "logok dv {} s" and room: "lhn (log s) < int (logcap (log s))"
    and out: "1 \<le> outstanding (log s)" and area: "bn \<notin> logarea (log s)" and d: "length d = BSIZE"
  shows "\<exists>s'. write_block dv bn d s = Ok s' \<and> logok dv {} s' \<and> blk dv s' = (blk dv s)(bn := d) \<and>
    disk s' = disk s \<and> logged s' = insert bn (logged s) \<and>
    lhn (log s') = lhn (log s) + (if bn \<in> logged s then 0 else 1) \<and>
    log s' = (log s)\<lparr>lhn := lhn (log s'), lhblock := lhblock (log s')\<rparr>"
proof -
  note o = logokD [OF ok]
  have c: "card (logged s \<union> {}) < NBUF" using o(8) room logcap_30 [of "log s"] by (simp add: NBUF_30)
  obtain b s1 where 1: "bread dv bn s = Ok (b, s1)" "lstep [] s s1" "bst dv (logged s) {bn} s1"
    "isbuf dv (bufs s1) bn b" "blk dv s1 = blk dv s"
    using bread_step [OF o(6), of bn] c by auto
  let ?s2 = "set_data b d s1"
  have 2: "bst dv (logged s) {bn} ?s2" "isbuf dv (bufs ?s2) = isbuf dv (bufs s1)" "blk dv ?s2 = (blk dv s)(bn := d)"
    using setdata_ok [OF 1(3) _ 1(4) d refl] 1(5) by (auto simp: set_data_def)
  have l: "log ?s2 = log s" "disk ?s2 = disk s"
    using lstep_log [OF 1(2)] lstep_disk [OF 1(2)] by (simp_all add: set_data_def)
  have "logok dv {bn} ?s2"
    using ok 2(1) unfolding logok_def Let_def l(1) logged_def by simp
  then obtain s3 where 3: "log_write b ?s2 = Ok s3" "logok dv {bn} s3" "blk dv s3 = (blk dv s)(bn := d)"
    "disk s3 = disk s" "isbuf dv (bufs s3) bn b" "logged s3 = insert bn (logged s)"
    "lhn (log s3) = lhn (log s) + (if bn \<in> logged s then 0 else 1)"
    "log s3 = (log s)\<lparr>lhn := lhn (log s3), lhblock := lhblock (log s3)\<rparr>"
    using log_write_ok [of dv "{bn}" ?s2 bn b] 1(4) 2 l room out area unfolding logged_def by auto
  obtain s4 where 4: "brelse b s3 = Ok s4" "lstep [] s3 s4" "bst dv (logged s3) {} s4" "blk dv s4 = blk dv s3"
    using brelse_step [OF logokD(6) [OF 3(2)], of bn b] 3(5,6) by auto
  have l4: "log s4 = log s3" using lstep_log [OF 4(2)] .
  have "logok dv {} s4"
    using 3(2) 4(3) unfolding logok_def Let_def l4 logged_def by simp
  then show ?thesis
    using 1(1) 3 4 l4 lstep_disk [OF 4(2)] by (intro exI [of _ s4]) (simp add: write_block_def logged_def)
qed

lemma commit_ok:
  assumes ok: "logok dv {} s" and n: "lhn (log s) < int NBUF"
  shows "\<exists>s'. commit s = Ok s' \<and> logok dv {} s' \<and> log s' = (log s)\<lparr>lhn := 0\<rparr> \<and>
    (\<forall>b. b \<notin> logarea (log s) \<longrightarrow> blk dv s' b = blk dv s b \<and> disk s' b = blk dv s b)"
proof (cases "lhn (log s) = 0")
  case True
  then have "logged s = {}" by (simp add: logged_def)
  then have "disk s b = blk dv s b" for b using blk_clean [OF logokD(6) [OF ok], of b] by simp
  then show ?thesis using True ok by (intro exI [of _ s]) (simp add: commit_def)
next
  case False
  then have p: "0 < lhn (log s)" using logokD(2) [OF ok] by simp
  obtain s' where s': "commit s = Ok s'" "disk s' = apply_writes (commit_writes dv s) (disk s)"
    "bst dv {} {} s'" "log s' = (log s)\<lparr>lhn := 0\<rparr>"
    using commit_trace [OF ok p n] by blast
  have len: "nat (lhn (log s)) < length (commit_writes dv s)" by (simp add: commit_writes_def Let_def)
  have d: "disk s' b = blk dv s b" if "b \<notin> logarea (log s)" for b
    using crash_after_header(2) [OF ok len order.refl, of "disk s'"] s'(2) that by simp
  have "logok dv {} s'" using s'(3,4) logokD [OF ok] by (simp add: logok_def)
  moreover have "blk dv s' b = disk s' b" for b using blk_clean [OF s'(3)] by simp
  ultimately show ?thesis using s' d by (intro exI [of _ s']) simp
qed

section \<open>Interleaved operations\<close>

text \<open>
  \<open>us\<close> has an entry for each operation between \<open>begin_op\<close> and \<open>end_op\<close>: the number of blocks it has
  written so far.  An operation may write at most \<open>MAXOPBLOCKS\<close> blocks, none of them in the log.
\<close>

inductive log_reach :: "uint \<Rightarrow> 'z logst_scheme \<Rightarrow> nat list \<Rightarrow> bool" for dv where
  init: "logok dv {} s \<Longrightarrow> lhn (log s) = 0 \<Longrightarrow> outstanding (log s) = 0 \<Longrightarrow> \<not> committing (log s) \<Longrightarrow>
    log_reach dv s []"
| begin_step: "log_reach dv s us \<Longrightarrow> begin_op s = Ok s' \<Longrightarrow> log_reach dv s' (0 # us)"
| write_step: "log_reach dv s us \<Longrightarrow> i < length us \<Longrightarrow> us ! i < MAXOPBLOCKS \<Longrightarrow> bn \<notin> logarea (log s) \<Longrightarrow>
    length d = BSIZE \<Longrightarrow> write_block dv bn d s = Ok s' \<Longrightarrow> log_reach dv s' (us[i := Suc (us ! i)])"
| end_step: "log_reach dv s (us @ u # us') \<Longrightarrow> end_op s = Ok s' \<Longrightarrow> log_reach dv s' (us @ us')"

text \<open>The space that the running operations may still use.\<close>

definition reserved :: "nat list \<Rightarrow> nat" where
  "reserved us = sum_list (map (\<lambda>u. MAXOPBLOCKS - u) us)"

lemma reserved_simps [simp]:
  "reserved [] = 0" "reserved (u # us) = MAXOPBLOCKS - u + reserved us"
  "reserved (us @ us') = reserved us + reserved us'"
  by (simp_all add: reserved_def)

lemma reserved_write:
  "i < length us \<Longrightarrow> us ! i < MAXOPBLOCKS \<Longrightarrow> Suc (reserved (us[i := Suc (us ! i)])) = reserved us"
proof (induction us arbitrary: i)
  case (Cons u us)
  then show ?case by (cases i) auto
qed simp

definition log_inv :: "uint \<Rightarrow> 'z logst_scheme \<Rightarrow> nat list \<Rightarrow> bool" where
  "log_inv dv s us \<longleftrightarrow> logok dv {} s \<and> \<not> committing (log s) \<and> outstanding (log s) = int (length us) \<and>
     (us = [] \<longrightarrow> lhn (log s) = 0) \<and> (\<forall>u\<in>set us. u \<le> MAXOPBLOCKS) \<and>
     lhn (log s) + int (reserved us) \<le> int LOGSIZE"

lemma logok_outstanding:
  "logok dv H (s\<lparr>log := (log s)\<lparr>outstanding := k\<rparr>\<rparr>) = logok dv H s"
  "logok dv H (s\<lparr>log := (log s)\<lparr>outstanding := k, committing := c\<rparr>\<rparr>) = logok dv H s"
  by (simp_all add: logok_def Let_def)

lemma logok_wakeup: "logok dv H (wakeup ch s) = logok dv H s"
  by (simp add: logok_def Let_def)

lemma end_op_last:
  assumes ok: "logok dv {} s" and out: "outstanding (log s) = 1" "\<not> committing (log s)"
    and n: "lhn (log s) < int NBUF"
  shows "\<exists>s'. end_op s = Ok s' \<and> logok dv {} s' \<and> log s' = (log s)\<lparr>lhn := 0, outstanding := 0\<rparr> \<and>
    (\<forall>b. b \<notin> logarea (log s) \<longrightarrow> blk dv s' b = blk dv s b \<and> disk s' b = blk dv s b)"
proof -
  let ?s1 = "s\<lparr>log := (log s)\<lparr>outstanding := 0, committing := True\<rparr>\<rparr>"
  have "logok dv {} ?s1" using ok by (simp add: logok_outstanding)
  then obtain s2 where 2: "commit ?s1 = Ok s2" "logok dv {} s2" "log s2 = (log ?s1)\<lparr>lhn := 0\<rparr>"
    "\<forall>b. b \<notin> logarea (log s) \<longrightarrow> blk dv s2 b = blk dv s b \<and> disk s2 b = blk dv s b"
    using commit_ok [of dv ?s1] n by auto
  let ?s3 = "s2\<lparr>log := (log s2)\<lparr>committing := False\<rparr>\<rparr>"
  have "logok dv {} ?s3" using 2(2) by (simp add: logok_def Let_def)
  moreover have "log ?s3 = (log s)\<lparr>lhn := 0, outstanding := 0\<rparr>" using 2(3) out by simp
  moreover have "end_op s = Ok (wakeup Chan_log ?s3)" using out 2(1) by (simp add: end_op_def Let_def)
  ultimately show ?thesis using 2(4)
    by (intro exI [of _ "wakeup Chan_log ?s3"]) (simp add: logok_wakeup)
qed

lemma end_op_more:
  assumes "outstanding (log s) > 1" "\<not> committing (log s)"
  shows "end_op s = Ok (wakeup Chan_log (s\<lparr>log := (log s)\<lparr>outstanding := outstanding (log s) - 1\<rparr>\<rparr>))"
  using assms by (simp add: end_op_def Let_def)

lemma end_op_panics:
  assumes "outstanding (log s) = 1" "\<not> committing (log s)" "commit (s\<lparr>log := (log s)\<lparr>outstanding := 0, committing := True\<rparr>\<rparr>) = Panic m"
  shows "end_op s = Panic m"
  using assms by (simp add: end_op_def Let_def)

section \<open>A cache with every buffer pinned\<close>

lemma all_pinned:
  assumes st: "bst dv P {} s" and c: "card P = NBUF" and i: "i < NBUF"
  shows "dev (bufs s ! i) = dv \<and> blockno (bufs s ! i) \<in> P"
proof -
  have fin: "finite P" using c by (metis NBUF_30 card.infinite zero_neq_numeral)
  define f where "f bn = (SOME i. isbuf dv (bufs s) bn i)" for bn
  have f: "isbuf dv (bufs s) bn (f bn)" if "bn \<in> P" for bn
    unfolding f_def using bstD(4) [OF st, of bn] that by (metis UnI1 someI_ex)
  have "inj_on f P"
  proof (rule inj_onI)
    fix x y assume "x \<in> P" "y \<in> P" "f x = f y"
    then show "x = y" using f [of x] f [of y] by (simp add: isbuf_def)
  qed
  then have "card (f ` P) = card {..<NBUF}" using c by (simp add: card_image)
  moreover have "f ` P \<subseteq> {..<NBUF}" using f by (auto simp: isbuf_def)
  ultimately have "f ` P = {..<NBUF}" by (intro card_subset_eq) auto
  then obtain bn where "bn \<in> P" "i = f bn" using i by blast
  then show ?thesis using f [of bn] by (simp add: isbuf_def)
qed

lemma bread_no_buffers:
  assumes st: "bst dv P {} s" and c: "card P = NBUF" and bn: "bn \<notin> P"
  shows "bread dv bn s = Panic ''bget: no buffers''"
proof -
  obtain pd where pd: "mypid s = Ok pd" using bst_pid [OF st] by blast
  obtain xs where r: "ring (bufs s) xs" using st by (auto simp: bst_def)
  then have xs: "length xs = NBUF" "NBUF \<notin> set xs" "set xs = {..<NBUF}" "lseg (bufs s) NBUF xs NBUF"
    using distinct_card [of xs] by (auto simp: ring_def)
  have no: "\<not> isbuf dv (bufs s) bn i" for i using all_pinned [OF st c, of i] bn by (auto simp: isbuf_def)
  then have 1: "scan NBUF nxt (\<lambda>x. dev x = dv \<and> blockno x = bn) (bufs s) (nxt (bufs s ! NBUF)) = Ok None"
    using bget_scan [OF st, of bn] by (auto split: option.splits)
  have "refcnt (bufs s ! i) \<noteq> 0" if "i < NBUF" for i
    using all_pinned [OF st c that] bufok_refcnt [OF bst_bufok [OF st pd that]] by auto
  then have "find (\<lambda>i. refcnt (bufs s ! i) = 0) (rev xs) = None"
    using xs(3) unfolding find_None_iff by auto
  then have 2: "scan NBUF prev (\<lambda>x. refcnt x = 0) (bufs s) (prev (bufs s ! NBUF)) = Ok None"
    using scan_prev [OF xs(4,2), of NBUF] xs(1) by simp
  show ?thesis using 1 2 by (simp add: bread_def bget_def)
qed

lemma commit_full:
  assumes ok: "logok dv {} s" and n: "lhn (log s) = int NBUF"
  shows "commit s = Panic ''bget: no buffers''"
proof -
  note o = logokD [OF ok]
  have c: "card (logged s) = NBUF" using o(8) n by simp
  have "lblk (log s) 0 \<in> logarea (log s)" using o(3) n by (simp add: NBUF_30)
  then have "bread dv (lblk (log s) 0) s = Panic ''bget: no buffers''"
    using o(5) by (intro bread_no_buffers [OF o(6) c]) auto
  then have "log_block 0 s = Panic ''bget: no buffers''"
    using o(1) by (simp add: log_block_def lblk_def)
  moreover have "[0..<nat (lhn (log s))] = 0 # [1..<30]" using n by (simp add: NBUF_30 upt_rec)
  ultimately show ?thesis using n by (simp add: commit_def write_log_def NBUF_30)
qed

lemma end_op_full:
  assumes "logok dv {} s" "outstanding (log s) = 1" "\<not> committing (log s)" "lhn (log s) = int NBUF"
  shows "end_op s = Panic ''bget: no buffers''"
proof -
  have "commit (s\<lparr>log := (log s)\<lparr>outstanding := 0, committing := True\<rparr>\<rparr>) = Panic ''bget: no buffers''"
    using assms by (intro commit_full [of dv]) (simp_all add: logok_outstanding)
  then show ?thesis by (rule end_op_panics [OF assms(2,3)])
qed

section \<open>The reservation invariant\<close>

lemma log_inv_begin: "log_inv dv s us \<Longrightarrow> begin_op s = Ok s' \<Longrightarrow> log_inv dv s' (0 # us)"
proof -
  assume inv: "log_inv dv s us" and b: "begin_op s = Ok s'"
  have s': "s' = s\<lparr>log := (log s)\<lparr>outstanding := outstanding (log s) + 1\<rparr>\<rparr>"
    and room: "lhn (log s) + (outstanding (log s) + 1) * int MAXOPBLOCKS \<le> int LOGSIZE"
    using b by (auto simp: begin_op_def split: if_splits)
  have "reserved us \<le> length us * MAXOPBLOCKS" by (induction us) auto
  then have "int (reserved us) \<le> outstanding (log s) * int MAXOPBLOCKS"
    using inv unfolding log_inv_def by (metis of_nat_le_iff of_nat_mult)
  then show ?thesis
    using inv room unfolding log_inv_def s' by (auto simp: logok_outstanding algebra_simps)
qed

lemma log_inv_room:
  assumes "log_inv dv s us" "i < length us" "us ! i < MAXOPBLOCKS"
  shows "lhn (log s) < 30" "1 \<le> outstanding (log s)"
proof -
  have "0 < reserved us" using reserved_write [OF assms(2,3)] by linarith
  then show "lhn (log s) < 30" "1 \<le> outstanding (log s)"
    using assms(1,2) by (auto simp: log_inv_def)
qed

lemma log_inv_write:
  assumes inv: "log_inv dv s us" and i: "i < length us" "us ! i < MAXOPBLOCKS"
    and bn: "bn \<notin> logarea (log s)" "length d = BSIZE" and cap: "lhn (log s) < int (logcap (log s))"
  shows "\<exists>s'. write_block dv bn d s = Ok s' \<and> log_inv dv s' (us[i := Suc (us ! i)]) \<and>
    blk dv s' = (blk dv s)(bn := d) \<and> disk s' = disk s \<and> lsize (log s') = lsize (log s)"
proof -
  have ok: "logok dv {} s" using inv by (simp add: log_inv_def)
  obtain s' where s': "write_block dv bn d s = Ok s'" "logok dv {} s'" "blk dv s' = (blk dv s)(bn := d)"
    "disk s' = disk s" "lhn (log s') = lhn (log s) + (if bn \<in> logged s then 0 else 1)"
    "log s' = (log s)\<lparr>lhn := lhn (log s'), lhblock := lhblock (log s')\<rparr>"
    using write_block_ok [OF ok cap _ bn] log_inv_room [OF inv i] by blast
  have same: "committing (log s') = committing (log s)" "outstanding (log s') = outstanding (log s)"
    "lsize (log s') = lsize (log s)"
    by (subst s'(6), simp)+
  have "\<forall>u\<in>set (us[i := Suc (us ! i)]). u \<le> MAXOPBLOCKS"
    using inv i set_update_subset_insert [of us i "Suc (us ! i)"] by (auto simp: log_inv_def)
  then have "log_inv dv s' (us[i := Suc (us ! i)])"
    using inv i s'(2,5) reserved_write [OF i] same by (auto simp: log_inv_def split: if_splits)
  then show ?thesis using s' same by blast
qed

lemma log_inv_end:
  assumes inv: "log_inv dv s (us @ u # us')"
  shows "(\<exists>s'. end_op s = Ok s' \<and> log_inv dv s' (us @ us') \<and> lsize (log s') = lsize (log s)) \<or>
    us @ us' = [] \<and> lhn (log s) = int NBUF \<and> end_op s = Panic ''bget: no buffers''"
proof (cases "us @ us' = []")
  case True
  then have e: "us = []" "us' = []" by auto
  have i: "logok dv {} s" "outstanding (log s) = 1" "\<not> committing (log s)" "lhn (log s) \<le> 30"
    using inv e by (auto simp: log_inv_def)
  show ?thesis
  proof (cases "lhn (log s) = int NBUF")
    case True
    then show ?thesis using end_op_full [OF i(1-3)] e by simp
  next
    case False
    then have "lhn (log s) < int NBUF" using i(4) by (simp add: NBUF_30)
    then obtain s' where "end_op s = Ok s'" "logok dv {} s'" "log s' = (log s)\<lparr>lhn := 0, outstanding := 0\<rparr>"
      using end_op_last [OF i(1-3)] by blast
    then show ?thesis using e i by (intro disjI1 exI [of _ s']) (simp add: log_inv_def)
  qed
next
  case False
  then have "outstanding (log s) > 1" using inv by (auto simp: log_inv_def neq_Nil_conv)
  moreover have "\<not> committing (log s)" using inv by (simp add: log_inv_def)
  ultimately show ?thesis using inv False end_op_more [of s]
    by (intro disjI1 exI) (auto simp: log_inv_def logok_outstanding logok_wakeup)
qed

lemma write_block_panics:
  assumes ok: "logok dv {} s" and n: "lhn (log s) < 30" "lsize (log s) - 1 \<le> lhn (log s)"
  shows "write_block dv bn d s = Panic ''too big a transaction''"
proof -
  note o = logokD [OF ok]
  have c: "card (logged s \<union> {}) < NBUF" using o(8) n by (simp add: NBUF_30)
  obtain b s1 where 1: "bread dv bn s = Ok (b, s1)" "lstep [] s s1"
    using bread_step [OF o(6), of bn] c by auto
  then show ?thesis
    using n lstep_log [OF 1(2)] by (simp add: write_block_def log_write_def set_data_def)
qed

lemma log_reach_inv: "log_reach dv s us \<Longrightarrow> log_inv dv s us"
proof (induction rule: log_reach.induct)
  case (init s)
  then show ?case by (simp add: log_inv_def)
next
  case (begin_step s us s')
  then show ?case by (blast intro: log_inv_begin)
next
  case (write_step s us i bn d s')
  have ok: "logok dv {} s" using write_step by (simp add: log_inv_def)
  have "lhn (log s) < 30" using log_inv_room write_step by blast
  moreover have "\<not> lsize (log s) - 1 \<le> lhn (log s)"
    using write_block_panics [OF ok, of bn d] write_step calculation by auto
  ultimately have "lhn (log s) < int (logcap (log s))" by (simp add: logcap_def)
  then show ?case using log_inv_write write_step by (metis res.inject)
next
  case (end_step s us u us' s')
  then show ?case using log_inv_end [of dv s us u us'] by auto
qed

text \<open>C7. Log reservation.  In every interleaving of operations that each write at most \<open>MAXOPBLOCKS\<close>
  blocks, the blocks in the log and the space still reserved never exceed \<open>LOGSIZE\<close>.  If the log on
  disk has more than \<open>LOGSIZE\<close> blocks, an operation within its quota can always write another block:
  \<open>log_write\<close> does not panic, the block has the new contents for every reader, and nothing reaches
  the disk.  The end of an operation succeeds unless the log holds as many blocks as there are
  buffers.
\<close>

theorem log_reservation:
  assumes "log_reach dv s us" and "i < length us" and "us ! i < MAXOPBLOCKS"
    and "bn \<notin> logarea (log s)" and "length d = BSIZE" and "int LOGSIZE < lsize (log s)"
  shows "lhn (log s) + int (reserved us) \<le> int LOGSIZE \<and>
    (\<exists>s'. write_block dv bn d s = Ok s' \<and> blk dv s' = (blk dv s)(bn := d) \<and> disk s' = disk s) \<and>
    (lhn (log s) < int NBUF \<longrightarrow> (\<exists>s'. end_op s = Ok s'))"
proof -
  have inv: "log_inv dv s us" using assms(1) by (rule log_reach_inv)
  have "lhn (log s) < int (logcap (log s))"
    using log_inv_room [OF inv assms(2,3)] assms(6) by (simp add: logcap_def)
  then have w: "\<exists>s'. write_block dv bn d s = Ok s' \<and> blk dv s' = (blk dv s)(bn := d) \<and> disk s' = disk s"
    using log_inv_write [OF inv assms(2-5)] by blast
  obtain u us' where "us = u # us'" using assms(2) by (cases us) auto
  then have "log_inv dv s ([] @ u # us')" using inv by simp
  then have "lhn (log s) < int NBUF \<longrightarrow> (\<exists>s'. end_op s = Ok s')" using log_inv_end by fastforce
  then show ?thesis using w inv by (simp add: log_inv_def)
qed

section \<open>The limits the code is compiled with\<close>

text \<open>
  A freshly booted machine with the disk \<open>d\<close>, whose log starts at block 2 and has \<open>z\<close> blocks.
\<close>

definition log_demo :: "int \<Rightarrow> (uint \<Rightarrow> byte list) \<Rightarrow> logst" where
  "log_demo z d = binit \<lparr>phys = (\<lambda>_. 0), kend = 0, freelist = 0, proc = [some_proc], nextpid = 2,
     initproc = Some 0, cpu_proc = Some 0, tramp = 0, bufs = replicate (Suc NBUF) blank_buf,
     disk = d, dlog = [],
     log = \<lparr>lstart = 2, lsize = z, outstanding = 0, committing = False, ldev = 1, lhn = 0,
       lhblock = replicate LOGSIZE 0\<rparr>\<rparr>"

definition zeros :: "uint \<Rightarrow> byte list" where
  "zeros b = replicate BSIZE 0"

lemma log_demo_log: "log (log_demo z d) = \<lparr>lstart = 2, lsize = z, outstanding = 0, committing = False,
    ldev = 1, lhn = 0, lhblock = replicate LOGSIZE 0\<rparr>"
  by (simp add: log_demo_def binit_def Let_def)

lemma log_demo_ok:
  assumes "\<And>b. length (d b) = BSIZE"
  shows "logok 1 {} (log_demo z d)" "booted 1 (log_demo z d)" "disk (log_demo z d) = d"
proof -
  have "bst 1 {} {} (log_demo z d) \<and> blk 1 (log_demo z d) = d"
    unfolding log_demo_def
    by (rule binit_bst [where pd = 1, THEN rev_mp])
      (auto simp: blank_def blank_buf_def mypid_def myproc_def some_proc_def assms)
  then show "logok 1 {} (log_demo z d)" "booted 1 (log_demo z d)"
    by (simp_all add: logok_def booted_def log_demo_log)
  show "disk (log_demo z d) = d" by (simp add: log_demo_def binit_def Let_def)
qed

text \<open>Three operations have begun, and together have written \<open>k\<close> blocks, ten each.\<close>

definition quota :: "nat \<Rightarrow> nat list" where
  "quota k = [min 10 k, min 10 (k - 10), min 10 (k - 20)]"

lemma quota_step:
  "k < 30 \<Longrightarrow> k div 10 < length (quota k) \<and> quota k ! (k div 10) < MAXOPBLOCKS \<and>
    (quota k)[k div 10 := Suc (quota k ! (k div 10))] = quota (Suc k)"
proof -
  assume "k < 30"
  then consider "k < 10" | "10 \<le> k" "k < 20" | "20 \<le> k" "k < 30" by linarith
  then have "k div 10 = 0 \<and> k < 10 \<or> k div 10 = 1 \<and> 10 \<le> k \<and> k < 20 \<or> k div 10 = 2 \<and> 20 \<le> k \<and> k < 30"
    by cases (auto intro: div_nat_eqI)
  then show ?thesis by (elim disjE) (auto simp: quota_def MAXOPBLOCKS_def numeral_2_eq_2)
qed

definition nb :: "nat \<Rightarrow> uint" where
  "nb k = 100 + of_nat k"

lemma unat_nb: "k < 100 \<Longrightarrow> unat (nb k) = 100 + k"
  by (simp add: nb_def unat_word_ariths unat_of_nat)

lemma nb_new: "k < 100 \<Longrightarrow> nb k \<notin> nb ` {..<k}"
proof
  assume k: "k < 100" "nb k \<in> nb ` {..<k}"
  then obtain j where "j < k" "nb k = nb j" by auto
  then show False using unat_nb [of k] unat_nb [of j] k by simp
qed

lemma nb_area:
  assumes "lstart l = 2" "k < 100"
  shows "nb k \<notin> logarea l"
proof
  assume "nb k \<in> logarea l"
  then have "nb k = 2 \<or> (\<exists>j<logcap l. nb k = lblk l j)"
    using assms(1) by (auto simp: logarea_def)
  then consider "nb k = 2" | j where "j < 30" "nb k = lblk l j"
    using logcap_30 [of l] by (meson less_le_trans)
  then show False
  proof cases
    case 1
    then have "unat (nb k) = 2" by simp
    then show False using unat_nb [OF assms(2)] by simp
  next
    case (2 j)
    have "unat (lblk l j) = j + 3"
      using assms(1) 2(1) by (simp add: lblk_def unat_word_ariths unat_of_nat)
    then show False using unat_nb [OF assms(2)] 2 by simp
  qed
qed

lemma reach_begin:
  fixes s :: logst
  assumes "log_reach 1 s us" "lhn (log s) = 0" "length us < 3"
  shows "\<exists>s' :: logst. log_reach 1 s' (0 # us) \<and> lhn (log s') = 0 \<and> lstart (log s') = lstart (log s) \<and>
    lsize (log s') = lsize (log s) \<and> disk s' = disk s"
proof -
  let ?s = "s\<lparr>log := (log s)\<lparr>outstanding := outstanding (log s) + 1\<rparr>\<rparr>"
  have "\<not> committing (log s)" "outstanding (log s) = int (length us)"
    using log_reach_inv [OF assms(1)] by (auto simp: log_inv_def)
  then have "begin_op s = Ok ?s" using assms(2,3) by (simp add: begin_op_def MAXOPBLOCKS_def)
  then show ?thesis using log_reach.begin_step [OF assms(1)] assms(2) by (intro exI [of _ ?s]) simp
qed

lemma reach_three:
  "\<exists>s :: logst. log_reach 1 s (quota 0) \<and> lhn (log s) = 0 \<and> lstart (log s) = 2 \<and> lsize (log s) = z \<and>
    disk s = zeros"
proof -
  have z: "length (zeros b) = BSIZE" for b by (simp add: zeros_def)
  have 0: "log_reach 1 (log_demo z zeros) []"
    by (rule log_reach.init [OF log_demo_ok(1) [OF z]]) (simp_all add: log_demo_log)
  obtain s1 :: logst where 1: "log_reach 1 s1 [0]" "lhn (log s1) = 0" "lstart (log s1) = 2" "lsize (log s1) = z" "disk s1 = zeros"
    using reach_begin [OF 0] log_demo_ok(3) [OF z] by (auto simp: log_demo_log)
  obtain s2 :: logst where 2: "log_reach 1 s2 [0, 0]" "lhn (log s2) = 0" "lstart (log s2) = 2" "lsize (log s2) = z" "disk s2 = zeros"
    using reach_begin [OF 1(1,2)] 1 by auto
  obtain s3 :: logst where "log_reach 1 s3 [0, 0, 0]" "lhn (log s3) = 0" "lstart (log s3) = 2" "lsize (log s3) = z"
    "disk s3 = zeros"
    using reach_begin [OF 2(1,2)] 2 by auto
  then show ?thesis by (intro exI [of _ s3]) (simp add: quota_def)
qed

lemma reach_writes:
  "k \<le> 30 \<Longrightarrow> int k \<le> z - 1 \<Longrightarrow>
   \<exists>s :: logst. log_reach 1 s (quota k) \<and> lhn (log s) = int k \<and> logged s = nb ` {..<k} \<and>
     lstart (log s) = 2 \<and> lsize (log s) = z \<and> disk s = zeros"
proof (induction k)
  case 0
  obtain s :: logst where "log_reach 1 s (quota 0)" "lhn (log s) = 0" "lstart (log s) = 2" "lsize (log s) = z"
    "disk s = zeros"
    using reach_three [of z] by blast
  then show ?case by (intro exI [of _ s]) (simp add: logged_def)
next
  case (Suc k)
  then obtain s :: logst where s: "log_reach 1 s (quota k)" "lhn (log s) = int k" "logged s = nb ` {..<k}"
    "lstart (log s) = 2" "lsize (log s) = z" "disk s = zeros" by auto
  have ok: "logok 1 {} s" "1 \<le> outstanding (log s)"
    using log_reach_inv [OF s(1)] by (auto simp: log_inv_def quota_def)
  have cap: "lhn (log s) < int (logcap (log s))" using s(2,5) Suc.prems by (simp add: logcap_def)
  have new: "nb k \<notin> logarea (log s)" "nb k \<notin> logged s"
    using nb_area [OF s(4)] nb_new s(3) Suc.prems by simp_all
  obtain s' where s': "write_block 1 (nb k) (replicate BSIZE 0) s = Ok s'" "logged s' = insert (nb k) (logged s)"
    "lhn (log s') = int k + 1" "log s' = (log s)\<lparr>lhn := lhn (log s'), lhblock := lhblock (log s')\<rparr>"
    "disk s' = zeros"
    using write_block_ok [OF ok(1) cap ok(2) new(1), of "replicate BSIZE 0"] new(2) s(2,6) by auto
  have "log_reach 1 s' ((quota k)[k div 10 := Suc (quota k ! (k div 10))])"
    using quota_step [of k] Suc.prems new s'(1) by (intro log_reach.write_step [OF s(1)]) auto
  moreover have "lstart (log s') = 2" "lsize (log s') = z"
    using s(4,5) by (subst s'(4), simp)+
  moreover have "logged s' = nb ` {..<Suc k}" using s'(2) s(3) by (simp add: lessThan_Suc)
  ultimately show ?case using quota_step [of k] Suc.prems s'(3,5) by (intro exI [of _ s']) simp
qed

lemma zeros_head: "head_n (zeros b) = 0"
proof -
  have "take 4 (drop 0 (zeros b)) = replicate 4 0" by (simp add: zeros_def BSIZE_def)
  then show ?thesis by (simp add: head_n_def get32_def numeral_eq_Suc)
qed

text \<open>A crash just after the header write of a transaction of one block.\<close>

theorem log_crash_atomic_witness:
  "\<exists>(s :: logst) r'. lhn (log s) = 1 \<and>
     initlog 1 \<lparr>magic = 0, fssize = 1000, nblocks = 900, ninodes = 200, nlog = 30, logstart = 2,
       inodestart = 32, bmapstart = 45\<rparr>
       (log_demo 30 (apply_writes (take 2 (commit_writes 1 s)) (disk s))) = Ok r' \<and>
     disk r' 100 = blk 1 s 100"
proof -
  obtain s :: logst where s: "log_reach 1 s (quota 1)" "lhn (log s) = 1" "lstart (log s) = 2" "lsize (log s) = 30"
    "disk s = zeros"
    using reach_writes [of 1 30] by auto
  have ok: "logok 1 {} s" using log_reach_inv [OF s(1)] by (simp add: log_inv_def)
  have z: "head_n (disk s (lstart (log s))) = 0"
    using s(5) by (simp add: zeros_head)
  let ?d = "apply_writes (take 2 (commit_writes 1 s)) (disk s)"
  have len: "length (?d b) = BSIZE" for b
  proof -
    have "length (disk s b) = BSIZE" for b using s(5) by (simp add: zeros_def)
    moreover have "length (blk 1 s b) = BSIZE" for b by (rule blk_length [OF logokD(6) [OF ok]])
    ultimately show ?thesis using s(2) head_put(1) [of "disk s 2" 1]
      by (simp add: commit_writes_def Let_def s(3))
  qed
  have boot: "booted 1 (log_demo 30 ?d)" "disk (log_demo 30 ?d) = ?d"
    by (rule log_demo_ok(2), rule len, rule log_demo_ok(3), rule len)
  have area: "100 \<notin> logarea (log s)" using nb_area [OF s(3), of 0] by (simp add: nb_def)
  obtain r' where "initlog 1 \<lparr>magic = 0, fssize = 1000, nblocks = 900, ninodes = 200, nlog = 30, logstart = 2,
       inodestart = 32, bmapstart = 45\<rparr> (log_demo 30 ?d) = Ok r'"
    "\<forall>b. b \<notin> logarea (log s) \<longrightarrow> disk r' b = (if 2 \<le> nat (lhn (log s)) then disk s b else blk 1 s b)"
    using log_crash_atomic [OF ok _ _ z boot(1), of "\<lparr>magic = 0, fssize = 1000, nblocks = 900,
      ninodes = 200, nlog = 30, logstart = 2, inodestart = 32, bmapstart = 45\<rparr>" 2] s boot(2)
    by (auto simp: NBUF_30 commit_writes_def Let_def)
  then show ?thesis using s(2) area by (intro exI [of _ s] exI [of _ r']) simp
qed

theorem log_reservation_witness:
  "\<exists>(s :: logst) s'. write_block 1 105 (replicate BSIZE 1) s = Ok s' \<and> lhn (log s) = 5 \<and>
     blk 1 s' 105 = replicate BSIZE (1 :: byte)"
proof -
  obtain s :: logst where s: "log_reach 1 s (quota 5)" "lhn (log s) = 5" "lstart (log s) = 2" "lsize (log s) = 31"
    using reach_writes [of 5 31] by auto
  have "105 \<notin> logarea (log s)" using nb_area [OF s(3), of 5] by (simp add: nb_def)
  then obtain s' where "write_block 1 105 (replicate BSIZE 1) s = Ok s'"
    "blk 1 s' = (blk 1 s)(105 := replicate BSIZE 1)"
    using log_reservation [OF s(1), of 0 105 "replicate BSIZE 1"] s(4) by (auto simp: quota_def MAXOPBLOCKS_def)
  then show ?thesis using s(2) by (intro exI [of _ s] exI [of _ s']) simp
qed

text \<open>C21. The reservation is too generous for the log that \<open>mkfs\<close> makes, which has \<open>LOGSIZE\<close> blocks with
  its header: three operations that begin together may reach a state where one of them, well
  within its quota of \<open>MAXOPBLOCKS\<close> blocks, makes the kernel panic by writing one more.
\<close>

theorem log_quota_panic:
  "\<exists>(s :: logst) us. log_reach 1 s us \<and> lsize (log s) = int LOGSIZE \<and> us ! 2 < MAXOPBLOCKS \<and> length us = 3 \<and>
     (\<forall>bn d. write_block 1 bn d s = Panic ''too big a transaction'')"
proof -
  obtain s :: logst where s: "log_reach 1 s (quota 29)" "lhn (log s) = 29" "lsize (log s) = 30"
    using reach_writes [of 29 30] by auto
  have ok: "logok 1 {} s" using log_reach_inv [OF s(1)] by (simp add: log_inv_def)
  have "write_block 1 bn d s = Panic ''too big a transaction''" for bn d
    using s by (intro write_block_panics [OF ok]) simp_all
  then show ?thesis using s by (intro exI [of _ s] exI [of _ "quota 29"]) (simp add: quota_def MAXOPBLOCKS_def)
qed

text \<open>C22. With a larger log on disk, the cache is too small: three operations may fill the log with
  \<open>LOGSIZE\<close> blocks, all within their quotas, and then every buffer is pinned, so that the commit at the
  end of the last operation panics for want of a buffer.
\<close>

theorem log_full_panic:
  "\<exists>(s :: logst). log_reach 1 s [MAXOPBLOCKS] \<and> int LOGSIZE < lsize (log s) \<and>
     end_op s = Panic ''bget: no buffers''"
proof -
  obtain s :: logst where s: "log_reach 1 s [10, 10, 10]" "lhn (log s) = 30" "lsize (log s) = 31"
    using reach_writes [of 30 31] by (auto simp: quota_def)
  define e :: "logst \<Rightarrow> logst" where
    "e s = wakeup Chan_log (s\<lparr>log := (log s)\<lparr>outstanding := outstanding (log s) - 1\<rparr>\<rparr>)" for s
  have e: "log (e s) = (log s)\<lparr>outstanding := outstanding (log s) - 1\<rparr>" for s by (simp add: e_def)
  have i: "outstanding (log s) = 3" "\<not> committing (log s)"
    using log_reach_inv [OF s(1)] by (auto simp: log_inv_def)
  have "end_op s = Ok (e s)" "end_op (e s) = Ok (e (e s))"
    using end_op_more [of s] end_op_more [of "e s"] i e [of s] by (simp_all add: e_def)
  then have r: "log_reach 1 (e (e s)) [10]"
    using log_reach.end_step [of 1 s "[]" 10 "[10, 10]"] log_reach.end_step [of 1 "e s" "[]" 10 "[10]"] s(1)
    by simp
  then have "logok 1 {} (e (e s))" using log_reach_inv by (auto simp: log_inv_def)
  then have "end_op (e (e s)) = Panic ''bget: no buffers''"
    using i s(2) e by (intro end_op_full [of 1]) (simp_all add: NBUF_30)
  then show ?thesis using r s(3) e by (intro exI [of _ "e (e s)"]) (simp add: MAXOPBLOCKS_def)
qed

end
