(* ===== verification/Bss.thy ===== *)
theory Bss
  imports File
begin

text \<open>
  The kernel's data when it starts: C initialises its globals to zero.  The concrete machines of
  the development are made from this state.
\<close>

definition zero_proc :: proc where
  "zero_proc = \<lparr>pstate = UNUSED, chan = None, killed = 0, xstate = 0, pid = 0, parent = None,
     kstack = 0, sz = 0, pagetable = 0, trapframe = 0,
     pcontext = \<lparr>ra = 0, sp = 0, sregs = replicate 12 0\<rparr>, ofile = replicate NOFILE None,
     cwd = None, pname = replicate 16 0\<rparr>"

definition zero_buf :: buf where
  "zero_buf = \<lparr>valid = False, dev = 0, blockno = 0, block = \<lparr>slocked = False, spid = 0\<rparr>,
     refcnt = 0, prev = 0, nxt = 0, data = replicate BSIZE 0\<rparr>"

definition zero_inode :: inode where
  "zero_inode = \<lparr>idev = 0, inum = 0, ref = 0, ilk = \<lparr>slocked = False, spid = 0\<rparr>, ivalid = False,
     itype = 0, major = 0, minor = 0, nlink = 0, isize = 0, addrs = replicate (NDIRECT + 1) 0\<rparr>"

definition zero_file :: filerec where
  "zero_file = \<lparr>ftype = FD_NONE, fref = 0, readable = False, writable = False, fpipe = 0, fip = 0,
     foff = 0, fmajor = 0\<rparr>"

definition zero_pipe :: pipe where
  "zero_pipe = \<lparr>pdata = replicate PIPESIZE 0, nread = 0, nwrite = 0, readopen = False, writeopen = False\<rparr>"

definition bss :: filest where
  "bss = \<lparr>phys = (\<lambda>_. 0), kend = 0, freelist = 0,
     proc = replicate NPROC zero_proc, nextpid = 1, initproc = None, cpu_proc = None, tramp = 0,
     bufs = replicate (Suc NBUF) zero_buf, disk = (\<lambda>_. replicate BSIZE 0), dlog = [],
     log = \<lparr>lstart = 0, lsize = 0, outstanding = 0, committing = False, ldev = 0, lhn = 0,
       lhblock = replicate LOGSIZE 0\<rparr>,
     sb = \<lparr>magic = 0, fssize = 0, nblocks = 0, ninodes = 0, nlog = 0, logstart = 0, inodestart = 0,
       bmapstart = 0\<rparr>,
     itable = replicate NINODE zero_inode,
     desc = replicate NUM no_desc, avail_ring = replicate NUM 0, avail_idx = 0, uring = replicate NUM 0,
     uidx = 0, dfree = replicate NUM False, used_idx = 0, info_b = replicate NUM None,
     info_status = replicate NUM 0,
     ops = replicate NUM \<lparr>rtype = 0, reserved = 0, sector = 0\<rparr>, bdisk = replicate (Suc NBUF) False,
     vread = (\<lambda>_. 0), vwrites = [],
     uart_tx_buf = replicate UART_TX_BUF_SIZE 0, uart_tx_w = 0, uart_tx_r = 0, panicked = False,
     pr_locking = False, cbuf = replicate INPUT_BUF 0, cr = 0, cw = 0, ce = 0, lsr_in = [], rhr_in = [],
     uart_out = [],
     ftable = replicate NFILE zero_file, pipes = (\<lambda>_. zero_pipe),
     devsw_read = replicate NDEV None, devsw_write = replicate NDEV None\<rparr>"

end
