(* ===== verification/Ring.thy ===== *)
theory Ring
  imports Xv6_Prelude
begin

text \<open>
  Ring buffers with free-running counters, the idiom of \<^verbatim>\<open>kernel/pipe.c\<close>, \<^verbatim>\<open>kernel/uart.c\<close> and
  \<^verbatim>\<open>kernel/console.c\<close>: the read and write counters wrap around at the width of their type, an entry
  lives at its counter modulo the size of the buffer, and the size divides the number of values of
  the counter.  \<open>ring_buffer\<close> is the arithmetic of the idiom, \<open>byte_queue\<close> what a component built
  on it promises: a queue of bytes, over any sequence of operations.
\<close>

section \<open>The counters\<close>

definition ring_contents :: "nat \<Rightarrow> byte list \<Rightarrow> 'n::len word \<Rightarrow> 'n word \<Rightarrow> byte list" where
  "ring_contents cap buf r w = map (\<lambda>i. buf ! (unat (r + of_nat i) mod cap)) [0..<unat (w - r)]"

definition ring_ok :: "nat \<Rightarrow> byte list \<Rightarrow> 'n::len word \<Rightarrow> 'n word \<Rightarrow> bool" where
  "ring_ok cap buf r w \<longleftrightarrow> length buf = cap \<and> unat (w - r) \<le> cap"

lemma length_ring_contents [simp]: "length (ring_contents cap buf r w) = unat (w - r)"
  by (simp add: ring_contents_def)

lemma ring_empty [simp]: "ring_contents cap buf r r = []"
  by (simp add: ring_contents_def)

locale ring_buffer =
  fixes cap :: nat and width :: "'n::len itself"
  assumes cap_pos: "0 < cap" and cap_dvd: "cap dvd 2 ^ LENGTH('n)" and cap_small: "cap < 2 ^ LENGTH('n)"
begin

lemma ring_index: "unat (r + of_nat i :: 'n word) mod cap = (unat r + i) mod cap"
proof -
  have "unat (r + of_nat i :: 'n word) = (unat r + i) mod 2 ^ LENGTH('n)"
    unfolding unat_word_ariths unat_of_nat by (rule mod_add_right_eq)
  then show ?thesis by (simp only: mod_mod_cancel [OF cap_dvd])
qed

lemma ring_full_iff:
  assumes "unat (w - r :: 'n word) \<le> cap"
  shows "w = r + of_nat cap \<longleftrightarrow> unat (w - r) = cap"
proof
  assume "w = r + of_nat cap"
  then show "unat (w - r) = cap" using cap_small by (simp add: unat_of_nat)
next
  assume "unat (w - r) = cap"
  then have "w - r = of_nat cap" by (metis of_nat_unat ucast_id)
  then show "w = r + of_nat cap" by (metis diff_add_cancel add.commute)
qed

lemma ring_push:
  fixes r w :: "'n word"
  assumes "ring_ok cap buf r w" and "unat (w - r) < cap"
  shows "ring_ok cap (buf[unat w mod cap := c]) r (w + 1)"
    and "ring_contents cap (buf[unat w mod cap := c]) r (w + 1) = ring_contents cap buf r w @ [c]"
proof -
  define n where "n = unat (w - r)"
  have nc: "n < cap" using assms(2) by (simp add: n_def)
  have wi: "unat w mod cap = (unat r + n) mod cap" using ring_index [of r n] by (simp add: n_def)
  have "unat (w - r + 1) = Suc n" using nc cap_small by (simp add: unat_word_ariths n_def)
  then have n1: "unat (w + 1 - r) = Suc n" by (simp add: algebra_simps)
  have d: "(unat r + i) mod cap \<noteq> (unat r + n) mod cap" if "i < n" for i
  proof
    assume "(unat r + i) mod cap = (unat r + n) mod cap"
    then have "cap dvd (unat r + n) - (unat r + i)" using that by (subst mod_eq_dvd_iff_nat [symmetric]) simp_all
    then show False using that nc by (auto dest: dvd_imp_le)
  qed
  have l: "unat w mod cap < length buf" using assms(1) cap_pos by (simp add: ring_ok_def)
  show "ring_ok cap (buf[unat w mod cap := c]) r (w + 1)" using assms(1) nc n1 by (simp add: ring_ok_def)
  show "ring_contents cap (buf[unat w mod cap := c]) r (w + 1) = ring_contents cap buf r w @ [c]"
    using d l unfolding ring_contents_def n1 n_def [symmetric] ring_index wi
    by (auto simp: nth_list_update dest: sym)
qed

lemma ring_pop:
  fixes r w :: "'n word"
  assumes "ring_ok cap buf r w" and "r \<noteq> w"
  shows "ring_ok cap buf (r + 1) w"
    and "ring_contents cap buf r w = buf ! (unat r mod cap) # ring_contents cap buf (r + 1) w"
proof -
  have "w - r \<noteq> 0" using assms(2) by simp
  then have n: "unat (w - r) = Suc (unat (w - (r + 1)))"
    using unat_minus_one [of "w - r"] by (simp add: unat_gt_0 diff_diff_add)
  show "ring_ok cap buf (r + 1) w" using assms(1) n by (simp add: ring_ok_def)
  show "ring_contents cap buf r w = buf ! (unat r mod cap) # ring_contents cap buf (r + 1) w"
    unfolding ring_contents_def n upt_conv_Cons [OF zero_less_Suc] map_Suc_upt [symmetric]
    by (simp add: o_def algebra_simps)
qed

lemma ring_drop:
  fixes r w :: "'n word"
  assumes "ring_ok cap buf r w" and "m \<le> unat (w - r)"
  shows "ring_ok cap buf (r + of_nat m) w \<and> ring_contents cap buf (r + of_nat m) w = drop m (ring_contents cap buf r w)"
  using assms(2)
proof (induction m)
  case 0
  then show ?case using assms(1) by simp
next
  case (Suc m)
  then have m: "ring_ok cap buf (r + of_nat m) w"
      "ring_contents cap buf (r + of_nat m) w = drop m (ring_contents cap buf r w)" by simp_all
  then have "length (ring_contents cap buf (r + of_nat m) w) \<noteq> 0" using Suc.prems by (simp only: length_drop) simp
  then have "r + of_nat m \<noteq> w" by auto
  then have P: "ring_ok cap buf (r + of_nat m + 1) w"
    "ring_contents cap buf (r + of_nat m) w = buf ! (unat (r + of_nat m) mod cap) # ring_contents cap buf (r + of_nat m + 1) w"
    by (rule ring_pop [OF m(1)])+
  have "r + of_nat (Suc m) = r + of_nat m + 1" by (simp add: algebra_simps)
  then show ?case using P m(2) by (simp add: drop_Suc tl_drop [symmetric] add.assoc del: of_nat_Suc)
qed

end

section \<open>Queues\<close>

text \<open>
  A sequence of steps: \<open>step s i out s'\<close> takes the state from \<open>s\<close> to \<open>s'\<close>, accepting the bytes \<open>i\<close> and
  delivering the bytes \<open>out\<close>.
\<close>

inductive runs :: "('s \<Rightarrow> byte list \<Rightarrow> byte list \<Rightarrow> 's \<Rightarrow> bool) \<Rightarrow> 's \<Rightarrow> byte list \<Rightarrow> byte list \<Rightarrow> 's \<Rightarrow> bool"
  for step where
  runs_refl: "runs step s [] [] s"
| runs_step: "runs step s i out s' \<Longrightarrow> step s' i' out' s'' \<Longrightarrow> runs step s (i @ i') (out @ out') s''"

locale byte_queue =
  fixes cap :: nat and ok :: "'s \<Rightarrow> bool" and queue :: "'s \<Rightarrow> byte list"
    and step :: "'s \<Rightarrow> byte list \<Rightarrow> byte list \<Rightarrow> 's \<Rightarrow> bool"
  assumes step_ok: "ok s \<Longrightarrow> step s i out s' \<Longrightarrow> ok s'"
    and step_fifo: "ok s \<Longrightarrow> step s i out s' \<Longrightarrow> queue s @ i = out @ queue s'"
    and queue_bound: "ok s \<Longrightarrow> length (queue s) \<le> cap"
begin

lemma runs_fifo:
  assumes "runs step s i out s'" and "ok s"
  shows "ok s' \<and> queue s @ i = out @ queue s'"
  using assms
proof (induction rule: runs.induct)
  case (runs_step s i out s' i' out' s'')
  then show ?case using step_ok [of s' i' out' s''] step_fifo [of s' i' out' s''] by (metis append.assoc)
qed simp

lemma runs_bound: "runs step s i out s' \<Longrightarrow> ok s \<Longrightarrow> length (queue s') \<le> cap"
  using runs_fifo queue_bound by blast

lemma runs_prefix:
  assumes "runs step s i out s'" and "ok s" and "queue s = []"
  shows "i = out @ queue s' \<and> length i \<le> length out + cap"
  using runs_fifo [OF assms(1,2)] queue_bound [of s'] assms(3) by auto

end

end
