(* ===== verification/Pipe_Fifo.thy ===== *)
theory Pipe_Fifo
  imports Bss Ring
begin

text \<open>
  A pipe is a queue of bytes: the functional behaviour of \<open>pipewrite\<close> and \<open>piperead\<close> on the ring of
  \<open>struct pipe\<close>, and for every interleaving of calls, sleeps and wake-ups on one pipe, that the bytes
  read are the bytes written in the same order and that no process sleeps on a pipe it could use.
\<close>

section \<open>The ring of a pipe\<close>

interpretation prb: ring_buffer PIPESIZE "TYPE(32)"
  by unfold_locales (simp_all add: PIPESIZE_def)

definition pipe_queue :: "uint64 \<Rightarrow> 'z filest_scheme \<Rightarrow> byte list" where
  "pipe_queue pi s = ring_contents PIPESIZE (pdata (pipes s pi)) (nread (pipes s pi)) (nwrite (pipes s pi))"

definition pipe_ok :: "uint64 \<Rightarrow> 'z filest_scheme \<Rightarrow> bool" where
  "pipe_ok pi s \<longleftrightarrow> ring_ok PIPESIZE (pdata (pipes s pi)) (nread (pipes s pi)) (nwrite (pipes s pi))"

lemma pipe_bound: "pipe_ok pi s \<Longrightarrow> length (pipe_queue pi s) \<le> PIPESIZE"
  by (simp add: pipe_ok_def pipe_queue_def ring_ok_def)

lemma pipe_same:
  "pipes s' pi = pipes s pi \<Longrightarrow> pipe_queue pi s' = pipe_queue pi s \<and> pipe_ok pi s' = pipe_ok pi s"
  by (simp add: pipe_queue_def pipe_ok_def)

lemma wakeup_pipes [simp]: "pipes (wakeup ch s) = pipes s" "phys (wakeup ch s) = phys s"
  by (simp_all add: wakeup_def)

definition pushed :: "byte \<Rightarrow> pipe \<Rightarrow> pipe" where
  "pushed c x = x\<lparr>pdata := (pdata x)[unat (nwrite x) mod PIPESIZE := c], nwrite := nwrite x + 1\<rparr>"

lemma pushed_ok:
  assumes "pipe_ok pi s" and "nwrite (pipes s pi) \<noteq> nread (pipes s pi) + of_nat PIPESIZE"
  shows "pipe_ok pi (upd_pipe pi (pushed c) s)" "pipe_queue pi (upd_pipe pi (pushed c) s) = pipe_queue pi s @ [c]"
proof -
  let ?d = "nwrite (pipes s pi) - nread (pipes s pi)"
  have "unat ?d \<le> PIPESIZE" using assms(1) by (simp add: pipe_ok_def ring_ok_def)
  then have "unat ?d < PIPESIZE" using prb.ring_full_iff assms(2) by (simp add: le_less)
  then show "pipe_ok pi (upd_pipe pi (pushed c) s)"
    "pipe_queue pi (upd_pipe pi (pushed c) s) = pipe_queue pi s @ [c]"
    using prb.ring_push assms(1) by (simp_all add: pipe_ok_def pipe_queue_def pushed_def)
qed

section \<open>The user's view depends on physical memory only\<close>

lemma view_phys:
  assumes "phys s = phys t"
  shows "ubyte s pt va = ubyte t pt va" "ubytes s pt va n = ubytes t pt va n" "upages s pt = upages t pt"
    "user_ok s pt = user_ok t pt"
proof -
  show u: "ubyte s pt va = ubyte t pt va" for va by (simp add: ubyte_def assms)
  show "ubytes s pt va n = ubytes t pt va n" by (simp add: ubytes_def u)
  show up: "upages s pt = upages t pt" by (simp add: upages_def assms)
  show "user_ok s pt = user_ok t pt" by (simp add: user_ok_def up assms)
qed

lemma updated_phys: "phys s = phys t \<Longrightarrow> updated s pt va src m = updated t pt va src m"
  using view_phys(1,3) [of s t pt] view_phys(1) [of "s\<lparr>phys := m\<rparr>" "t\<lparr>phys := m\<rparr>" pt]
  by (simp add: updated_def)

section \<open>Writing\<close>

text \<open>The bytes the user has at an address, where they are mapped.\<close>

definition user_bytes :: "'z kmem_scheme \<Rightarrow> uint64 \<Rightarrow> uint64 \<Rightarrow> nat \<Rightarrow> byte list" where
  "user_bytes s pt va n = map the (ubytes s pt va n)"

lemma user_bytes_Suc: "user_bytes s pt va (Suc n) = the (ubyte s pt va) # user_bytes s pt (va + 1) n"
  using ubytes_add [of s pt va 1 n] by (simp add: user_bytes_def ubytes_def)

lemma user_bytes_phys: "phys s = phys t \<Longrightarrow> user_bytes s pt va n = user_bytes t pt va n"
  by (simp add: user_bytes_def view_phys(2) [of s t])

lemma copyin_byte:
  "ubyte s pt va = None \<Longrightarrow> \<exists>bs. copyin pt va 1 s = Ok (-1, bs)"
  "ubyte s pt va = Some c \<Longrightarrow> copyin pt va 1 s = Ok (0, [c])"
  using copyin_eq [of s pt va 1] by (auto simp: ubytes_def)

text \<open>How a call of \<open>pipewrite\<close> that had written \<open>i\<close> bytes ends, after writing \<open>m\<close> of the remaining \<open>k\<close>.\<close>

definition write_end ::
  "uint64 \<Rightarrow> uint64 \<Rightarrow> nat \<Rightarrow> nat \<Rightarrow> nat \<Rightarrow> nat \<Rightarrow> 'z filest_scheme \<Rightarrow> int + nat \<Rightarrow> 'z filest_scheme \<Rightarrow> bool" where
  "write_end pi addr pr i k m s res s' \<longleftrightarrow>
     (case res of
        Inr j \<Rightarrow> j = i + m \<and> m < k \<and> length (pipe_queue pi s') = PIPESIZE \<and> readopen (pipes s pi)
      | Inl v \<Rightarrow>
          v = -1 \<and> m = 0 \<and> 0 < k \<and> (\<not> readopen (pipes s pi) \<or> killed (proc s ! pr) \<noteq> 0) \<or>
          v = int (i + m) \<and> (m = k \<or> ubyte s (pagetable (proc s ! pr)) (addr + of_nat (i + m)) = None))"

lemma pipewrite_run_ok:
  assumes "pipe_ok pi s"
  shows "\<exists>res m p'. m \<le> k \<and>
    pipewrite_run pi addr pr i k s = Ok (res, if res = Inl (-1) then s else
      wakeup (Chan_pipe_read (unat pi)) (s\<lparr>pipes := (pipes s)(pi := p')\<rparr>)) \<and>
    pipe_ok pi (s\<lparr>pipes := (pipes s)(pi := p')\<rparr>) \<and>
    pipe_queue pi (s\<lparr>pipes := (pipes s)(pi := p')\<rparr>) =
      pipe_queue pi s @ user_bytes s (pagetable (proc s ! pr)) (addr + of_nat i) m \<and>
    nwrite p' = nwrite (pipes s pi) + of_nat m \<and> nread p' = nread (pipes s pi) \<and>
    readopen p' = readopen (pipes s pi) \<and> writeopen p' = writeopen (pipes s pi) \<and>
    write_end pi addr pr i k m s res (s\<lparr>pipes := (pipes s)(pi := p')\<rparr>)"
  using assms
proof (induction k arbitrary: i s)
  case 0
  show ?case
    using 0 by (intro exI [of _ "Inl (int i)"] exI [of _ 0] exI [of _ "pipes s pi"])
      (simp add: user_bytes_def ubytes_def write_end_def)
next
  case (Suc k)
  let ?pt = "pagetable (proc s ! pr)" and ?q = "pipes s pi"
  let ?P = "\<lambda>res m p'. pipewrite_run pi addr pr i (Suc k) s = Ok (res, if res = Inl (-1) then s else
      wakeup (Chan_pipe_read (unat pi)) (s\<lparr>pipes := (pipes s)(pi := p')\<rparr>)) \<and>
    write_end pi addr pr i (Suc k) m s res (s\<lparr>pipes := (pipes s)(pi := p')\<rparr>)"
  have stop: ?case if "?P res 0 ?q" for res
    using that Suc.prems by (intro exI [of _ res] exI [of _ 0] exI [of _ ?q]) (simp add: user_bytes_def ubytes_def)
  consider "\<not> readopen ?q \<or> killed (proc s ! pr) \<noteq> 0"
    | "readopen ?q" "killed (proc s ! pr) = 0" "nwrite ?q = nread ?q + of_nat PIPESIZE"
    | "readopen ?q" "killed (proc s ! pr) = 0" "nwrite ?q \<noteq> nread ?q + of_nat PIPESIZE" "ubyte s ?pt (addr + of_nat i) = None"
    | c where "readopen ?q" "killed (proc s ! pr) = 0" "nwrite ?q \<noteq> nread ?q + of_nat PIPESIZE"
        "ubyte s ?pt (addr + of_nat i) = Some c"
    by blast
  then show ?case
  proof cases
    case 1
    then show ?thesis by (intro stop [of "Inl (-1)"]) (auto simp: write_end_def)
  next
    case 2
    have "length (pipe_queue pi s) = PIPESIZE"
      using 2(3) by (simp add: pipe_queue_def PIPESIZE_def)
    then show ?thesis using 2 by (intro stop [of "Inr i"]) (simp add: write_end_def)
  next
    case 3
    then obtain bs where "copyin ?pt (addr + of_nat i) 1 s = Ok (-1, bs)" using copyin_byte(1) [of s ?pt] by blast
    then show ?thesis using 3 by (intro stop [of "Inl (int i)"]) (simp add: write_end_def)
  next
    case (4 c)
    define s1 where "s1 = upd_pipe pi (pushed c) s"
    have "copyin ?pt (addr + of_nat i) 1 s = Ok (0, [c])" by (rule copyin_byte(2) [OF 4(4)])
    then have E: "pipewrite_run pi addr pr i (Suc k) s = pipewrite_run pi addr pr (Suc i) k s1"
      using 4 by (simp add: pushed_def s1_def)
    note P = pushed_ok [OF Suc.prems 4(3), of c, folded s1_def]
    have s1: "s1\<lparr>pipes := (pipes s1)(pi := p')\<rparr> = s\<lparr>pipes := (pipes s)(pi := p')\<rparr>" for p'
      by (simp add: s1_def)
    have f: "proc s1 = proc s" "pipes s1 pi = pushed c ?q" "phys s1 = phys s" by (simp_all add: s1_def)
    obtain res m p' where I: "m \<le> k"
      "pipewrite_run pi addr pr (Suc i) k s1 = Ok (res, if res = Inl (-1) then s1 else
        wakeup (Chan_pipe_read (unat pi)) (s\<lparr>pipes := (pipes s)(pi := p')\<rparr>))"
      "pipe_ok pi (s\<lparr>pipes := (pipes s)(pi := p')\<rparr>)"
      "pipe_queue pi (s\<lparr>pipes := (pipes s)(pi := p')\<rparr>) =
        pipe_queue pi s1 @ user_bytes s1 ?pt (addr + of_nat (Suc i)) m"
      "nwrite p' = nwrite (pushed c ?q) + of_nat m" "nread p' = nread (pushed c ?q)"
      "readopen p' = readopen (pushed c ?q)" "writeopen p' = writeopen (pushed c ?q)"
      "write_end pi addr pr (Suc i) k m s1 res (s\<lparr>pipes := (pipes s)(pi := p')\<rparr>)"
      using Suc.IH [OF P(1), of "Suc i"] unfolding s1 f(1,2) by blast
    have r: "res \<noteq> Inl (-1)" using I(9) 4 by (auto simp: write_end_def f pushed_def)
    have u: "ubyte s1 ?pt v = ubyte s ?pt v" for v by (rule view_phys(1) [OF f(3)])
    have w: "write_end pi addr pr i (Suc k) (Suc m) s res (s\<lparr>pipes := (pipes s)(pi := p')\<rparr>)"
      using I(9) r by (cases res) (auto simp: write_end_def f u pushed_def algebra_simps)
    have a: "addr + of_nat (Suc i) = addr + of_nat i + 1" by simp
    have q: "pipe_queue pi (s\<lparr>pipes := (pipes s)(pi := p')\<rparr>) =
        pipe_queue pi s @ user_bytes s ?pt (addr + of_nat i) (Suc m)"
      unfolding I(4) P(2) a user_bytes_Suc 4(4) user_bytes_phys [OF f(3)] by simp
    have n: "nwrite p' = nwrite ?q + of_nat (Suc m)" "nread p' = nread ?q" "readopen p' = readopen ?q"
      "writeopen p' = writeopen ?q"
      using I(5-8) by (simp_all add: pushed_def)
    have R: "pipewrite_run pi addr pr i (Suc k) s = Ok (res, if res = Inl (-1) then s else
        wakeup (Chan_pipe_read (unat pi)) (s\<lparr>pipes := (pipes s)(pi := p')\<rparr>))"
      unfolding E I(2) if_not_P [OF r] ..
    have "Suc m \<le> Suc k" using I(1) by simp
    then show ?thesis using R I(3) q n w by (intro exI conjI)
  qed
qed

section \<open>Reading\<close>

definition popped :: "nat \<Rightarrow> pipe \<Rightarrow> pipe" where
  "popped m x = x\<lparr>nread := nread x + of_nat m\<rparr>"

lemma popped_0 [simp]: "popped 0 x = x"
  by (simp add: popped_def)

lemma popped_1: "popped 1 x = x\<lparr>nread := nread x + 1\<rparr>"
  by (simp add: popped_def)

lemma popped_Suc: "popped (Suc m) x = popped m (popped 1 x)"
  by (simp add: popped_def algebra_simps)

lemma popped_ok:
  assumes "pipe_ok pi s" and "m \<le> length (pipe_queue pi s)"
  shows "pipe_ok pi (upd_pipe pi (popped m) s)" "pipe_queue pi (upd_pipe pi (popped m) s) = drop m (pipe_queue pi s)"
  using prb.ring_drop [of "pdata (pipes s pi)" "nread (pipes s pi)" "nwrite (pipes s pi)" m] assms
  by (simp_all add: pipe_ok_def pipe_queue_def popped_def)

lemma pipe_head:
  assumes "pipe_ok pi s" and "nread (pipes s pi) \<noteq> nwrite (pipes s pi)"
  shows "pipe_queue pi s = pdata (pipes s pi) ! (unat (nread (pipes s pi)) mod PIPESIZE) #
    pipe_queue pi (upd_pipe pi (popped 1) s)"
proof -
  have "pipe_queue pi (upd_pipe pi (popped 1) s) =
      ring_contents PIPESIZE (pdata (pipes s pi)) (nread (pipes s pi) + 1) (nwrite (pipes s pi))"
    by (simp add: pipe_queue_def popped_def)
  then show ?thesis using prb.ring_pop(2) [OF assms(1) [unfolded pipe_ok_def] assms(2)]
    by (simp only: pipe_queue_def)
qed

lemma copyout_byte:
  assumes "user_ok s pt" and "ubyte s pt va \<noteq> None"
  shows "\<exists>m. copyout pt va [c] s = Ok (0, s\<lparr>phys := m\<rparr>) \<and> updated s pt va [c] m \<and> user_ok (s\<lparr>phys := m\<rparr>) pt"
proof -
  obtain m where m: "copyout pt va [c] s = Ok (0, s\<lparr>phys := m\<rparr>)" "outside (upages s pt) (phys s) m" "updated s pt va [c] m"
    using copyout_eq [OF assms(1), of "[c]" va] assms(2) by (auto simp: ubytes_def split: if_splits)
  then show ?thesis using walkaddr_frame(2) [OF assms(1) subset_refl m(2)] by blast
qed

lemma updated_None: "updated s pt va src m \<Longrightarrow> ubyte (s\<lparr>phys := m\<rparr>) pt v = None \<Longrightarrow> ubyte s pt v = None"
  by (auto simp: updated_def split: if_splits)

lemma copyout_byte_fail:
  assumes "ubyte s pt va = None"
  shows "copyout pt va [c] s = Ok (-1, s)"
proof -
  have "walkaddr pt (PGROUNDDOWN va) s = Ok 0"
    using assms walkaddr_Ok [of pt "PGROUNDDOWN va" s] by (auto simp: ubyte_walk split: if_splits)
  then show ?thesis by (simp add: copyout.simps [of pt va "[c]"])
qed

text \<open>
  How the loop of \<open>piperead\<close> ends: it has delivered \<open>m\<close> bytes and, if \<open>copyout\<close> failed, taken one more out
  of the pipe (\<open>l = 1\<close>).
\<close>

definition read_end ::
  "uint64 \<Rightarrow> uint64 \<Rightarrow> nat \<Rightarrow> 'z filest_scheme \<Rightarrow> nat \<Rightarrow> nat \<Rightarrow> nat \<Rightarrow> bool" where
  "read_end pi va pr s k m l \<longleftrightarrow> l \<le> 1 \<and> m + l \<le> min k (length (pipe_queue pi s)) \<and>
     (\<forall>t<m. ubyte s (pagetable (proc s ! pr)) (va + of_nat t) \<noteq> None) \<and>
     (if l = 0 then m = min k (length (pipe_queue pi s)) else ubyte s (pagetable (proc s ! pr)) (va + of_nat m) = None)"

lemma piperead_loop_ok:
  assumes "user_ok s (pagetable (proc s ! pr))" "pipe_ok pi s" "k < 2 ^ 32"
  shows "\<exists>mem m l. piperead_loop pi addr pr i k s = Ok (i + m, (upd_pipe pi (popped (m + l)) s)\<lparr>phys := mem\<rparr>) \<and>
    updated s (pagetable (proc s ! pr)) (addr + of_nat i) (take m (pipe_queue pi s)) mem \<and>
    read_end pi (addr + of_nat i) pr s k m l"
  using assms
proof (induction k arbitrary: i s)
  case 0
  then show ?case using updated_Nil [of s "pagetable (proc s ! pr)" "addr + of_nat i"]
    by (intro exI [of _ "phys s"] exI [of _ 0]) (simp add: read_end_def)
next
  case (Suc k)
  let ?pt = "pagetable (proc s ! pr)"
  show ?case
  proof (cases "nread (pipes s pi) = nwrite (pipes s pi)")
    case True
    then show ?thesis using updated_Nil [of s ?pt "addr + of_nat i"]
      by (intro exI [of _ "phys s"] exI [of _ 0]) (simp add: read_end_def pipe_queue_def)
  next
    case False
    define c where "c = pdata (pipes s pi) ! (unat (nread (pipes s pi)) mod PIPESIZE)"
    define s1 where "s1 = upd_pipe pi (popped 1) s"
    have q: "pipe_queue pi s = c # pipe_queue pi s1"
      using pipe_head [OF Suc.prems(2) False] by (simp add: c_def s1_def)
    have ok1: "pipe_ok pi s1" using popped_ok(1) [OF Suc.prems(2), of 1] q by (simp add: s1_def)
    have ph: "phys s1 = phys s" and pr: "proc s1 = proc s" by (simp_all add: s1_def)
    note V = view_phys [OF ph]
    have E: "piperead_loop pi addr pr i (Suc k) s =
        bindR (copyout ?pt (addr + of_nat i) [c] s1) (\<lambda>(r, s). if r = -1 then Ok (i, s) else piperead_loop pi addr pr (Suc i) k s)"
      by (simp only: piperead_loop.simps(2) if_not_P [OF False] Let_def popped_1 [symmetric]
          c_def [symmetric] s1_def [symmetric] pr)
    show ?thesis
    proof (cases "ubyte s ?pt (addr + of_nat i) = None")
      case True
      then have "copyout ?pt (addr + of_nat i) [c] s1 = Ok (-1, s1)" using V(1) by (intro copyout_byte_fail) simp
      then have "piperead_loop pi addr pr i (Suc k) s = Ok (i, (upd_pipe pi (popped 1) s)\<lparr>phys := phys s\<rparr>)"
        unfolding E by (simp add: s1_def)
      moreover have "read_end pi (addr + of_nat i) pr s (Suc k) 0 1" using True q by (simp add: read_end_def)
      ultimately show ?thesis using updated_Nil [of s ?pt "addr + of_nat i"]
        by - (rule exI [of _ "phys s"], rule exI [of _ 0], rule exI [of _ 1], simp only: add_0_right add_0_left take_0 simp_thms)
    next
      case mapped: False
      obtain m1 where m1: "copyout ?pt (addr + of_nat i) [c] s1 = Ok (0, s1\<lparr>phys := m1\<rparr>)"
        "updated s1 ?pt (addr + of_nat i) [c] m1" "user_ok (s1\<lparr>phys := m1\<rparr>) ?pt"
        using copyout_byte [of s1 ?pt "addr + of_nat i" c] V mapped Suc.prems(1) by auto
      let ?s2 = "s1\<lparr>phys := m1\<rparr>"
      have q2: "pipe_queue pi ?s2 = pipe_queue pi s1" "pipe_ok pi ?s2" using ok1 pipe_same [of ?s2 pi s1] by simp_all
      have pt2: "pagetable (proc ?s2 ! pr) = ?pt" using pr by simp
      have k: "k < 2 ^ 32" using Suc.prems(3) by simp
      obtain mem m l where mem:
        "piperead_loop pi addr pr (Suc i) k ?s2 = Ok (Suc i + m, (upd_pipe pi (popped (m + l)) ?s2)\<lparr>phys := mem\<rparr>)"
        "updated ?s2 ?pt (addr + of_nat (Suc i)) (take m (pipe_queue pi s1)) mem"
        "read_end pi (addr + of_nat (Suc i)) pr ?s2 k m l"
        using Suc.IH [of ?s2, unfolded pt2, OF m1(3) q2(2) k] unfolding q2(1) by blast
      have same: "ubyte ?s2 ?pt v = None \<longleftrightarrow> ubyte s ?pt v = None" for v
        using m1(2) V(1) mapped by (auto simp: updated_def unat_eq_0)
      have "read_end pi (addr + of_nat i) pr s (Suc k) (Suc m) l"
        using mem(3) mapped unfolding read_end_def pt2 q2(1) same q
        by (auto simp: less_Suc_eq_0_disj algebra_simps)
      moreover have "m \<le> k" using mem(3) by (simp add: read_end_def)
      then have "length (take m (pipe_queue pi s1)) < 2 ^ 32" using k by simp
      then have "updated s1 ?pt (addr + of_nat i) ([c] @ take m (pipe_queue pi s1)) mem"
        using m1(2,3) mem(2) V(4) Suc.prems(1) by (intro updated_append [of s1]) (simp_all add: algebra_simps)
      then have "updated s ?pt (addr + of_nat i) (take (Suc m) (pipe_queue pi s)) mem"
        unfolding updated_phys [OF ph] q by simp
      moreover have "(upd_pipe pi (popped (m + l)) ?s2)\<lparr>phys := mem\<rparr> = (upd_pipe pi (popped (Suc m + l)) s)\<lparr>phys := mem\<rparr>"
        unfolding s1_def add_Suc popped_Suc by simp
      moreover have "piperead_loop pi addr pr i (Suc k) s = Ok (Suc i + m, (upd_pipe pi (popped (m + l)) ?s2)\<lparr>phys := mem\<rparr>)"
        unfolding E m1(1) mem(1) [symmetric] by simp
      ultimately show ?thesis by (intro exI [of _ mem] exI [of _ "Suc m"] exI [of _ l]) (simp only: add_Suc add_Suc_right)
    qed
  qed
qed

lemma updated_bytes:
  assumes "updated s pt va src m" and "length src < 2 ^ 64"
  shows "user_bytes (s\<lparr>phys := m\<rparr>) pt va (length src) = src"
proof (rule nth_equalityI)
  fix j assume "j < length (user_bytes (s\<lparr>phys := m\<rparr>) pt va (length src))"
  then have j: "j < length src" by (simp add: user_bytes_def ubytes_def)
  then have "unat (of_nat j :: uint64) = j" using assms(2) by (intro unat64_of_nat) simp
  then show "user_bytes (s\<lparr>phys := m\<rparr>) pt va (length src) ! j = src ! j"
    using assms(1) j by (simp add: user_bytes_def ubytes_def updated_def)
qed (simp add: user_bytes_def ubytes_def)

section \<open>Calls, sleeps and wake-ups on one pipe\<close>

definition sleeps :: "wchan \<Rightarrow> 'z procs_scheme \<Rightarrow> nat \<Rightarrow> bool" where
  "sleeps ch s i \<longleftrightarrow> i < length (proc s) \<and> pstate (proc s ! i) = SLEEPING \<and> chan (proc s ! i) = Some ch"

definition running :: "'z procs_scheme \<Rightarrow> nat \<Rightarrow> bool" where
  "running s p \<longleftrightarrow> cpu_proc s = Some p \<and> p < length (proc s) \<and> pstate (proc s ! p) = RUNNING"

text \<open>The caller goes to sleep and the CPU to its scheduler.\<close>

definition sleep_on :: "wchan \<Rightarrow> nat \<Rightarrow> 'z procs_scheme \<Rightarrow> 'z procs_scheme" where
  "sleep_on ch p s = (sleep_enter ch p s)\<lparr>cpu_proc := None\<rparr>"

lemma sleeps_wakeup: "running s p \<Longrightarrow> sleeps ch' (wakeup ch s) i \<longleftrightarrow> sleeps ch' s i \<and> ch' \<noteq> ch"
  by (auto simp: sleeps_def wakeup_def running_def Let_def split: if_splits)

lemma sleeps_sleep_on:
  "p < length (proc s) \<Longrightarrow> sleeps ch' (sleep_on ch p s) i \<longleftrightarrow> (if i = p then ch' = ch else sleeps ch' s i)"
  by (auto simp: sleeps_def sleep_on_def sleep_enter_def nth_list_update)

lemma sleeps_proc: "proc s = proc t \<Longrightarrow> sleeps ch s i = sleeps ch t i"
  by (simp add: sleeps_def)

lemma sleep_on_pipes [simp]: "pipes (sleep_on ch p s) = pipes s"
  by (simp add: sleep_on_def sleep_enter_def)

lemma sleep_on_length [simp]: "length (proc (wakeup ch s)) = length (proc s)"
  by (simp add: wakeup_def)

text \<open>
  The reader's address space is one the kernel set up; \<open>mapped_buffer\<close> says that all of the buffer is in it.  Otherwise
  \<open>piperead\<close> may take a byte out of the pipe that it cannot deliver: \<open>lost_byte\<close>.
\<close>

definition reader_ok :: "'z procs_scheme \<Rightarrow> nat \<Rightarrow> int \<Rightarrow> bool" where
  "reader_ok s pr n \<longleftrightarrow> user_ok s (pagetable (proc s ! pr)) \<and> n < 2 ^ 31"

definition mapped_buffer :: "'z procs_scheme \<Rightarrow> nat \<Rightarrow> uint64 \<Rightarrow> int \<Rightarrow> bool" where
  "mapped_buffer s pr addr n \<longleftrightarrow> (\<forall>j<nat n. ubyte s (pagetable (proc s ! pr)) (addr + of_nat j) \<noteq> None)"

definition lost_byte :: "uint64 \<Rightarrow> 'z filest_scheme \<Rightarrow> nat \<Rightarrow> uint64 \<Rightarrow> int \<Rightarrow> int \<Rightarrow> 'z filest_scheme \<Rightarrow> byte list" where
  "lost_byte pi s pr addr n r s' =
     (if mapped_buffer s pr addr n \<or> nread (pipes s' pi) = nread (pipes s pi) + of_nat (nat r) then []
      else [pipe_queue pi s ! nat r])"

text \<open>
  The steps of the processes that share a pipe, with the bytes they put in and take out.  A call of
  \<open>pipewrite\<close> runs up to its return or its next sleep.  A call of \<open>piperead\<close> takes out what is then in
  the reader's buffer, and the byte that is lost if the buffer is not all mapped.  \<open>other_step\<close> is
  anything that leaves this pipe alone and puts nobody to sleep on it, such as a wake-up, a kill, a
  context switch, or work on another file.
\<close>

inductive pipe_step ::
  "uint64 \<Rightarrow> 'z filest_scheme \<Rightarrow> byte list \<Rightarrow> byte list \<Rightarrow> 'z filest_scheme \<Rightarrow> bool" for pi where
  write_ret: "running s pr \<Longrightarrow> pipewrite_run pi addr pr i k s = Ok (Inl v, s') \<Longrightarrow>
    bs = user_bytes s (pagetable (proc s ! pr)) (addr + of_nat i)
      (unat (nwrite (pipes s' pi) - nwrite (pipes s pi))) \<Longrightarrow> k < 2 ^ 31 \<Longrightarrow>
    pipe_step pi s bs [] s'"
| write_sleep: "running s pr \<Longrightarrow> pipewrite_run pi addr pr i k s = Ok (Inr j, s') \<Longrightarrow>
    bs = user_bytes s (pagetable (proc s ! pr)) (addr + of_nat i)
      (unat (nwrite (pipes s' pi) - nwrite (pipes s pi))) \<Longrightarrow> k < 2 ^ 31 \<Longrightarrow>
    pipe_step pi s bs [] (sleep_on (Chan_pipe_write (unat pi)) pr s')"
| read_ret: "running s pr \<Longrightarrow> reader_ok s pr n \<Longrightarrow> piperead pi addr n s = Ok (r, s') \<Longrightarrow>
    bs = user_bytes s' (pagetable (proc s ! pr)) addr (nat r) @ lost_byte pi s pr addr n r s' \<Longrightarrow>
    pipe_step pi s [] bs s'"
| read_sleep: "running s pr \<Longrightarrow> reader_ok s pr n \<Longrightarrow> piperead pi addr n s = Blocked \<Longrightarrow>
    pipe_step pi s [] [] (sleep_on (Chan_pipe_read (unat pi)) pr s)"
| close_step: "running s pr \<Longrightarrow> pipeclose pi wr s = Ok s' \<Longrightarrow>
    readopen (pipes s' pi) \<or> writeopen (pipes s' pi) \<Longrightarrow> pipe_step pi s [] [] s'"
| other_step: "pipes s' pi = pipes s pi \<Longrightarrow>
    (\<And>i. sleeps (Chan_pipe_read (unat pi)) s' i \<Longrightarrow> sleeps (Chan_pipe_read (unat pi)) s i) \<Longrightarrow>
    (\<And>i. sleeps (Chan_pipe_write (unat pi)) s' i \<Longrightarrow> sleeps (Chan_pipe_write (unat pi)) s i) \<Longrightarrow>
    pipe_step pi s [] [] s'"

text \<open>Nobody sleeps on the pipe who could use it.\<close>

definition pipe_wait :: "uint64 \<Rightarrow> 'z filest_scheme \<Rightarrow> bool" where
  "pipe_wait pi s \<longleftrightarrow>
     (\<forall>i. sleeps (Chan_pipe_read (unat pi)) s i \<longrightarrow> pipe_queue pi s = [] \<and> writeopen (pipes s pi)) \<and>
     (\<forall>i. sleeps (Chan_pipe_write (unat pi)) s i \<longrightarrow>
        length (pipe_queue pi s) = PIPESIZE \<and> readopen (pipes s pi))"

definition pipe_inv :: "uint64 \<Rightarrow> 'z filest_scheme \<Rightarrow> bool" where
  "pipe_inv pi s \<longleftrightarrow> pipe_ok pi s \<and> pipe_wait pi s"

lemma pipe_waitI:
  assumes "\<And>i. sleeps (Chan_pipe_read (unat pi)) s i \<Longrightarrow> pipe_queue pi s = [] \<and> writeopen (pipes s pi)"
    "\<And>i. sleeps (Chan_pipe_write (unat pi)) s i \<Longrightarrow> length (pipe_queue pi s) = PIPESIZE \<and> readopen (pipes s pi)"
  shows "pipe_wait pi s"
  using assms by (auto simp: pipe_wait_def)

lemma pipe_waitD:
  assumes "pipe_wait pi s"
  shows "sleeps (Chan_pipe_read (unat pi)) s i \<Longrightarrow> pipe_queue pi s = [] \<and> writeopen (pipes s pi)"
    "sleeps (Chan_pipe_write (unat pi)) s i \<Longrightarrow> length (pipe_queue pi s) = PIPESIZE \<and> readopen (pipes s pi)"
  using assms by (auto simp: pipe_wait_def)

lemma write_keeps:
  assumes run: "running s pr" and inv: "pipe_inv pi s" and k: "k < 2 ^ 31"
    and w: "pipewrite_run pi addr pr i k s = Ok (res, s')"
    and bs: "bs = user_bytes s (pagetable (proc s ! pr)) (addr + of_nat i)
      (unat (nwrite (pipes s' pi) - nwrite (pipes s pi)))"
  shows "pipe_inv pi s'" "pipe_queue pi s' = pipe_queue pi s @ bs" "length (proc s') = length (proc s)"
    "res = Inr j \<Longrightarrow> length (pipe_queue pi s') = PIPESIZE \<and> readopen (pipes s' pi)"
proof -
  have ok: "pipe_ok pi s" and wait: "pipe_wait pi s" using inv by (simp_all add: pipe_inv_def)
  obtain m p' where m: "m \<le> k" and s': "s' = (if res = Inl (-1) then s else
        wakeup (Chan_pipe_read (unat pi)) (s\<lparr>pipes := (pipes s)(pi := p')\<rparr>))"
    and p': "pipe_ok pi (s\<lparr>pipes := (pipes s)(pi := p')\<rparr>)"
      "pipe_queue pi (s\<lparr>pipes := (pipes s)(pi := p')\<rparr>) =
        pipe_queue pi s @ user_bytes s (pagetable (proc s ! pr)) (addr + of_nat i) m"
      "nwrite p' = nwrite (pipes s pi) + of_nat m"
      "readopen p' = readopen (pipes s pi)" "writeopen p' = writeopen (pipes s pi)"
    and e: "write_end pi addr pr i k m s res (s\<lparr>pipes := (pipes s)(pi := p')\<rparr>)"
    using pipewrite_run_ok [OF ok, of k addr pr i] w by auto
  let ?s = "s\<lparr>pipes := (pipes s)(pi := p')\<rparr>"
  show len: "length (proc s') = length (proc s)" by (simp add: s')
  show "pipe_queue pi s' = pipe_queue pi s @ bs" "pipe_inv pi s'"
    "res = Inr j \<Longrightarrow> length (pipe_queue pi s') = PIPESIZE \<and> readopen (pipes s' pi)"
  proof (atomize (full), cases "res = Inl (-1)")
    case True
    then have "bs = []" using bs by (simp add: s' user_bytes_def ubytes_def)
    then show "(pipe_queue pi s' = pipe_queue pi s @ bs) \<and> pipe_inv pi s' \<and>
      (res = Inr j \<longrightarrow> length (pipe_queue pi s') = PIPESIZE \<and> readopen (pipes s' pi))"
      using True inv by (simp add: s')
  next
    case False
    then have p: "pipes s' pi = p'" by (simp add: s')
    have q: "pipe_queue pi s' = pipe_queue pi ?s" "pipe_ok pi s'" using pipe_same [of s' pi ?s] p p'(1) by simp_all
    have "unat (of_nat m :: uint) = m" using m k by (simp add: unat_of_nat)
    then have bs': "bs = user_bytes s (pagetable (proc s ! pr)) (addr + of_nat i) m"
      using bs p p'(3) by simp
    have "running ?s pr" using run by (simp add: running_def)
    then have sl: "sleeps ch s' i \<longleftrightarrow> sleeps ch s i \<and> ch \<noteq> Chan_pipe_read (unat pi)" for ch i
      using False sleeps_wakeup [of ?s pr ch "Chan_pipe_read (unat pi)" i] sleeps_proc [of ?s s ch i] by (simp add: s')
    have "pipe_wait pi s'"
    proof (rule pipe_waitI)
      fix i assume "sleeps (Chan_pipe_write (unat pi)) s' i"
      then have l: "length (pipe_queue pi s) = PIPESIZE" "readopen (pipes s pi)"
        using pipe_waitD(2) [OF wait] sl by auto
      have "length (pipe_queue pi s') \<le> PIPESIZE" using pipe_bound [OF q(2)] .
      then show "length (pipe_queue pi s') = PIPESIZE \<and> readopen (pipes s' pi)"
        using l p p'(4) q(1) p'(2) by simp
    qed (use sl in auto)
    moreover have "res = Inr j \<longrightarrow> length (pipe_queue pi s') = PIPESIZE \<and> readopen (pipes s' pi)"
      using e q(1) p p'(4) by (auto simp: write_end_def)
    ultimately show "(pipe_queue pi s' = pipe_queue pi s @ bs) \<and> pipe_inv pi s' \<and>
      (res = Inr j \<longrightarrow> length (pipe_queue pi s') = PIPESIZE \<and> readopen (pipes s' pi))"
      using q p'(2) bs' by (simp add: pipe_inv_def)
  qed
qed

text \<open>A read that does not block: what it leaves in the buffer, in the pipe and in \<open>nread\<close>.\<close>

lemma piperead_ok:
  assumes run: "running s pr" and ok: "pipe_ok pi s" and good: "reader_ok s pr n"
    and go: "\<not> (nread (pipes s pi) = nwrite (pipes s pi) \<and> writeopen (pipes s pi))"
  shows "\<exists>s1 m l. piperead pi addr n s = Ok (int m, wakeup (Chan_pipe_write (unat pi)) s1) \<and>
    proc s1 = proc s \<and> cpu_proc s1 = cpu_proc s \<and> pipes s1 pi = popped (m + l) (pipes s pi) \<and> pipe_ok pi s1 \<and>
    pipe_queue pi s1 = drop (m + l) (pipe_queue pi s) \<and> read_end pi addr pr s (nat n) m l \<and>
    user_bytes s1 (pagetable (proc s ! pr)) addr m = take m (pipe_queue pi s)"
proof -
  let ?pt = "pagetable (proc s ! pr)"
  have my: "myproc s = Ok pr" using run by (simp add: myproc_def running_def)
  have "nat n < 2 ^ 32" using good by (auto simp: reader_ok_def)
  then obtain mem m l where mem: "piperead_loop pi addr pr 0 (nat n) s = Ok (m, (upd_pipe pi (popped (m + l)) s)\<lparr>phys := mem\<rparr>)"
    "updated s ?pt addr (take m (pipe_queue pi s)) mem" "read_end pi addr pr s (nat n) m l"
    using piperead_loop_ok [of s pr pi "nat n" addr 0] good ok by (auto simp: reader_ok_def)
  define s1 where "s1 = (upd_pipe pi (popped (m + l)) s)\<lparr>phys := mem\<rparr>"
  have r: "piperead pi addr n s = Ok (int m, wakeup (Chan_pipe_write (unat pi)) s1)"
    using my go mem(1) by (simp only: piperead_def s1_def bindR.simps if_False prod.case)
  have le: "m + l \<le> length (pipe_queue pi s)" using mem(3) by (simp add: read_end_def)
  have p: "pipes s1 pi = pipes (upd_pipe pi (popped (m + l)) s) pi" by (simp add: s1_def)
  have q: "pipe_queue pi s1 = drop (m + l) (pipe_queue pi s)" "pipe_ok pi s1"
    using pipe_same [OF p] popped_ok [OF ok le] by simp_all
  have "length (pipe_queue pi s) \<le> 512" using pipe_bound [OF ok] by (simp add: PIPESIZE_def)
  then have "user_bytes (s\<lparr>phys := mem\<rparr>) ?pt addr m = take m (pipe_queue pi s)"
    using updated_bytes [OF mem(2)] le by simp
  moreover have "user_bytes s1 ?pt addr m = user_bytes (s\<lparr>phys := mem\<rparr>) ?pt addr m"
    by (rule user_bytes_phys) (simp add: s1_def)
  moreover have "proc s1 = proc s" "cpu_proc s1 = cpu_proc s" "pipes s1 pi = popped (m + l) (pipes s pi)"
    by (simp_all add: s1_def)
  ultimately show ?thesis using r q mem(3) by metis
qed

lemma read_end_lost:
  assumes "read_end pi addr pr s (nat n) m l" and "pipe_ok pi s" and "pipes s' pi = popped (m + l) (pipes s pi)"
  shows "take m (pipe_queue pi s) @ lost_byte pi s pr addr n (int m) s' = take (m + l) (pipe_queue pi s)"
proof (cases "l = 0")
  case True
  then show ?thesis using assms(3) by (simp add: lost_byte_def popped_def)
next
  case False
  then have "l = 1" using assms(1) by (simp add: read_end_def)
  then have l: "l = 1" "m < nat n" "m < length (pipe_queue pi s)"
    "ubyte s (pagetable (proc s ! pr)) (addr + of_nat m) = None"
    using assms(1) by (auto simp: read_end_def)
  then have "\<not> mapped_buffer s pr addr n" unfolding mapped_buffer_def by blast
  moreover note l
  moreover have "nread (pipes s pi) + of_nat (m + 1) \<noteq> nread (pipes s pi) + of_nat m" by simp
  ultimately show ?thesis using assms(3)
    by (simp add: lost_byte_def popped_def take_Suc_conv_app_nth del: of_nat_add)
qed

lemma read_keeps:
  assumes run: "running s pr" and inv: "pipe_inv pi s" and good: "reader_ok s pr n"
  shows "piperead pi addr n s = Blocked \<and> pipe_queue pi s = [] \<and> writeopen (pipes s pi) \<or>
    (\<exists>r s'. piperead pi addr n s = Ok (r, s') \<and> pipe_inv pi s' \<and>
      pipe_queue pi s = (user_bytes s' (pagetable (proc s ! pr)) addr (nat r) @ lost_byte pi s pr addr n r s') @ pipe_queue pi s')"
proof -
  have ok: "pipe_ok pi s" and wait: "pipe_wait pi s" using inv by (simp_all add: pipe_inv_def)
  let ?pt = "pagetable (proc s ! pr)" and ?q = "pipes s pi"
  have my: "myproc s = Ok pr" using run by (simp add: myproc_def running_def)
  have e: "nread ?q = nwrite ?q \<longleftrightarrow> pipe_queue pi s = []"
    using length_ring_contents [of PIPESIZE "pdata ?q" "nread ?q" "nwrite ?q"]
    by (auto simp: pipe_queue_def simp del: length_ring_contents)
      (metis length_ring_contents list.size(3) unat_eq_0 right_minus_eq)
  show ?thesis
  proof (cases "nread ?q = nwrite ?q \<and> writeopen ?q")
    case True
    then show ?thesis using my inv e by (auto simp: piperead_def user_bytes_def ubytes_def lost_byte_def)
  next
    case False
    obtain s1 m l where R: "piperead pi addr n s = Ok (int m, wakeup (Chan_pipe_write (unat pi)) s1)"
      "proc s1 = proc s" "cpu_proc s1 = cpu_proc s" "pipes s1 pi = popped (m + l) (pipes s pi)" "pipe_ok pi s1"
      "pipe_queue pi s1 = drop (m + l) (pipe_queue pi s)" "read_end pi addr pr s (nat n) m l"
      "user_bytes s1 ?pt addr m = take m (pipe_queue pi s)"
      using piperead_ok [OF run ok good False] by blast
    define s' where "s' = wakeup (Chan_pipe_write (unat pi)) s1"
    have p: "pipes s' pi = pipes s1 pi" by (simp add: s'_def)
    have q: "pipe_queue pi s' = drop (m + l) (pipe_queue pi s)" "pipe_ok pi s'" using pipe_same [OF p] R(5,6) by simp_all
    have "user_bytes s' ?pt addr m = user_bytes s1 ?pt addr m" by (rule user_bytes_phys) (simp add: s'_def)
    then have "(user_bytes s' ?pt addr (nat (int m)) @ lost_byte pi s pr addr n (int m) s') @ pipe_queue pi s' =
        take (m + l) (pipe_queue pi s) @ drop (m + l) (pipe_queue pi s)"
      using read_end_lost [OF R(7) ok, of s'] R(4) R(8) p q(1) by simp
    then have b: "pipe_queue pi s = (user_bytes s' ?pt addr (nat (int m)) @ lost_byte pi s pr addr n (int m) s') @ pipe_queue pi s'"
      by (simp only: append_take_drop_id)
    have "running s1 pr" using run R(2,3) by (simp add: running_def)
    then have sl: "sleeps ch s' i \<longleftrightarrow> sleeps ch s i \<and> ch \<noteq> Chan_pipe_write (unat pi)" for ch i
      using sleeps_wakeup [of s1 pr] sleeps_proc [of s1 s] R(2) by (simp add: s'_def)
    have "pipe_wait pi s'"
    proof (rule pipe_waitI)
      fix i assume "sleeps (Chan_pipe_read (unat pi)) s' i"
      then have "pipe_queue pi s = []" "writeopen ?q" using pipe_waitD(1) [OF wait] sl by auto
      then show "pipe_queue pi s' = [] \<and> writeopen (pipes s' pi)" using False e by simp
    qed (use sl in auto)
    then show ?thesis using R(1) b q(2) by (auto simp: pipe_inv_def s'_def)
  qed
qed

lemma close_keeps:
  assumes run: "running s pr" and inv: "pipe_inv pi s" and c: "pipeclose pi wr s = Ok s'"
    and o: "readopen (pipes s' pi) \<or> writeopen (pipes s' pi)"
  shows "pipe_inv pi s' \<and> pipe_queue pi s' = pipe_queue pi s"
proof -
  define ch where "ch = (if wr then Chan_pipe_read (unat pi) else Chan_pipe_write (unat pi))"
  define f :: "pipe \<Rightarrow> pipe" where "f = (if wr then writeopen_update (\<lambda>_. False) else readopen_update (\<lambda>_. False))"
  have s': "s' = wakeup ch (upd_pipe pi f s)"
    using c o by (auto simp: pipeclose_def ch_def f_def kfree_def Let_def split: if_splits)
  have p: "pipes s' pi = f (pipes s pi)" by (simp add: s')
  then have q: "pipe_queue pi s' = pipe_queue pi s" "pipe_ok pi s' = pipe_ok pi s"
    by (simp_all add: pipe_queue_def pipe_ok_def f_def)
  have "running (upd_pipe pi f s) pr" using run by (simp add: running_def)
  then have sl: "sleeps ch' s' i \<longleftrightarrow> sleeps ch' s i \<and> ch' \<noteq> ch" for ch' i
    using sleeps_wakeup [of "upd_pipe pi f s" pr] sleeps_proc [of "upd_pipe pi f s" s] by (simp add: s')
  have "pipe_wait pi s'"
    using inv by (intro pipe_waitI) (auto simp: sl q p f_def ch_def pipe_inv_def split: if_splits dest: pipe_waitD)
  then show ?thesis using inv q by (simp add: pipe_inv_def)
qed

lemma sleep_on_keeps:
  assumes "pipe_inv pi s" and "p < length (proc s)"
    and "ch = Chan_pipe_read (unat pi) \<Longrightarrow> pipe_queue pi s = [] \<and> writeopen (pipes s pi)"
    and "ch = Chan_pipe_write (unat pi) \<Longrightarrow> length (pipe_queue pi s) = PIPESIZE \<and> readopen (pipes s pi)"
  shows "pipe_inv pi (sleep_on ch p s) \<and> pipe_queue pi (sleep_on ch p s) = pipe_queue pi s"
proof -
  have q: "pipe_queue pi (sleep_on ch p s) = pipe_queue pi s" "pipe_ok pi (sleep_on ch p s) = pipe_ok pi s"
    using pipe_same [of "sleep_on ch p s" pi s] by simp_all
  have "pipe_wait pi (sleep_on ch p s)"
    using assms by (intro pipe_waitI) (auto simp: sleeps_sleep_on q pipe_inv_def split: if_splits dest: pipe_waitD)
  then show ?thesis using assms(1) q by (simp add: pipe_inv_def)
qed

lemma pipe_step_keeps:
  assumes "pipe_step pi s i out s'" and "pipe_inv pi s"
  shows "pipe_inv pi s' \<and> pipe_queue pi s @ i = out @ pipe_queue pi s'"
  using assms
proof (induction rule: pipe_step.induct)
  case (write_ret s pr addr i k v s' bs)
  then show ?case using write_keeps(1,2) [OF write_ret(1,5,4,2,3)] by simp
next
  case (write_sleep s pr addr i k j s' bs)
  note K = write_keeps [OF write_sleep(1,5,4,2,3)]
  have "pr < length (proc s')" using write_sleep(1) K(3) by (simp add: running_def)
  then show ?case using sleep_on_keeps [OF K(1), of pr "Chan_pipe_write (unat pi)"] K(2,4) by auto
next
  case (read_ret s pr n addr r s' bs)
  then show ?case using read_keeps [OF read_ret(1,5,2), of addr] by auto
next
  case (read_sleep s pr n addr)
  then show ?case using read_keeps [OF read_sleep(1,4,2), of addr] sleep_on_keeps [OF read_sleep(4), of pr "Chan_pipe_read (unat pi)"]
    by (auto simp: running_def)
next
  case (close_step s pr wr s')
  then show ?case using close_keeps [OF close_step(1,4,2,3)] by simp
next
  case (other_step s' s)
  have "pipe_wait pi s'"
    using other_step pipe_same [OF other_step(1)] by (intro pipe_waitI) (metis pipe_inv_def pipe_waitD)+
  then show ?case using other_step pipe_same [OF other_step(1)] by (simp add: pipe_inv_def)
qed

interpretation pq: byte_queue PIPESIZE "pipe_inv pi" "pipe_queue pi" "pipe_step pi" for pi
proof unfold_locales
  show "pipe_inv pi s \<Longrightarrow> length (pipe_queue pi s) \<le> PIPESIZE" for s
    unfolding pipe_inv_def by (elim conjE) (rule pipe_bound)
qed (use pipe_step_keeps in blast)+

lemma find_file_Some: "find_file i fs = Some f \<Longrightarrow> i \<le> f \<and> f < i + length fs \<and> fref (fs ! (f - i)) = 0"
proof (induction fs arbitrary: i)
  case (Cons x fs)
  then show ?case by (fastforce simp: nth_Cons' split: if_splits)
qed simp

lemma filealloc_Some: "filealloc s = (Some f, s') \<Longrightarrow> f < length (ftable s) \<and> length (ftable s') = length (ftable s)"
  using find_file_Some [of 0 "ftable s" f] by (auto simp: filealloc_def split: option.splits)

lemma kalloc_ftable: "kalloc s = (p, s') \<Longrightarrow> ftable s' = ftable s"
  by (auto simp: kalloc_def Let_def split: if_splits)

lemma pipealloc_fresh:
  assumes "pipealloc s0 = Ok (Some (f0, f1), s)" and "pi = fpipe (ftable s ! f0)"
    and "length (pdata (pipes s pi)) = PIPESIZE"
    and "\<And>i. \<not> sleeps (Chan_pipe_read (unat pi)) s i" "\<And>i. \<not> sleeps (Chan_pipe_write (unat pi)) s i"
  shows "pipe_inv pi s \<and> pipe_queue pi s = []"
proof -
  obtain x2 x3 x4 pg where a: "filealloc s0 = (Some f0, x2)" "filealloc x2 = (Some f1, x3)" "kalloc x3 = (pg, x4)"
    and s: "s = upd_file f1 (\<lambda>x. x\<lparr>ftype := FD_PIPE, readable := False, writable := True, fpipe := pg\<rparr>)
      (upd_file f0 (\<lambda>x. x\<lparr>ftype := FD_PIPE, readable := True, writable := False, fpipe := pg\<rparr>)
      (upd_pipe pg (\<lambda>x. x\<lparr>readopen := True, writeopen := True, nwrite := 0, nread := 0\<rparr>) x4))"
    using assms(1) by (auto simp: pipealloc_def Let_def bindR_eq_Ok split: option.splits prod.splits if_splits)
  have "f0 < length (ftable x4)" using filealloc_Some [OF a(1)] filealloc_Some [OF a(2)] kalloc_ftable [OF a(3)] by simp
  then have "pi = pg" using assms(2) by (cases "f0 = f1") (simp_all add: s)
  then have "nread (pipes s pi) = 0 \<and> nwrite (pipes s pi) = 0" by (simp add: s)
  then show ?thesis using assms(3-5) by (auto simp: pipe_inv_def pipe_ok_def pipe_queue_def ring_ok_def pipe_wait_def)
qed

section \<open>Results\<close>


text \<open>C0.  A read into unmapped memory loses a byte (\<open>piperead\<close> of \<^verbatim>\<open>kernel/pipe.c\<close>): if \<open>j\<close> bytes of the buffer
  are mapped and the next is not, and more than \<open>j\<close> bytes are asked for and waiting, then \<open>piperead\<close> returns \<open>j\<close>
  and delivers \<open>j\<close> bytes, but takes \<open>j + 1\<close> out of the pipe.\<close>

theorem piperead_fault:
  assumes "running s pr" and "pipe_ok pi s" and "reader_ok s pr n"
    and j: "j < nat n" "j < length (pipe_queue pi s)"
    and "\<forall>t<j. ubyte s (pagetable (proc s ! pr)) (addr + of_nat t) \<noteq> None"
    and "ubyte s (pagetable (proc s ! pr)) (addr + of_nat j) = None"
  shows "\<exists>s'. piperead pi addr n s = Ok (int j, s') \<and>
    user_bytes s' (pagetable (proc s ! pr)) addr j = take j (pipe_queue pi s) \<and>
    pipe_queue pi s' = drop (Suc j) (pipe_queue pi s)"
proof -
  have "nread (pipes s pi) \<noteq> nwrite (pipes s pi)" using j(2) by (auto simp: pipe_queue_def)
  then obtain s1 m l where R: "piperead pi addr n s = Ok (int m, wakeup (Chan_pipe_write (unat pi)) s1)"
    "pipe_queue pi s1 = drop (m + l) (pipe_queue pi s)" "read_end pi addr pr s (nat n) m l"
    "user_bytes s1 (pagetable (proc s ! pr)) addr m = take m (pipe_queue pi s)"
    using piperead_ok [OF assms(1-3), of addr] by blast
  have "m \<le> j" using R(3) assms(7) by (meson not_le read_end_def)
  moreover have "l \<noteq> 0"
  proof
    assume "l = 0"
    then have "m = min (nat n) (length (pipe_queue pi s))" using R(3) by (simp add: read_end_def)
    then show False using j \<open>m \<le> j\<close> by simp
  qed
  ultimately have ml: "m = j" "l = 1" using R(3) assms(6) by (auto simp: read_end_def le_less)
  let ?s' = "wakeup (Chan_pipe_write (unat pi)) s1"
  have "pipe_queue pi ?s' = pipe_queue pi s1" using pipe_same [of ?s' pi s1] by simp
  moreover have "user_bytes ?s' pt addr m = user_bytes s1 pt addr m" for pt by (rule user_bytes_phys) simp
  ultimately show ?thesis using R ml by auto
qed

text \<open>C27. No wake-up is lost on a pipe: after any such sequence, a process that sleeps in \<open>piperead\<close> waits
  on an empty pipe whose write end is open, and a process that sleeps in \<open>pipewrite\<close> waits on a full
  pipe whose read end is open.\<close>

theorem pipe_no_lost_wakeup:
  assumes "pipe_inv pi s" and "runs (pipe_step pi) s i out s'"
  shows "(sleeps (Chan_pipe_read (unat pi)) s' p \<longrightarrow> pipe_queue pi s' = [] \<and> writeopen (pipes s' pi)) \<and>
    (sleeps (Chan_pipe_write (unat pi)) s' p \<longrightarrow>
      length (pipe_queue pi s') = PIPESIZE \<and> readopen (pipes s' pi))"
proof -
  have "pipe_wait pi s'" using pq.runs_fifo [OF assms(2,1)] by (simp add: pipe_inv_def)
  then show ?thesis using pipe_waitD by blast
qed

text \<open>A machine where process 0 runs in the address space of \<open>user_demo\<close> and process 1 sleeps in a read.\<close>

definition pipe_demo :: filest where
  "pipe_demo = bss\<lparr>phys := phys user_demo, cpu_proc := Some 0,
     proc := [zero_proc\<lparr>pstate := RUNNING, pagetable := 0x87FF0000\<rparr>,
       zero_proc\<lparr>pstate := SLEEPING, chan := Some (Chan_pipe_read 0)\<rparr>],
     pipes := (\<lambda>_. zero_pipe\<lparr>readopen := True, writeopen := True\<rparr>)\<rparr>"

lemma pipe_demo_inv: "pipe_inv 0 pipe_demo" "pipe_queue 0 pipe_demo = []" "running pipe_demo 0"
  "sleeps (Chan_pipe_read 0) pipe_demo 1"
  by (auto simp: pipe_demo_def pipe_inv_def pipe_ok_def ring_ok_def pipe_queue_def pipe_wait_def sleeps_def
      running_def zero_pipe_def less_Suc_eq)

text \<open>Process 0 writes two bytes, which wakes process 1.\<close>

lemma pipe_demo_write:
  "\<exists>s'. pipewrite_run 0 0x10 0 0 2 pipe_demo = Ok (Inl 2, s') \<and>
    runs (pipe_step 0) pipe_demo (user_bytes pipe_demo 0x87FF0000 0x10 2) [] s'"
proof -
  have ok: "pipe_ok 0 pipe_demo" using pipe_demo_inv(1) by (simp add: pipe_inv_def)
  have pt: "pagetable (proc pipe_demo ! 0) = 0x87FF0000" "killed (proc pipe_demo ! 0) = 0"
    "readopen (pipes pipe_demo 0)" "nwrite (pipes pipe_demo 0) = 0"
    by (simp_all add: pipe_demo_def zero_proc_def zero_pipe_def)
  have u: "ubytes pipe_demo pt va n = ubytes user_demo pt va n" for pt va n
    by (rule view_phys(2)) (simp add: pipe_demo_def)
  have mapped: "ubyte pipe_demo 0x87FF0000 (0x10 + of_nat j) \<noteq> None" if "j < 2" for j
    using user_demo_mapped that ubytes_None [of pipe_demo "0x87FF0000" "0x10" 2]
    by (auto simp: u numeral_2_eq_2)
  obtain res m p' where R: "m \<le> 2" "pipewrite_run 0 0x10 0 0 2 pipe_demo = Ok (res, if res = Inl (-1) then pipe_demo else
      wakeup (Chan_pipe_read (unat (0 :: uint64))) (pipe_demo\<lparr>pipes := (pipes pipe_demo)(0 := p')\<rparr>))"
    "pipe_queue 0 (pipe_demo\<lparr>pipes := (pipes pipe_demo)(0 := p')\<rparr>) =
      pipe_queue 0 pipe_demo @ user_bytes pipe_demo 0x87FF0000 (0x10 + of_nat 0) m"
    "nwrite p' = 0 + of_nat m"
    "write_end 0 0x10 0 0 2 m pipe_demo res (pipe_demo\<lparr>pipes := (pipes pipe_demo)(0 := p')\<rparr>)"
    using pipewrite_run_ok [OF ok, of 2 "0x10" 0 0] unfolding pt by blast
  have "length (pipe_queue 0 (pipe_demo\<lparr>pipes := (pipes pipe_demo)(0 := p')\<rparr>)) = m"
    using R(3) pipe_demo_inv(2) by (simp add: user_bytes_def ubytes_def)
  then have "res = Inl 2 \<and> m = 2"
    using R(1,5) pt mapped [of m] by (cases res) (auto simp: write_end_def PIPESIZE_def le_less)
  then obtain s' where s': "pipewrite_run 0 0x10 0 0 2 pipe_demo = Ok (Inl 2, s')" "nwrite (pipes s' 0) = 2"
    using R(2,4) by auto
  have "pipe_step 0 pipe_demo (user_bytes pipe_demo 0x87FF0000 0x10 2) [] s'"
    using s'(2) pt by (intro pipe_step.write_ret [OF pipe_demo_inv(3) s'(1)]) simp_all
  then have "runs (pipe_step 0) pipe_demo ([] @ user_bytes pipe_demo 0x87FF0000 0x10 2) ([] @ []) s'"
    by (rule runs.runs_step [OF runs.runs_refl])
  then show ?thesis using s'(1) by auto
qed


theorem pipe_no_lost_wakeup_witness:
  "sleeps (Chan_pipe_read 0) pipe_demo 1 \<and>
   (\<exists>s'. pipewrite_run 0 0x10 0 0 2 pipe_demo = Ok (Inl 2, s') \<and> \<not> sleeps (Chan_pipe_read 0) s' 1)"
proof -
  obtain s' where s': "pipewrite_run 0 0x10 0 0 2 pipe_demo = Ok (Inl 2, s')"
    "runs (pipe_step 0) pipe_demo (user_bytes pipe_demo 0x87FF0000 0x10 2) [] s'"
    using pipe_demo_write by blast
  have "pipe_queue 0 s' \<noteq> []"
    using pq.runs_fifo [OF s'(2) pipe_demo_inv(1)] pipe_demo_inv(2) by (auto simp: user_bytes_def ubytes_def)
  then show ?thesis using pipe_no_lost_wakeup [OF pipe_demo_inv(1) s'(2), of 1] s'(1) pipe_demo_inv(4) by auto
qed

theorem piperead_fault_witness:
  "\<exists>(s :: filest) s'. length (pipe_queue 0 s) = 2 \<and> piperead 0 0x1000 1 s = Ok (0, s') \<and> length (pipe_queue 0 s') = 1"
proof -
  obtain s where s: "pipewrite_run 0 0x10 0 0 2 pipe_demo = Ok (Inl 2, s)"
    "runs (pipe_step 0) pipe_demo (user_bytes pipe_demo 0x87FF0000 0x10 2) [] s"
    using pipe_demo_write by blast
  have e: "pipe_queue 0 s = user_bytes pipe_demo 0x87FF0000 0x10 2"
    using pq.runs_fifo [OF s(2) pipe_demo_inv(1)] pipe_demo_inv(2) by simp
  have q: "length (pipe_queue 0 s) = 2" "pipe_ok 0 s"
    using pq.runs_fifo [OF s(2) pipe_demo_inv(1)] unfolding e by (simp_all add: user_bytes_def ubytes_def pipe_inv_def)
  have "pipe_ok 0 pipe_demo" using pipe_demo_inv(1) by (simp add: pipe_inv_def)
  then obtain p' where "s = wakeup (Chan_pipe_read (unat (0 :: uint64))) (pipe_demo\<lparr>pipes := (pipes pipe_demo)(0 := p')\<rparr>)"
    using pipewrite_run_ok [of 0 pipe_demo 2 "0x10" 0 0] s(1) by auto
  then have s_eq: "running s 0" "pagetable (proc s ! 0) = 0x87FF0000" "phys s = phys user_demo"
    using pipe_demo_inv(3) by (auto simp: running_def wakeup_def Let_def pipe_demo_def)
  have "reader_ok s 0 1" using user_demo_ok view_phys(4) [OF s_eq(3)] s_eq(2) by (simp add: reader_ok_def)
  moreover have "ubyte s 0x87FF0000 0x1000 = None"
    unfolding view_phys(1) [OF s_eq(3)] by (simp add: ubyte_walk user_demo_walkaddr) (simp add: pg_def)
  ultimately obtain s' where "piperead 0 0x1000 1 s = Ok (0, s')" "pipe_queue 0 s' = drop 1 (pipe_queue 0 s)"
    using piperead_fault [of s 0 0 1 0 "0x1000"] s_eq q by auto
  then show ?thesis using q(1) by (intro exI [of _ s] exI [of _ s']) simp
qed

end
