(* ===== verification/Ulib.thy ===== *)
theory Ulib
  imports Console
begin

text \<open>
  The user library: strings and memory of \<^verbatim>\<open>user/ulib.c\<close> and formatted output of
  \<^verbatim>\<open>user/printf.c\<close>, with the reads of a user program.  A C string that is only read is the list
  of its bytes before the NUL; code that writes through pointers works on byte memory.
\<close>

section \<open>Strings\<close>

definition is_cstr :: "memory \<Rightarrow> uint64 \<Rightarrow> byte list \<Rightarrow> bool" where
  "is_cstr m a str \<longleftrightarrow> 0 \<notin> set str \<and> load_bytes m a (Suc (length str)) = str @ [0]"

text \<open>\<open>strcpy\<close>; \<open>None\<close> when the source has no NUL.\<close>

partial_function (option) strcpy :: "memory \<Rightarrow> uint64 \<Rightarrow> uint64 \<Rightarrow> memory option" where
  "strcpy m s t =
     (let m' = m(s := m t) in if m' s \<noteq> 0 then strcpy m' (s + 1) (t + 1) else Some m')"

fun strcmp :: "byte list \<Rightarrow> byte list \<Rightarrow> int" where
  "strcmp (p # ps) (q # qs) = (if p = q then strcmp ps qs else uint p - uint q)"
| "strcmp (p # ps) [] = uint p"
| "strcmp [] (q # qs) = - uint q"
| "strcmp [] [] = 0"

text \<open>\<open>strchr\<close>: the index of the first occurrence.\<close>

fun strchr :: "byte list \<Rightarrow> byte \<Rightarrow> nat option" where
  "strchr [] c = None"
| "strchr (x # s) c =
     (if x = 0 then None else if x = c then Some 0 else map_option Suc (strchr s c))"

text \<open>\<open>atoi\<close> in 32-bit arithmetic; \<open>'0'\<close> is 48 and \<open>'9'\<close> 57.\<close>

fun atoi_loop :: "uint \<Rightarrow> byte list \<Rightarrow> uint" where
  "atoi_loop n [] = n"
| "atoi_loop n (c # s) = (if 48 \<le> c \<and> c \<le> 57 then atoi_loop (n * 10 + ucast c - 48) s else n)"

definition atoi :: "byte list \<Rightarrow> uint" where
  "atoi s = atoi_loop 0 s"

section \<open>Memory\<close>

fun umemmove_up :: "memory \<Rightarrow> uint64 \<Rightarrow> uint64 \<Rightarrow> nat \<Rightarrow> memory" where
  "umemmove_up m dst src 0 = m"
| "umemmove_up m dst src (Suc n) = umemmove_up (m(dst := m src)) (dst + 1) (src + 1) n"

fun umemmove_down :: "memory \<Rightarrow> uint64 \<Rightarrow> uint64 \<Rightarrow> nat \<Rightarrow> memory" where
  "umemmove_down m dst src 0 = m"
| "umemmove_down m dst src (Suc n) = umemmove_down (m(dst - 1 := m (src - 1))) (dst - 1) (src - 1) n"

definition umemmove :: "memory \<Rightarrow> uint64 \<Rightarrow> uint64 \<Rightarrow> nat \<Rightarrow> memory" where
  "umemmove m vdst vsrc n =
     (if vsrc > vdst then umemmove_up m vdst vsrc n
      else umemmove_down m (vdst + of_nat n) (vsrc + of_nat n) n)"

definition umemcpy :: "memory \<Rightarrow> uint64 \<Rightarrow> uint64 \<Rightarrow> nat \<Rightarrow> memory" where
  "umemcpy m dst src n = umemmove m dst src n"

fun umemset_loop :: "memory \<Rightarrow> uint64 \<Rightarrow> byte \<Rightarrow> nat \<Rightarrow> memory" where
  "umemset_loop m cdst c 0 = m"
| "umemset_loop m cdst c (Suc n) = umemset_loop (m(cdst := c)) (cdst + 1) c n"

definition umemset :: "memory \<Rightarrow> uint64 \<Rightarrow> int \<Rightarrow> nat \<Rightarrow> memory" where
  "umemset m dst c n = umemset_loop m dst (word_of_int c) n"

text \<open>\<open>memcmp\<close> subtracts \<open>char\<close>s, which are unsigned on RISC-V.\<close>

fun umemcmp :: "memory \<Rightarrow> uint64 \<Rightarrow> uint64 \<Rightarrow> nat \<Rightarrow> int" where
  "umemcmp m p1 p2 0 = 0"
| "umemcmp m p1 p2 (Suc n) =
     (if m p1 \<noteq> m p2 then uint (m p1) - uint (m p2) else umemcmp m (p1 + 1) (p2 + 1) n)"

section \<open>Reading\<close>

text \<open>
  The answers of \<open>read\<close> on a file descriptor, in order: \<open>Some bs\<close> delivers bytes (\<open>Some []\<close> is the end
  of the file) and \<open>None\<close> is the error -1.  A call for \<open>n\<close> bytes gets at most \<open>n\<close>, and the rest of
  an answer is there for the next call.
\<close>

type_synonym input = "byte list option list"

fun uread :: "nat \<Rightarrow> input \<Rightarrow> byte list option \<times> input" where
  "uread n [] = (Some [], [])"
| "uread n (None # rs) = (None, rs)"
| "uread n (Some bs # rs) =
     (if length bs \<le> n then (Some bs, rs) else (Some (take n bs), Some (drop n bs) # rs))"

definition input_size :: "input \<Rightarrow> nat" where
  "input_size rs = (\<Sum>r\<leftarrow>rs. case r of None \<Rightarrow> 1 | Some bs \<Rightarrow> Suc (length bs))"

lemma uread_smaller: "uread n rs = (Some (c # cs), rs') \<Longrightarrow> input_size rs' < input_size rs"
proof (induction n rs rule: uread.induct)
  case (3 n bs rs)
  then have "0 < n \<or> length bs \<le> n" by (cases n) (auto split: if_splits)
  then show ?case using 3 by (auto simp: input_size_def split: if_splits)
qed (auto simp: input_size_def)

text \<open>\<open>gets\<close>: the bytes stored before the NUL and the rest of the input.\<close>

fun gets_loop :: "nat \<Rightarrow> input \<Rightarrow> byte list \<times> input" where
  "gets_loop 0 rs = ([], rs)"
| "gets_loop (Suc k) rs =
     (case uread 1 rs of
        (Some (c # _), rs) \<Rightarrow>
          if c = 10 \<or> c = 13 then ([c], rs)
          else (case gets_loop k rs of (bs, rs) \<Rightarrow> (c # bs, rs))
      | (_, rs) \<Rightarrow> ([], rs))"

definition gets :: "nat \<Rightarrow> input \<Rightarrow> byte list \<times> input" where
  "gets mx rs = gets_loop (mx - 1) rs"

section \<open>Formatted output\<close>

definition udigit :: "nat \<Rightarrow> byte" where
  "udigit n = bytes ''0123456789ABCDEF'' ! n"

text \<open>The contents of \<open>buf\<close> in \<open>printint\<close>, and the characters it puts out.\<close>

definition uprintint_buf :: "uint \<Rightarrow> nat \<Rightarrow> bool \<Rightarrow> byte list" where
  "uprintint_buf xx bs sg =
     (let neg = (sg \<and> xx <s 0);
          x = (if neg then - xx else xx)
      in map udigit (int_digits bs (unat x)) @ (if neg then [45] else []))"

definition uprintint :: "uint \<Rightarrow> nat \<Rightarrow> bool \<Rightarrow> byte list" where
  "uprintint xx bs sg = rev (uprintint_buf xx bs sg)"

definition uprintptr :: "uint64 \<Rightarrow> byte list" where
  "uprintptr x = [48, 120] @ map (\<lambda>i. udigit (unat (drop_bit 60 (push_bit (4 * i) x)))) [0..<16]"

text \<open>\<open>vprintf\<close>; \<open>st\<close> is the variable \<open>state\<close>, true when a \<open>%\<close> has been read.\<close>

fun vprintf :: "bool \<Rightarrow> byte list \<Rightarrow> arg list \<Rightarrow> byte list" where
  "vprintf st [] ap = []"
| "vprintf False (c # fmt) ap = (if c = 37 then vprintf True fmt ap else c # vprintf False fmt ap)"
| "vprintf True (c # fmt) ap =
     (if c = 100 then (case va_int ap of (v, ap) \<Rightarrow> uprintint v 10 True @ vprintf False fmt ap)
      else if c = 108 then (case va_ptr ap of (v, ap) \<Rightarrow> uprintint (ucast v) 10 False @ vprintf False fmt ap)
      else if c = 120 then (case va_int ap of (v, ap) \<Rightarrow> uprintint v 16 False @ vprintf False fmt ap)
      else if c = 112 then (case va_ptr ap of (v, ap) \<Rightarrow> uprintptr v @ vprintf False fmt ap)
      else if c = 115 then (case va_str ap of (v, ap) \<Rightarrow>
        (case v of None \<Rightarrow> bytes ''(null)'' | Some str \<Rightarrow> str) @ vprintf False fmt ap)
      else if c = 99 then (case va_int ap of (v, ap) \<Rightarrow> ucast v # vprintf False fmt ap)
      else if c = 37 then 37 # vprintf False fmt ap
      else 37 # c # vprintf False fmt ap)"

end
