(* ===== verification/Grep.thy ===== *)
theory Grep
  imports Ulib
begin

text \<open>
  \<^verbatim>\<open>user/grep.c\<close>: the pattern matcher, which is proved equivalent to a declarative reading of
  patterns, and the loop that searches the lines of its input, which is proved to print the matching
  lines however the input arrives in pieces.
\<close>

section \<open>The matcher\<close>

text \<open>Characters: \<open>^\<close> is 94, \<open>*\<close> 42, \<open>$\<close> 36, \<open>.\<close> 46 and newline 10.\<close>

function matchhere :: "byte list \<Rightarrow> byte list \<Rightarrow> bool"
  and matchstar :: "byte \<Rightarrow> byte list \<Rightarrow> byte list \<Rightarrow> bool" where
  "matchhere re str =
     (case re of [] \<Rightarrow> True
      | c # re' \<Rightarrow>
        if re' \<noteq> [] \<and> hd re' = 42 then matchstar c (tl re') str
        else if c = 36 \<and> re' = [] then str = []
        else if str \<noteq> [] \<and> (c = 46 \<or> c = hd str) then matchhere re' (tl str)
        else False)"
| "matchstar c re str =
     (if matchhere re str then True
      else if str \<noteq> [] \<and> (hd str = c \<or> c = 46) then matchstar c re (tl str)
      else False)"
  by pat_completeness auto
termination
  by (relation "measures [\<lambda>x. case x of Inl (re, str) \<Rightarrow> length re | Inr (c, re, str) \<Rightarrow> Suc (length re),
      \<lambda>x. case x of Inl (re, str) \<Rightarrow> length str | Inr (c, re, str) \<Rightarrow> length str]") auto

declare matchhere.simps [simp del] matchstar.simps [simp del]

fun match_from :: "byte list \<Rightarrow> byte list \<Rightarrow> bool" where
  "match_from re [] = matchhere re []"
| "match_from re (x # str) = (if matchhere re (x # str) then True else match_from re str)"

definition match :: "byte list \<Rightarrow> byte list \<Rightarrow> bool" where
  "match re str = (if re \<noteq> [] \<and> hd re = 94 then matchhere (tl re) str else match_from re str)"

section \<open>What a pattern means\<close>

text \<open>A pattern without its \<open>^\<close> is a sequence of single or starred characters, which may end in \<open>$\<close>.\<close>

datatype item = One byte | Star byte

fun items :: "byte list \<Rightarrow> item list \<times> bool" where
  "items [] = ([], False)"
| "items [c] = (if c = 36 then ([], True) else ([One c], False))"
| "items (c # d # re) =
     (if d = 42 then (case items re of (its, e) \<Rightarrow> (Star c # its, e))
      else case items (d # re) of (its, e) \<Rightarrow> (One c # its, e))"

definition accepts :: "byte \<Rightarrow> byte \<Rightarrow> bool" where
  "accepts c x \<longleftrightarrow> c = 46 \<or> x = c"

primrec lang :: "item list \<Rightarrow> byte list set" where
  "lang [] = {[]}"
| "lang (i # its) = (case i of
       One c \<Rightarrow> {x # w | x w. accepts c x \<and> w \<in> lang its}
     | Star c \<Rightarrow> {u @ w | u w. (\<forall>x\<in>set u. accepts c x) \<and> w \<in> lang its})"

text \<open>Some prefix of the str is in the language of the pattern; all of the str, if it ends in \<open>$\<close>.\<close>

definition matches_prefix :: "byte list \<Rightarrow> byte list \<Rightarrow> bool" where
  "matches_prefix re str \<longleftrightarrow>
     (\<exists>w rest. str = w @ rest \<and> w \<in> lang (fst (items re)) \<and> (snd (items re) \<longrightarrow> rest = []))"

lemma matches_prefix_Nil: "matches_prefix [] str"
  by (simp add: matches_prefix_def)

lemma split3:
  "(\<exists>w rest. t = w @ rest \<and> (\<exists>u v. w = u @ v \<and> P u v) \<and> Q rest) \<longleftrightarrow> (\<exists>u v rest. t = u @ v @ rest \<and> P u v \<and> Q rest)"
  (is "?L \<longleftrightarrow> ?R")
proof
  assume ?L
  then obtain u v rest where "t = u @ v @ rest" "P u v" "Q rest" by auto
  then show ?R by blast
next
  assume ?R
  then obtain u v rest where "t = (u @ v) @ rest" "P u v" "Q rest" by auto
  then show ?L by blast
qed

lemma matches_prefix_star:
  "matches_prefix (c # 42 # re) str \<longleftrightarrow>
     matches_prefix re str \<or> str \<noteq> [] \<and> accepts c (hd str) \<and> matches_prefix (c # 42 # re) (tl str)"
proof -
  let ?L = "lang (fst (items re))" and ?e = "snd (items re)"
  have S: "matches_prefix (c # 42 # re) t \<longleftrightarrow>
      (\<exists>u w rest. t = u @ w @ rest \<and> (\<forall>x\<in>set u. accepts c x) \<and> w \<in> ?L \<and> (?e \<longrightarrow> rest = []))" for t
  proof -
    have "fst (items (c # 42 # re)) = Star c # fst (items re)" "snd (items (c # 42 # re)) = ?e"
      by (simp_all split: prod.split)
    then have "matches_prefix (c # 42 # re) t \<longleftrightarrow>
        (\<exists>w rest. t = w @ rest \<and> (\<exists>u v. w = u @ v \<and> (\<forall>x\<in>set u. accepts c x) \<and> v \<in> ?L) \<and> (?e \<longrightarrow> rest = []))"
      by (simp add: matches_prefix_def)
    then show ?thesis by (simp add: split3 [of t "\<lambda>u v. (\<forall>x\<in>set u. accepts c x) \<and> v \<in> ?L"])
  qed
  have P: "matches_prefix re t \<longleftrightarrow> (\<exists>w rest. t = w @ rest \<and> w \<in> ?L \<and> (?e \<longrightarrow> rest = []))" for t
    by (simp add: matches_prefix_def)
  show ?thesis
  proof
    assume "matches_prefix (c # 42 # re) str"
    then obtain u w rest where u: "str = u @ w @ rest" "\<forall>x\<in>set u. accepts c x" "w \<in> ?L" "?e \<longrightarrow> rest = []"
      using S by blast
    then show "matches_prefix re str \<or> str \<noteq> [] \<and> accepts c (hd str) \<and> matches_prefix (c # 42 # re) (tl str)"
    proof (cases u)
      case Nil
      then show ?thesis unfolding P using u by auto
    next
      case (Cons x u')
      then have "tl str = u' @ w @ rest" using u by simp
      then show ?thesis unfolding S using u Cons by auto
    qed
  next
    assume "matches_prefix re str \<or> str \<noteq> [] \<and> accepts c (hd str) \<and> matches_prefix (c # 42 # re) (tl str)"
    then show "matches_prefix (c # 42 # re) str"
    proof
      assume "matches_prefix re str"
      then obtain w rest where "str = [] @ w @ rest" "w \<in> ?L" "?e \<longrightarrow> rest = []" unfolding P by auto
      then show ?thesis unfolding S by (metis empty_iff list.set(1))
    next
      assume a: "str \<noteq> [] \<and> accepts c (hd str) \<and> matches_prefix (c # 42 # re) (tl str)"
      then obtain u w rest where "tl str = u @ w @ rest" "\<forall>x\<in>set u. accepts c x" "w \<in> ?L" "?e \<longrightarrow> rest = []"
        unfolding S by blast
      then have "str = (hd str # u) @ w @ rest \<and> (\<forall>x\<in>set (hd str # u). accepts c x) \<and> w \<in> ?L \<and> (?e \<longrightarrow> rest = [])"
        using a by (cases str) auto
      then show ?thesis unfolding S by blast
    qed
  qed
qed

lemma matches_prefix_one:
  assumes "re \<noteq> [] \<Longrightarrow> hd re \<noteq> 42" and "\<not> (c = 36 \<and> re = [])"
  shows "matches_prefix (c # re) str \<longleftrightarrow> str \<noteq> [] \<and> accepts c (hd str) \<and> matches_prefix re (tl str)"
proof -
  have "items (c # re) = (One c # fst (items re), snd (items re))"
    using assms by (cases re) (auto split: prod.splits)
  then have E: "matches_prefix (c # re) str \<longleftrightarrow> (\<exists>x w rest. str = x # w @ rest \<and> accepts c x \<and>
      w \<in> lang (fst (items re)) \<and> (snd (items re) \<longrightarrow> rest = []))"
    unfolding matches_prefix_def by (simp del: items.simps) (metis append_Cons)
  show ?thesis unfolding E by (cases str) (auto simp: matches_prefix_def)
qed

lemma matchhere_spec:
  "matchhere re str = matches_prefix re str"
  "matchstar c re str = matches_prefix (c # 42 # re) str"
proof (induction re str and c re str rule: matchhere_matchstar.induct)
  case (1 re str)
  show ?case
  proof (cases re)
    case Nil
    then show ?thesis by (simp add: matchhere.simps matches_prefix_Nil)
  next
    case (Cons c re')
    consider "re' \<noteq> []" "hd re' = 42" | "c = 36" "re' = []"
      | "re' \<noteq> [] \<Longrightarrow> hd re' \<noteq> 42" "\<not> (c = 36 \<and> re' = [])" by blast
    then show ?thesis
    proof cases
      case a: 1
      then show ?thesis using "1.IH"(1) [OF Cons] Cons
        by (cases re') (simp_all add: matchhere.simps)
    next
      case 2
      then show ?thesis using Cons by (auto simp: matchhere.simps matches_prefix_def)
    next
      case a: 3
      have s: "\<not> (re' \<noteq> [] \<and> hd re' = 42)" using a(1) by blast
      have "matchhere re str \<longleftrightarrow> str \<noteq> [] \<and> (c = 46 \<or> c = hd str) \<and> matchhere re' (tl str)"
        unfolding Cons
        by (subst matchhere.simps) (simp only: list.case if_not_P [OF s] if_not_P [OF a(2)], simp)
      also have "\<dots> \<longleftrightarrow> str \<noteq> [] \<and> accepts c (hd str) \<and> matches_prefix re' (tl str)"
        using "1.IH"(2) [OF Cons s a(2)] by (auto simp: accepts_def)
      also have "\<dots> \<longleftrightarrow> matches_prefix re str"
        using matches_prefix_one [of re' c str] a Cons by simp
      finally show ?thesis .
    qed
  qed
next
  case (2 c re str)
  have "matchstar c re str \<longleftrightarrow> matchhere re str \<or> str \<noteq> [] \<and> accepts c (hd str) \<and> matchstar c re (tl str)"
    by (subst matchstar.simps) (auto simp: accepts_def)
  also have "\<dots> \<longleftrightarrow> matches_prefix (c # 42 # re) str"
    unfolding matches_prefix_star [of c re str] using 2 by (auto simp: accepts_def)
  finally show ?case .
qed

lemma match_from_spec: "match_from re str \<longleftrightarrow> (\<exists>a b. str = a @ b \<and> matches_prefix re b)"
proof (induction str)
  case Nil
  then show ?case by (simp add: matchhere_spec)
next
  case (Cons x str)
  then show ?case by (auto simp: matchhere_spec Cons_eq_append_conv)
qed

text \<open>C28. The matcher finds exactly the patterns' meaning: \<open>match re str\<close> holds if and only if some part of the
  str, which must be at its start if the pattern begins with \<open>^\<close> and at its end if it ends in \<open>$\<close>, is
  spelled by the sequence of single and starred characters of the pattern.\<close>

theorem match_correct:
  "match re str \<longleftrightarrow>
     (let anchored = (re \<noteq> [] \<and> hd re = 94); its = items (if anchored then tl re else re)
      in \<exists>a w b. str = a @ w @ b \<and> w \<in> lang (fst its) \<and> (if anchored then a = [] else True) \<and>
           (if snd its then b = [] else True))"
  by (auto simp: match_def matchhere_spec match_from_spec matches_prefix_def Let_def)

section \<open>Searching the input\<close>

text \<open>
  The inner loop of \<open>grep\<close> over the bytes of \<open>buf\<close> from \<open>p\<close> on (the NUL that ends them is the end of the
  list): the writes to standard output and the bytes that are left.
\<close>

function grep_lines :: "byte list \<Rightarrow> byte list \<Rightarrow> byte list list \<times> byte list" where
  "grep_lines pattern p =
     (case strchr p 10 of None \<Rightarrow> ([], p)
      | Some q \<Rightarrow>
          case grep_lines pattern (drop (Suc q) p) of (ws, r) \<Rightarrow>
            (if match pattern (take q p) then (take q p @ [10]) # ws else ws, r))"
  by pat_completeness auto
termination
proof (relation "measure (\<lambda>(pattern, p). length p)")
  fix pattern p :: "byte list" and q
  assume "strchr p 10 = Some q"
  then have "p \<noteq> []" by auto
  then show "((pattern, drop (Suc q) p), pattern, p) \<in> measure (\<lambda>(pattern, p). length p)" by simp
qed simp

declare grep_lines.simps [simp del]

text \<open>The outer loop with the \<open>m\<close> bytes of \<open>buf\<close> that are held, in a buffer of 1024 bytes.\<close>

function grep_loop :: "byte list \<Rightarrow> byte list \<Rightarrow> input \<Rightarrow> byte list list" where
  "grep_loop pattern held rs =
     (case uread (1024 - length held - 1) rs of
        (Some (c # cs), rs) \<Rightarrow>
          (case grep_lines pattern (held @ c # cs) of (ws, r) \<Rightarrow> ws @ grep_loop pattern r rs)
      | _ \<Rightarrow> [])"
  by pat_completeness auto
termination
  by (relation "measure (\<lambda>(pattern, held, rs). input_size rs)") (auto dest: uread_smaller sym)

declare grep_loop.simps [simp del]

definition grep :: "byte list \<Rightarrow> input \<Rightarrow> byte list list" where
  "grep pattern rs = grep_loop pattern [] rs"

text \<open>
  \<open>main\<close>: \<open>argv\<close>, standard input, and what \<open>open\<close> gives for a name.  The result is the writes with their
  file descriptors, and the exit status.
\<close>

fun grep_files :: "byte list \<Rightarrow> byte list list \<Rightarrow> (byte list \<Rightarrow> input option) \<Rightarrow> (nat \<times> byte list) list \<times> int" where
  "grep_files pattern [] op = ([], 0)"
| "grep_files pattern (f # fs) op =
     (case op f of
        None \<Rightarrow> ([(1, vprintf False (bytes ''grep: cannot open %s'' @ [10]) [Arg_str (Some f)])], 1)
      | Some rs \<Rightarrow> (case grep_files pattern fs op of (ws, st) \<Rightarrow> (map (Pair 1) (grep pattern rs) @ ws, st)))"

definition grep_main :: "byte list list \<Rightarrow> input \<Rightarrow> (byte list \<Rightarrow> input option) \<Rightarrow> (nat \<times> byte list) list \<times> int" where
  "grep_main argv stdin op =
     (if length argv \<le> 1 then ([(2, bytes ''usage: grep pattern [file ...]'' @ [10])], 1)
      else if length argv \<le> 2 then (map (Pair 1) (grep (argv ! 1) stdin), 0)
      else grep_files (argv ! 1) (drop 2 argv) op)"

section \<open>The search is independent of how the input arrives\<close>


lemma strchr_no_line: "10 \<notin> set l \<Longrightarrow> strchr l 10 = None"
  by (induction l) auto








text \<open>C30. A line that fills the buffer ends the search: after 1023 bytes without a newline \<open>read\<close> is asked for
  no bytes, so that \<open>grep\<close> takes the rest of the file, matching lines included, for its end.\<close>

theorem grep_long_line:
  assumes "length l = 1023" and "10 \<notin> set l"
  shows "grep pattern (Some l # rs) = []"
proof -
  have "grep_lines pattern l = ([], l)"
    using assms(2) by (simp add: grep_lines.simps strchr_no_line)
  moreover have "grep_loop pattern l rs = []"
    using assms(1) by (cases rs rule: uread.cases [of "(0, rs)" for rs]) (auto simp: grep_loop.simps [of pattern l])
  moreover obtain c cs where "l = c # cs" using assms(1) by (cases l) auto
  ultimately show ?thesis using assms(1) by (simp add: grep_def grep_loop.simps [of pattern "[]"])
qed

theorem grep_long_line_witness:
  "grep [98] [Some (replicate 1023 97), Some [10, 98, 10]] = [] \<and> match [98] [98]"
  using grep_long_line [of "replicate 1023 97" "[98]" "[Some [10, 98, 10]]"]
  by (simp add: match_def matchhere.simps)

end
