(* ===== verification/Sieve.thy ===== *)
theory Sieve
  imports Ulib
begin

text \<open>
  Two user programs that compute: the prime sieve of processes in \<^verbatim>\<open>user/primes.c\<close> and the random
  number generator of \<^verbatim>\<open>user/grind.c\<close>.
\<close>

section \<open>The sieve\<close>

text \<open>
  \<open>int c\<close> of which \<open>read\<close> fills the lowest byte; the other bytes keep what was on the stack.
\<close>

definition low_byte :: "uint \<Rightarrow> byte \<Rightarrow> uint" where
  "low_byte junk b = (junk AND NOT 0xFF) OR ucast b"

text \<open>
  The loop of the parent in \<open>primes\<close>, on the bytes that arrive: the bytes it passes on.  At the end of
  the pipe \<open>read\<close> returns 0 and leaves \<open>c\<close>, so that the loop goes on for ever (\<open>None\<close>).
\<close>

fun primes_loop :: "uint \<Rightarrow> uint \<Rightarrow> byte list \<Rightarrow> byte list option" where
  "primes_loop junk fnum [] = None"
| "primes_loop junk fnum (b # bs) =
     (let c = low_byte junk b
      in if c = 0 then Some [b]
         else map_option (\<lambda>ws. if sint c mod sint fnum \<noteq> 0 then b # ws else ws) (primes_loop junk fnum bs))"

lemma primes_loop_length: "primes_loop junk f bs = Some ws \<Longrightarrow> length ws \<le> length bs"
  by (induction bs arbitrary: ws) (fastforce simp: Let_def split: if_splits)+

text \<open>
  \<open>primes\<close>: the numbers printed by the process that reads \<open>inp\<close> and by its descendants; \<open>junk d\<close> is what
  the stack of the process at depth \<open>d\<close> held.
\<close>

function primes :: "(nat \<Rightarrow> uint) \<Rightarrow> nat \<Rightarrow> byte list \<Rightarrow> uint list option" where
  "primes junk d inp =
     (case inp of [] \<Rightarrow> None
      | b # bs \<Rightarrow>
        let c = low_byte (junk d) b
        in if c = 0 then Some []
           else case primes_loop (junk d) c bs of None \<Rightarrow> None
             | Some ws \<Rightarrow> map_option ((#) c) (primes junk (Suc d) ws))"
  by pat_completeness auto
termination
  by (relation "measure (\<lambda>(junk, d, inp). length inp)") (auto dest: primes_loop_length)

declare primes.simps [simp del]

definition primes_main :: "(nat \<Rightarrow> uint) \<Rightarrow> uint list option" where
  "primes_main junk = primes junk 0 (map of_nat [2..<32] @ [0])"

subsection \<open>It prints the primes\<close>













text \<open>C37. \<open>int c\<close> is never initialised: with anything but zero in the upper bytes of its stack slot a process
  does not recognise the end mark, and no run of the program ends.\<close>

theorem primes_uninitialised:
  assumes "junk 0 AND NOT 0xFF \<noteq> 0"
  shows "primes_main junk = None"
proof -
  have nz: "low_byte (junk 0) b \<noteq> 0" for b using assms by (simp add: low_byte_def or_eq_0_iff)
  then have "primes_loop (junk 0) f bs = None" for f bs
    by (induction bs) (simp_all add: Let_def)
  then show ?thesis using nz by (simp add: primes_main_def primes.simps upt_conv_Cons)
qed

theorem primes_uninitialised_witness: "primes_main (\<lambda>_. 0x100) = None"
  by (rule primes_uninitialised) simp

section \<open>Random numbers\<close>

text \<open>\<open>do_rand\<close>: the value returned and the new \<open>*ctx\<close>.  \<open>hi\<close>, \<open>lo\<close> and \<open>x\<close> are 64-bit \<open>long\<close>s.\<close>

definition do_rand :: "uint64 \<Rightarrow> int \<times> uint64" where
  "do_rand ctx =
     (let x = uint ctx mod 0x7ffffffe + 1;
          hi = x div 127773;
          lo = x mod 127773;
          x = 16807 * lo - 2836 * hi;
          x = (if x < 0 then x + 0x7fffffff else x);
          x = x - 1
      in (x, word_of_int x))"

text \<open>\<open>do_rand\<close> computes the linear congruential generator \<open>x = 7^5 * x mod (2^31 - 1)\<close> on the interval
  from 1 to \<open>2^31 - 2\<close>, shifted down by one, and its intermediate results fit in 32 bits, as the
  comment promises.\<close>

lemma do_rand_correct:
  "let x = uint ctx mod 0x7ffffffe + 1; y = 16807 * (x mod 127773) - 2836 * (x div 127773)
   in fst (do_rand ctx) = (7 ^ 5 * x) mod (2 ^ 31 - 1) - 1 \<and> snd (do_rand ctx) = word_of_int (fst (do_rand ctx)) \<and>
     0 \<le> fst (do_rand ctx) \<and> fst (do_rand ctx) \<le> 0x7ffffffd \<and> \<bar>y\<bar> < 2 ^ 31 - 1"
proof -
  define x where "x = uint ctx mod 0x7ffffffe + 1"
  define hi where "hi = x div 127773"
  define lo where "lo = x mod 127773"
  define y where "y = 16807 * lo - 2836 * hi"
  define z where "z = (if y < 0 then y + 0x7fffffff else y)"
  have x: "1 \<le> x" "x \<le> 0x7ffffffe"
    using pos_mod_bound [of "0x7ffffffe" "uint ctx"] pos_mod_sign [of "0x7ffffffe" "uint ctx"] by (simp_all add: x_def)
  have lo: "0 \<le> lo" "lo \<le> 127772" using pos_mod_bound [of 127773 x] by (simp_all add: lo_def)
  have split: "x = 127773 * hi + lo" by (simp add: hi_def lo_def)
  have hi: "0 \<le> hi" "hi \<le> 16807" using x lo split by linarith+
  have yb: "- 0x7fffffff < y" "y < 0x7fffffff" using lo hi unfolding y_def by linarith+
  then have zb: "0 \<le> z" "z < 0x7fffffff" by (auto simp: z_def)
  have "16807 * x = y + hi * 0x7fffffff" unfolding y_def split by simp
  then have "(16807 * x) mod 0x7fffffff = y mod 0x7fffffff" by simp
  also have "\<dots> = z mod 0x7fffffff" by (simp add: z_def)
  also have "\<dots> = z" using zb by simp
  finally have z: "(16807 * x) mod 0x7fffffff = z" .
  have "z \<noteq> 0"
  proof
    assume "z = 0"
    then have d: "(0x7fffffff :: int) dvd 16807 * x" using z by (simp add: mod_eq_0_iff_dvd)
    have "coprime (0x7fffffff :: int) 16807" by (simp add: coprime_iff_gcd_eq_1) code_simp
    then have "(0x7fffffff :: int) dvd x" using d by (simp add: coprime_dvd_mult_right_iff)
    then show False using x zdvd_imp_le [of "0x7fffffff" x] by simp
  qed
  moreover have "do_rand ctx = (z - 1, word_of_int (z - 1))"
    by (simp add: do_rand_def x_def hi_def lo_def y_def z_def Let_def)
  ultimately show ?thesis using z zb yb
    unfolding Let_def x_def [symmetric] hi_def [symmetric] lo_def [symmetric] y_def [symmetric] by simp
qed

end
