(* ===== verification/Ulib_Laws.thy ===== *)
theory Ulib_Laws
  imports Ulib
begin

text \<open>
  Laws of the user library and of number formatting: the two copies of \<open>memmove\<close> agree, decimal
  output is read back by \<open>atoi\<close>, and the digits of a number fit the buffer of \<open>printint\<close>.
\<close>

section \<open>Moving memory\<close>

lemma umemmove_up_eq: "umemmove_up m d s n = memmove_up m d s n"
  by (induction m d s n rule: umemmove_up.induct) (simp_all del: fun_upd_apply)

lemma umemmove_down_eq: "umemmove_down m d s n = memmove_down m d s n"
  by (induction m d s n rule: umemmove_down.induct) (simp_all del: fun_upd_apply)

text \<open>The \<open>memmove\<close> of the user library, which chooses its direction by the order of the pointers alone, and
  that of the kernel, which looks for an overlap, do the same for all ranges that do not wrap around
  the end of memory.\<close>

lemma umemmove_memmove:
  assumes "unat d + n < 2 ^ 64" and "unat s + n < 2 ^ 64"
  shows "umemmove m d s n = memmove m d s n"
proof (cases "s > d")
  case True
  then have "memmove_up m d s n = moved m d s n" using assms by (intro memmove_up_eq) auto
  then show ?thesis using True memmove_moved [OF assms] by (simp add: umemmove_def umemmove_up_eq)
next
  case False
  then have "memmove_down m (d + of_nat n) (s + of_nat n) n = moved m d s n"
    using assms by (intro memmove_down_eq) auto
  then show ?thesis using False memmove_moved [OF assms] by (simp add: umemmove_def umemmove_down_eq)
qed

lemma umemmove_memmove_witness: "umemmove (\<lambda>x. ucast x) 1 0 3 = memmove (\<lambda>x. ucast x) 1 0 3"
  by (rule umemmove_memmove) simp_all

section \<open>Numbers\<close>

lemma int_digits_value:
  assumes "2 \<le> bs"
  shows "foldr (\<lambda>d a. d + bs * a) (int_digits bs x) 0 = x \<and> (\<forall>d\<in>set (int_digits bs x). d < bs)"
  using assms
proof (induction bs x rule: int_digits.induct)
  case (1 bs x)
  show ?case
  proof (cases "x div bs = 0")
    case True
    then have "int_digits bs x = [x mod bs]" "x < bs" using "1.prems" by (auto simp: int_digits.simps div_eq_0_iff)
    then show ?thesis by simp
  next
    case False
    then have e: "int_digits bs x = x mod bs # int_digits bs (x div bs)" using "1.prems" by (subst int_digits.simps) simp
    have c: "\<not> (x div bs = 0 \<or> bs < 2)" using False "1.prems" by simp
    show ?thesis unfolding e using "1.IH" [OF c "1.prems"] "1.prems" by (simp add: mod_mult_div_eq)
  qed
qed

lemma int_digits_length:
  assumes "2 \<le> bs" and "x < bs ^ Suc k"
  shows "length (int_digits bs x) \<le> Suc k"
  using assms(2)
proof (induction k arbitrary: x)
  case 0
  then show ?case using assms(1) by (simp add: int_digits.simps [of bs x])
next
  case (Suc k)
  have "x div bs < bs ^ Suc k" using Suc.prems assms(1) by (simp add: less_mult_imp_div_less mult.commute)
  then show ?case using Suc.IH [of "x div bs"] by (simp add: int_digits.simps [of bs x])
qed

lemma udigit_eq: "d < 10 \<Longrightarrow> udigit d = of_nat (48 + d)"
proof -
  assume "d < 10"
  then have "d = 0 \<or> d = 1 \<or> d = 2 \<or> d = 3 \<or> d = 4 \<or> d = 5 \<or> d = 6 \<or> d = 7 \<or> d = 8 \<or> d = 9" by arith
  then show ?thesis by (elim disjE) (simp_all add: udigit_def bytes_def)
qed

lemma atoi_loop_digits:
  assumes "\<forall>d\<in>set ds. d < 10"
  shows "atoi_loop n (map udigit ds) = foldl (\<lambda>a d. a * 10 + of_nat d) n ds"
  using assms
proof (induction ds arbitrary: n)
  case (Cons d ds)
  then have d: "d < 10" by simp
  have u: "udigit d = of_nat (48 + d)" by (rule udigit_eq [OF d])
  have b: "unat (of_nat (48 + d) :: byte) = 48 + d" using d by (simp only: unat_of_nat) simp
  have "48 \<le> (of_nat (48 + d) :: byte)" "(of_nat (48 + d) :: byte) \<le> 57"
    using d b by (simp_all only: word_le_nat_alt) simp_all
  moreover have "(ucast (of_nat (48 + d) :: byte) :: uint) = of_nat (48 + d)"
    using take_bit_nat_eq_self [of "48 + d" 8] d by (simp only: unsigned_of_nat) simp
  ultimately show ?case using Cons.IH Cons.prems
    by (simp only: list.map atoi_loop.simps u foldl_Cons if_True simp_thms) (simp add: algebra_simps)
qed simp

lemma foldl_digits: "foldl (\<lambda>a d. a * 10 + of_nat d) 0 (rev ds) = (of_nat (foldr (\<lambda>d a. d + 10 * a) ds 0) :: uint)"
  by (induction ds) (simp_all add: algebra_simps)

text \<open>\<open>atoi\<close> reads back every number that \<open>printf\<close> prints in decimal without a sign.\<close>

lemma atoi_printint: "atoi (uprintint n 10 False) = n"
proof -
  have v: "foldr (\<lambda>d a. d + 10 * a) (int_digits 10 (unat n)) 0 = unat n" "\<forall>d\<in>set (rev (int_digits 10 (unat n))). d < 10"
    using int_digits_value [of 10 "unat n"] by simp_all
  have "uprintint n 10 False = map udigit (rev (int_digits 10 (unat n)))"
    by (simp add: uprintint_def uprintint_buf_def rev_map)
  then show ?thesis using atoi_loop_digits [OF v(2), of 0] foldl_digits [of "int_digits 10 (unat n)"] v(1)
    by (simp add: atoi_def)
qed

text \<open>The buffer of 16 characters in which \<open>printint\<close>, of the kernel and of the user library, collects the digits and
  the sign is large enough for every number in the bases that \<open>printf\<close> uses.\<close>

lemma printint_fits:
  "length (printint_buf xx 10 sg) \<le> 11 \<and> length (printint_buf xx 16 sg) \<le> 9 \<and>
   length (uprintint_buf xx 10 sg) \<le> 11 \<and> length (uprintint_buf xx 16 sg) \<le> 9"
proof -
  have u: "unat (x :: uint) < 2 ^ 32" for x using unsigned_less [of x] by simp
  have L: "length (int_digits 10 (unat x)) \<le> 10" "length (int_digits 16 (unat x)) \<le> 8" for x :: uint
    using int_digits_length [of 10 "unat x" 9] int_digits_length [of 16 "unat x" 7] u [of x] by simp_all
  show ?thesis using L [of xx] L [of "- xx"] by (auto simp: printint_buf_def uprintint_buf_def Let_def)
qed

end
