(* ===== verification/Sh.thy ===== *)
theory Sh
  imports Ulib
begin

text \<open>
  The shell, \<^verbatim>\<open>user/sh.c\<close>: the tokenizer, the recursive-descent parser, and \<open>runcmd\<close> as the
  system calls it makes.  A pointer into the command line is the rest of the line from there; the
  strings of a command are the bytes between the pointers \<open>q\<close> and \<open>eq\<close> of the source, which
  \<open>nulterminate\<close> turns into C strings after parsing.
\<close>

section \<open>Commands\<close>

definition MAXARGS :: nat where "MAXARGS = 10"

datatype cmd =
    Exec "byte list list"
  | Redir cmd "byte list" uint int     \<comment> \<open>the file, the mode and the descriptor\<close>
  | Pipe cmd cmd
  | List cmd cmd
  | Back cmd

text \<open>The modes of \<^verbatim>\<open>kernel/fcntl.h\<close> that the parser uses.\<close>

definition m_rdonly :: uint where "m_rdonly = 0"
definition m_trunc :: uint where "m_trunc = 0x001 OR 0x200 OR 0x400"
definition m_append :: uint where "m_append = 0x001 OR 0x200"

section \<open>Tokens\<close>

text \<open>\<open>whitespace\<close> and \<open>symbols\<close>: \<open><|>&;()\<close>.\<close>

definition whitespace :: "byte list" where "whitespace = [32, 9, 13, 10, 11]"
definition symbols :: "byte list" where "symbols = [60, 124, 62, 38, 59, 40, 41]"

definition is_ws :: "byte \<Rightarrow> bool" where "is_ws c \<longleftrightarrow> strchr whitespace c \<noteq> None"
definition is_sym :: "byte \<Rightarrow> bool" where "is_sym c \<longleftrightarrow> strchr symbols c \<noteq> None"

definition skip_ws :: "byte list \<Rightarrow> byte list" where
  "skip_ws s = dropWhile is_ws s"

text \<open>
  \<open>gettoken\<close>: the kind of the token (0 at the end, \<open>a\<close> for a word, \<open>+\<close> for \<open>>>\<close>), its bytes and the
  rest of the line.
\<close>

definition gettoken :: "byte list \<Rightarrow> byte \<times> byte list \<times> byte list" where
  "gettoken s =
     (case skip_ws s of
        [] \<Rightarrow> (0, [], [])
      | c # s \<Rightarrow>
        if c = 124 \<or> c = 40 \<or> c = 41 \<or> c = 59 \<or> c = 38 \<or> c = 60 then (c, [c], skip_ws s)
        else if c = 62
        then (case s of
                d # s' \<Rightarrow> if d = 62 then (43, [62, 62], skip_ws s') else (62, [62], skip_ws s)
              | [] \<Rightarrow> (62, [62], skip_ws s))
        else let w = takeWhile (\<lambda>c. \<not> is_ws c \<and> \<not> is_sym c) (c # s)
             in (97, w, skip_ws (drop (length w) (c # s))))"

definition peek :: "byte list \<Rightarrow> byte list \<Rightarrow> bool" where
  "peek s toks = (case skip_ws s of [] \<Rightarrow> False | c # _ \<Rightarrow> strchr toks c \<noteq> None)"

lemma skip_ws_length: "length (skip_ws s) \<le> length s"
  by (simp add: skip_ws_def length_dropWhile_le)

lemma gettoken_shorter: "gettoken s = (tok, w, r) \<Longrightarrow> tok \<noteq> 0 \<Longrightarrow> length r < length s"
proof -
  assume g: "gettoken s = (tok, w, r)" and "tok \<noteq> 0"
  then obtain c t where s: "skip_ws s = c # t" by (cases "skip_ws s") (auto simp: gettoken_def)
  have l: "length t < length s" using skip_ws_length [of s] s by simp
  show ?thesis
  proof (cases "c = 124 \<or> c = 40 \<or> c = 41 \<or> c = 59 \<or> c = 38 \<or> c = 60 \<or> c = 62")
    case True
    then have "\<exists>u. r = skip_ws u \<and> length u \<le> length t"
      using g s by (auto simp: gettoken_def split: list.splits if_splits)
    then show ?thesis using l skip_ws_length by (metis le_less_trans le_trans)
  next
    case False
    have "\<not> is_ws c" using s hd_dropWhile [of is_ws s] by (auto simp: skip_ws_def)
    moreover have "\<not> is_sym c" using False by (auto simp: is_sym_def symbols_def split: if_splits)
    ultimately obtain k where "r = skip_ws (drop (Suc k) (c # t))"
      using g s False by (auto simp: gettoken_def Let_def)
    then have "length r \<le> length t" using skip_ws_length [of "drop k t"] by simp
    then show ?thesis using l by simp
  qed
qed

lemma strchr_0: "strchr s 0 = None"
  by (induction s) auto

lemma peek_shorter:
  assumes "peek s toks" and "gettoken s = (tok, w, r)"
  shows "length r < length s"
proof -
  obtain c t where "skip_ws s = c # t" "c \<noteq> 0"
    using assms(1) strchr_0 [of toks] by (auto simp: peek_def split: list.splits) (metis option.distinct(1))
  then have "tok \<noteq> 0" using assms(2) by (auto simp: gettoken_def Let_def split: list.splits if_splits)
  then show ?thesis using gettoken_shorter assms(2) by blast
qed

section \<open>The parser\<close>

text \<open>
  A parser returns a command and the rest of the line, or panics.  \<open>&\<close> is 38, \<open>;\<close> 59, \<open>|\<close> 124, \<open><\<close> 60,
  \<open>>\<close> 62, \<open>(\<close> 40 and \<open>)\<close> 41.
\<close>

text \<open>The loop of \<open>parseline\<close> over \<open>&\<close>.\<close>

function parseamps :: "cmd \<Rightarrow> byte list \<Rightarrow> cmd \<times> byte list" where
  "parseamps cmd s =
     (if peek s [38] then case gettoken s of (_, _, s) \<Rightarrow> parseamps (Back cmd) s else (cmd, skip_ws s))"
  by pat_completeness auto
termination
  by (relation "measure (\<lambda>(cmd, s). length s)") (auto dest: peek_shorter sym)

declare parseamps.simps [simp del]

text \<open>The redirections that \<open>parseredirs\<close> puts around its command, the innermost first.\<close>

type_synonym redir = "byte list \<times> uint \<times> int"

function parseredirs :: "byte list \<Rightarrow> (redir list \<times> byte list) res" where
  "parseredirs s =
     (if peek s [60, 62]
      then case gettoken s of (tok, _, s1) \<Rightarrow>
             case gettoken s1 of (tok2, q, s2) \<Rightarrow>
               if tok2 \<noteq> 97 then Panic ''missing file for redirection''
               else bindR (parseredirs s2) (\<lambda>(rs, s).
                 Ok ((if tok = 60 then (q, m_rdonly, 0) else if tok = 62 then (q, m_trunc, 1)
                      else (q, m_append, 1)) # rs, s))
      else Ok ([], skip_ws s))"
  by pat_completeness auto
termination
  by (relation "measure length") (auto dest!: sym [of _ "gettoken _"] peek_shorter dest: gettoken_shorter)

declare parseredirs.simps [simp del]

definition wrap :: "cmd \<Rightarrow> redir list \<Rightarrow> cmd" where
  "wrap cmd rs = foldl (\<lambda>c (q, mode, fd). Redir c q mode fd) cmd rs"

text \<open>The loop of \<open>parseexec\<close> with \<open>argc\<close> arguments so far: the further arguments and redirections.\<close>

function parseargs :: "nat \<Rightarrow> byte list \<Rightarrow> (byte list list \<times> redir list \<times> byte list) res" where
  "parseargs argc s =
     (if peek s [124, 41, 38, 59] then Ok ([], [], skip_ws s)
      else case gettoken s of (tok, q, s1) \<Rightarrow>
        if tok = 0 then Ok ([], [], s1)
        else if tok \<noteq> 97 then Panic ''syntax''
        else if Suc argc \<ge> MAXARGS then Panic ''too many args''
        else bindR (parseredirs s1) (\<lambda>(rs, s).
             bindR (parseargs (Suc argc) s) (\<lambda>(args, rs', s). Ok (q # args, rs @ rs', s))))"
  by pat_completeness auto
termination
  by (relation "measure (\<lambda>(argc, s). MAXARGS - argc)") auto

declare parseargs.simps [simp del]

text \<open>The first argument bounds the depth of the calls; \<open>Blocked\<close> if it is too small.\<close>

fun parseline :: "nat \<Rightarrow> byte list \<Rightarrow> (cmd \<times> byte list) res"
  and parsepipe :: "nat \<Rightarrow> byte list \<Rightarrow> (cmd \<times> byte list) res"
  and parseexec :: "nat \<Rightarrow> byte list \<Rightarrow> (cmd \<times> byte list) res"
  and parseblock :: "nat \<Rightarrow> byte list \<Rightarrow> (cmd \<times> byte list) res" where
  "parseline 0 s = Blocked"
| "parseline (Suc n) s =
     bindR (parsepipe n s) (\<lambda>(cmd, s).
       case parseamps cmd s of (cmd, s) \<Rightarrow>
         if peek s [59]
         then case gettoken s of (_, _, s) \<Rightarrow> bindR (parseline n s) (\<lambda>(right, s). Ok (List cmd right, s))
         else Ok (cmd, skip_ws s))"
| "parsepipe 0 s = Blocked"
| "parsepipe (Suc n) s =
     bindR (parseexec n s) (\<lambda>(cmd, s).
       if peek s [124]
       then case gettoken s of (_, _, s) \<Rightarrow> bindR (parsepipe n s) (\<lambda>(right, s). Ok (Pipe cmd right, s))
       else Ok (cmd, skip_ws s))"
| "parseexec 0 s = Blocked"
| "parseexec (Suc n) s =
     (if peek s [40] then parseblock n s
      else bindR (parseredirs s) (\<lambda>(rs, s).
           bindR (parseargs 0 s) (\<lambda>(args, rs', s). Ok (wrap (Exec args) (rs @ rs'), s))))"
| "parseblock 0 s = Blocked"
| "parseblock (Suc n) s =
     (if \<not> peek s [40] then Panic ''parseblock''
      else case gettoken s of (_, _, s) \<Rightarrow>
        bindR (parseline n s) (\<lambda>(cmd, s).
          if \<not> peek s [41] then Panic ''syntax - missing )''
          else case gettoken s of (_, _, s) \<Rightarrow>
            bindR (parseredirs s) (\<lambda>(rs, s). Ok (wrap cmd rs, s))))"

definition parsecmd :: "byte list \<Rightarrow> cmd res" where
  "parsecmd s =
     bindR (parseline (4 * length s + 4) s) (\<lambda>(cmd, s).
       if skip_ws s \<noteq> [] then Panic ''syntax'' else Ok cmd)"

section \<open>The parser returns\<close>

lemma gettoken_rest: "gettoken s = (tok, w, r) \<Longrightarrow> length r \<le> length s"
proof (cases "tok = 0")
  case True
  assume "gettoken s = (tok, w, r)"
  then show ?thesis using True gettoken_shorter skip_ws_length [of s]
    by (auto simp: gettoken_def Let_def split: list.splits if_splits)
qed (use gettoken_shorter in fastforce)

lemma parseamps_rest: "parseamps cmd s = (cmd', r) \<Longrightarrow> length r \<le> length s"
proof (induction cmd s arbitrary: r rule: parseamps.induct)
  case (1 cmd s)
  obtain tok w u where g: "gettoken s = (tok, w, u)" by (cases "gettoken s") auto
  show ?case
  proof (cases "peek s [38]")
    case True
    then have "parseamps (Back cmd) u = (cmd', r)" using "1.prems" g by (simp add: parseamps.simps [of cmd s])
    then have "length r \<le> length u" using "1.IH" True g by auto
    then show ?thesis using gettoken_rest [OF g] by simp
  next
    case False
    then show ?thesis using "1.prems" skip_ws_length [of s] by (simp add: parseamps.simps [of cmd s])
  qed
qed

lemma parseredirs_rest: "parseredirs s \<noteq> Blocked \<and> (\<forall>rs r. parseredirs s = Ok (rs, r) \<longrightarrow> length r \<le> length s)"
proof (induction s rule: parseredirs.induct)
  case (1 s)
  obtain tok w u where g: "gettoken s = (tok, w, u)" by (cases "gettoken s") auto
  obtain tok2 q v where g2: "gettoken u = (tok2, q, v)" by (cases "gettoken u") auto
  show ?case
  proof (cases "peek s [60, 62] \<and> tok2 = 97")
    case True
    then have IH: "parseredirs v \<noteq> Blocked" "\<forall>rs r. parseredirs v = Ok (rs, r) \<longrightarrow> length r \<le> length v"
      using 1 g g2 by auto
    have "length v \<le> length s" using gettoken_rest [OF g] gettoken_rest [OF g2] by simp
    then show ?thesis using True g g2 IH
      by (cases "parseredirs v") (fastforce simp: parseredirs.simps [of s])+
  next
    case False
    then show ?thesis using g g2 skip_ws_length [of s] by (auto simp: parseredirs.simps [of s])
  qed
qed

lemma parseargs_rest:
  "parseargs argc s \<noteq> Blocked \<and> (\<forall>args rs r. parseargs argc s = Ok (args, rs, r) \<longrightarrow> length r \<le> length s)"
proof (induction argc s rule: parseargs.induct)
  case (1 argc s)
  obtain tok q u where g: "gettoken s = (tok, q, u)" by (cases "gettoken s") auto
  show ?case
  proof (cases "peek s [124, 41, 38, 59] \<or> tok = 0 \<or> tok \<noteq> 97 \<or> Suc argc \<ge> MAXARGS")
    case True
    then show ?thesis using g gettoken_rest [OF g] skip_ws_length [of s] by (auto simp: parseargs.simps [of argc s])
  next
    case False
    then have E: "parseargs argc s = bindR (parseredirs u) (\<lambda>(rs, s).
        bindR (parseargs (Suc argc) s) (\<lambda>(args, rs', s). Ok (q # args, rs @ rs', s)))"
      using g by (simp add: parseargs.simps [of argc s])
    show ?thesis
    proof (cases "parseredirs u")
      case (Ok x)
      then obtain rs v where v: "parseredirs u = Ok (rs, v)" by (cases x) auto
      have IH: "parseargs (Suc argc) v \<noteq> Blocked"
        "\<forall>args rs r. parseargs (Suc argc) v = Ok (args, rs, r) \<longrightarrow> length r \<le> length v"
        using 1 g v False by auto
      have "length v \<le> length s" using parseredirs_rest [of u] v gettoken_rest [OF g] by fastforce
      then show ?thesis using IH by (cases "parseargs (Suc argc) v") (fastforce simp: E v)+
    qed (use parseredirs_rest [of u] E in auto)
  qed
qed

text \<open>The rest that a parser leaves is no longer than what it was given.\<close>

definition rest_ok :: "(cmd \<times> byte list) res \<Rightarrow> byte list \<Rightarrow> bool" where
  "rest_ok x s \<longleftrightarrow> (\<forall>c r. x = Ok (c, r) \<longrightarrow> length r \<le> length s)"

lemma rest_okD: "rest_ok (Ok (c, r)) s \<Longrightarrow> length r \<le> length s"
  by (simp add: rest_ok_def)

lemma rest_ok_bind:
  assumes "rest_ok x s" and "\<And>c r. x = Ok (c, r) \<Longrightarrow> length r \<le> length s \<Longrightarrow> rest_ok (f (c, r)) s"
  shows "rest_ok (bindR x f) s"
  using assms by (cases x) (auto simp: rest_ok_def)

lemma rest_ok_mono: "rest_ok x r \<Longrightarrow> length r \<le> length s \<Longrightarrow> rest_ok x s"
  by (fastforce simp: rest_ok_def)

lemma rest_ok_Ok: "length r \<le> length s \<Longrightarrow> rest_ok (Ok (c, r)) s"
  by (simp add: rest_ok_def)

lemma rest_ok_stop [simp]: "rest_ok (Panic m) s" "rest_ok Blocked s"
  by (simp_all add: rest_ok_def)

lemma rest_ok_skip: "length r \<le> length s \<Longrightarrow> rest_ok (Ok (c, skip_ws r)) s"
  using skip_ws_length [of r] by (simp add: rest_ok_def)

lemma rest_ok_redirs: "length r \<le> length s \<Longrightarrow> rest_ok (bindR (parseredirs r) (\<lambda>(rs, s). Ok (wrap cmd rs, s))) s"
  using parseredirs_rest [of r] by (cases "parseredirs r") (fastforce simp: rest_ok_def)+

lemma parse_rest:
  "rest_ok (parseline n s) s" "rest_ok (parsepipe n s) s" "rest_ok (parseexec n s) s" "rest_ok (parseblock n s) s"
proof (induction n s and n s and n s and n s rule: parseline_parsepipe_parseexec_parseblock.induct)
  case (2 n s)
  show ?case unfolding parseline.simps(2)
  proof (rule rest_ok_bind [OF "2.IH"(1)])
    fix c r assume p: "parsepipe n s = Ok (c, r)" "length r \<le> length s"
    obtain c' u where a: "parseamps c r = (c', u)" by (cases "parseamps c r")
    obtain tok w v where g: "gettoken u = (tok, w, v)" by (cases "gettoken u") auto
    have u: "length u \<le> length s" using parseamps_rest [OF a] p(2) by simp
    have v: "length v \<le> length s" using gettoken_rest [OF g] u by simp
    have "rest_ok (bindR (parseline n v) (\<lambda>(right, s). Ok (List c' right, s))) s" if "peek u [59]"
      using rest_ok_mono [OF "2.IH"(2) v] p(1) a g that by (intro rest_ok_bind) (auto intro: rest_ok_Ok)
    then show "rest_ok (case (c, r) of (cmd, s) \<Rightarrow> case parseamps cmd s of (cmd, s) \<Rightarrow>
        if peek s [59] then case gettoken s of (_, _, s) \<Rightarrow> bindR (parseline n s) (\<lambda>(right, s). Ok (List cmd right, s))
        else Ok (cmd, skip_ws s)) s"
      using a g u by (auto intro: rest_ok_skip)
  qed
next
  case (4 n s)
  show ?case unfolding parsepipe.simps(2)
  proof (rule rest_ok_bind [OF "4.IH"(1)])
    fix c r assume p: "parseexec n s = Ok (c, r)" "length r \<le> length s"
    obtain tok w v where g: "gettoken r = (tok, w, v)" by (cases "gettoken r") auto
    have v: "length v \<le> length s" using gettoken_rest [OF g] p(2) by simp
    have "rest_ok (bindR (parsepipe n v) (\<lambda>(right, s). Ok (Pipe c right, s))) s" if "peek r [124]"
      using rest_ok_mono [OF "4.IH"(2) v] p(1) g that by (intro rest_ok_bind) (auto intro: rest_ok_Ok)
    then show "rest_ok (case (c, r) of (cmd, s) \<Rightarrow>
        if peek s [124] then case gettoken s of (_, _, s) \<Rightarrow> bindR (parsepipe n s) (\<lambda>(right, s). Ok (Pipe cmd right, s))
        else Ok (cmd, skip_ws s)) s"
      using g p(2) by (auto intro: rest_ok_skip)
  qed
next
  case (6 n s)
  have "rest_ok (bindR (parseredirs s) (\<lambda>(rs, s).
      bindR (parseargs 0 s) (\<lambda>(args, rs', s). Ok (wrap (Exec args) (rs @ rs'), s)))) s"
  proof (cases "parseredirs s")
    case (Ok x)
    then obtain rs u where u: "parseredirs s = Ok (rs, u)" by (cases x) auto
    then have "length u \<le> length s" using parseredirs_rest [of s] by simp
    then show ?thesis using parseargs_rest [of 0 u] u by (cases "parseargs 0 u") (fastforce simp: rest_ok_def)+
  qed simp_all
  then show ?case using 6 by simp
next
  case (8 n s)
  obtain tok w v where g: "gettoken s = (tok, w, v)" by (cases "gettoken s") auto
  have "rest_ok (bindR (parseline n v) (\<lambda>(cmd, s).
          if \<not> peek s [41] then Panic ''syntax - missing )''
          else case gettoken s of (_, _, s) \<Rightarrow>
            bindR (parseredirs s) (\<lambda>(rs, s). Ok (wrap cmd rs, s)))) s" if "peek s [40]"
  proof (rule rest_ok_bind)
    show "rest_ok (parseline n v) s" using rest_ok_mono [OF _ gettoken_rest [OF g]] 8 g that by auto
    fix c and r :: "byte list" assume r: "length r \<le> length s"
    obtain tok' w' r' where g': "gettoken r = (tok', w', r')" by (cases "gettoken r") auto
    then show "rest_ok (case (c, r) of (cmd, s) \<Rightarrow>
          if \<not> peek s [41] then Panic ''syntax - missing )''
          else case gettoken s of (_, _, s) \<Rightarrow>
            bindR (parseredirs s) (\<lambda>(rs, s). Ok (wrap cmd rs, s))) s"
      using gettoken_rest [OF g'] r rest_ok_redirs [of r' s c] by auto
  qed
  then show ?case using g by auto
qed simp_all

lemma bindR_Blocked:
  assumes "m \<noteq> Blocked" and "\<And>x. m = Ok x \<Longrightarrow> f x \<noteq> Blocked"
  shows "bindR m f \<noteq> Blocked"
  using assms by (cases m) auto

lemma bindR_eq_Blocked: "bindR m f = Blocked \<longleftrightarrow> m = Blocked \<or> (\<exists>x. m = Ok x \<and> f x = Blocked)"
  by (cases m) auto

lemma parse_fuel:
  "4 * length s + 4 \<le> n \<Longrightarrow> parseline n s \<noteq> Blocked"
  "4 * length s + 3 \<le> n \<Longrightarrow> parsepipe n s \<noteq> Blocked"
  "4 * length s + 2 \<le> n \<Longrightarrow> parseexec n s \<noteq> Blocked"
  "4 * length s + 1 \<le> n \<Longrightarrow> parseblock n s \<noteq> Blocked"
proof (induction n s and n s and n s and n s rule: parseline_parsepipe_parseexec_parseblock.induct)
  case (2 n s)
  show ?case unfolding parseline.simps(2)
  proof (rule bindR_Blocked)
    show "parsepipe n s \<noteq> Blocked" using 2 by simp
    fix x assume x: "parsepipe n s = Ok x"
    obtain c r where p: "x = (c, r)" by (cases x)
    obtain c' u where a: "parseamps c r = (c', u)" by (cases "parseamps c r")
    obtain tok w v where g: "gettoken u = (tok, w, v)" by (cases "gettoken u") auto
    have "length u \<le> length s" using parseamps_rest [OF a] rest_okD parse_rest(2) [of n s] x p by fastforce
    then have "parseline n v \<noteq> Blocked" if "peek u [59]"
      using "2.IH"(2) [OF x p [symmetric] a [symmetric] that g [symmetric] refl] peek_shorter [OF that g] "2.prems"
      by simp
    then show "(case x of (cmd, s) \<Rightarrow> case parseamps cmd s of (cmd, s) \<Rightarrow>
        if peek s [59] then case gettoken s of (_, _, s) \<Rightarrow> bindR (parseline n s) (\<lambda>(right, s). Ok (List cmd right, s))
        else Ok (cmd, skip_ws s)) \<noteq> Blocked"
      using a g p by (auto simp: bindR_eq_Blocked)
  qed
next
  case (4 n s)
  show ?case unfolding parsepipe.simps(2)
  proof (rule bindR_Blocked)
    show "parseexec n s \<noteq> Blocked" using 4 by simp
    fix x assume x: "parseexec n s = Ok x"
    obtain c r where p: "x = (c, r)" by (cases x)
    obtain tok w v where g: "gettoken r = (tok, w, v)" by (cases "gettoken r") auto
    have "length r \<le> length s" using rest_okD parse_rest(3) [of n s] x p by fastforce
    then have "parsepipe n v \<noteq> Blocked" if "peek r [124]"
      using "4.IH"(2) [OF x p [symmetric] that g [symmetric] refl] peek_shorter [OF that g] "4.prems" by simp
    then show "(case x of (cmd, s) \<Rightarrow>
        if peek s [124] then case gettoken s of (_, _, s) \<Rightarrow> bindR (parsepipe n s) (\<lambda>(right, s). Ok (Pipe cmd right, s))
        else Ok (cmd, skip_ws s)) \<noteq> Blocked"
      using g p by (auto simp: bindR_eq_Blocked)
  qed
next
  case (6 n s)
  have "bindR (parseredirs s) (\<lambda>(rs, s).
      bindR (parseargs 0 s) (\<lambda>(args, rs', s). Ok (wrap (Exec args) (rs @ rs'), s))) \<noteq> Blocked"
    using parseargs_rest parseredirs_rest by (auto simp: bindR_eq_Blocked)
  then show ?case using 6 by simp
next
  case (8 n s)
  obtain tok w v where g: "gettoken s = (tok, w, v)" by (cases "gettoken s") auto
  have "parseline n v \<noteq> Blocked" if "peek s [40]"
    using 8 g that peek_shorter [OF that g] by auto
  then show ?case using g parseredirs_rest by (auto simp: bindR_eq_Blocked split: prod.splits if_splits)
qed simp_all

text \<open>C34. Parsing a command line ends: it gives a command, or one of the parser's panic messages.\<close>

theorem parsecmd_total: "(\<exists>cmd. parsecmd s = Ok cmd) \<or> (\<exists>msg. parsecmd s = Panic msg)"
proof -
  have "parsecmd s \<noteq> Blocked"
    unfolding parsecmd_def using parse_fuel(1) [of s "4 * length s + 4"]
    by (intro bindR_Blocked) (auto split: prod.splits)
  then show ?thesis by (cases "parsecmd s") auto
qed

end
