(* ===== verification/Sh_Print.thy ===== *)
theory Sh_Print
  imports Sh
begin

text \<open>
  A printer for shell commands that the parser of \<open>Sh\<close> inverts: every command tree has a command
  line, and the parser finds the tree again.
\<close>

definition op_of :: "uint \<Rightarrow> byte list" where
  "op_of mode = (if mode = m_rdonly then [60] else if mode = m_trunc then [62] else [62, 62])"

fun unparse :: "cmd \<Rightarrow> byte list" where
  "unparse (Exec args) = concat (map (\<lambda>a. a @ [32]) args)"
| "unparse (Redir c f mode fd) = [40] @ unparse c @ [41] @ op_of mode @ f"
| "unparse (Pipe l r) = [40] @ unparse l @ [41, 124, 40] @ unparse r @ [41]"
| "unparse (List l r) = [40] @ unparse l @ [41, 59, 40] @ unparse r @ [41]"
| "unparse (Back c) = [40] @ unparse c @ [41, 38]"

text \<open>A word of the command line, and a tree that the shell can hold.\<close>

definition word_ok :: "byte list \<Rightarrow> bool" where
  "word_ok w \<longleftrightarrow> w \<noteq> [] \<and> list_all (\<lambda>c. \<not> is_ws c \<and> \<not> is_sym c) w"

fun cmd_ok :: "cmd \<Rightarrow> bool" where
  "cmd_ok (Exec args) \<longleftrightarrow> length args < MAXARGS \<and> list_all word_ok args"
| "cmd_ok (Redir c f mode fd) \<longleftrightarrow> cmd_ok c \<and> word_ok f \<and>
     (mode = m_rdonly \<and> fd = 0 \<or> (mode = m_trunc \<or> mode = m_append) \<and> fd = 1)"
| "cmd_ok (Pipe l r) \<longleftrightarrow> cmd_ok l \<and> cmd_ok r"
| "cmd_ok (List l r) \<longleftrightarrow> cmd_ok l \<and> cmd_ok r"
| "cmd_ok (Back c) \<longleftrightarrow> cmd_ok c"

text \<open>What may follow a command: the end of the line or a closing parenthesis.\<close>

definition ender :: "byte list \<Rightarrow> bool" where
  "ender r \<longleftrightarrow> r = [] \<or> hd r = 41"

named_theorems tok_simps \<open>characters and tokens\<close>

lemma ws_sym [tok_simps]:
  "\<not> is_ws 40" "\<not> is_ws 41" "\<not> is_ws 124" "\<not> is_ws 59" "\<not> is_ws 38" "\<not> is_ws 60" "\<not> is_ws 62" "is_ws 32"
  "is_sym 40" "is_sym 41" "is_sym 124" "is_sym 59" "is_sym 38" "is_sym 60" "is_sym 62"
  by (simp_all add: is_ws_def whitespace_def is_sym_def symbols_def)

lemma skip_ws_simps [tok_simps]:
  "skip_ws [] = []" "\<not> is_ws c \<Longrightarrow> skip_ws (c # s) = c # s" "skip_ws (32 # s) = skip_ws s"
  by (simp_all add: skip_ws_def ws_sym)

lemma peek_simps [tok_simps]:
  "peek [] toks = False" "\<not> is_ws c \<Longrightarrow> peek (c # s) toks = (strchr toks c \<noteq> None)"
  by (simp_all add: peek_def tok_simps)

lemma gettoken_sym [tok_simps]:
  "gettoken [] = (0, [], [])"
  "gettoken (40 # s) = (40, [40], skip_ws s)" "gettoken (41 # s) = (41, [41], skip_ws s)"
  "gettoken (124 # s) = (124, [124], skip_ws s)" "gettoken (59 # s) = (59, [59], skip_ws s)"
  "gettoken (38 # s) = (38, [38], skip_ws s)" "gettoken (60 # s) = (60, [60], skip_ws s)"
  "gettoken (62 # 62 # s) = (43, [62, 62], skip_ws s)"
  by (simp_all add: gettoken_def tok_simps)

lemma gettoken_gt: "c \<noteq> 62 \<Longrightarrow> gettoken (62 # c # s) = (62, [62], skip_ws (c # s))"
  by (simp add: gettoken_def tok_simps)

lemma sym_chars: "\<not> is_sym c \<Longrightarrow> c \<noteq> 40 \<and> c \<noteq> 41 \<and> c \<noteq> 124 \<and> c \<noteq> 59 \<and> c \<noteq> 38 \<and> c \<noteq> 60 \<and> c \<noteq> 62"
  by (auto simp: is_sym_def symbols_def)

lemma word_okE:
  assumes "word_ok w"
  obtains c w' where "w = c # w'" "\<not> is_ws c" "\<not> is_sym c" "list_all (\<lambda>c. \<not> is_ws c \<and> \<not> is_sym c) w'"
  using assms by (cases w) (auto simp: word_ok_def)

lemma gettoken_word:
  assumes "word_ok w" and "r = [] \<or> is_ws (hd r) \<or> is_sym (hd r)"
  shows "gettoken (w @ r) = (97, w, skip_ws r)"
proof -
  obtain c w' where w: "w = c # w'" "\<not> is_ws c" "\<not> is_sym c" "list_all (\<lambda>c. \<not> is_ws c \<and> \<not> is_sym c) w'"
    by (rule word_okE [OF assms(1)])
  have "takeWhile (\<lambda>c. \<not> is_ws c \<and> \<not> is_sym c) (w @ r) = w"
    using assms(2) w by (cases r) (auto simp: takeWhile_append list_all_iff)
  then show ?thesis using w sym_chars [OF w(3)] by (simp add: gettoken_def tok_simps Let_def)
qed

lemma ender_simps:
  assumes "ender r"
  shows "skip_ws r = r" "parseredirs r = Ok ([], r)" "peek r [124] = False" "peek r [59] = False" "peek r [38] = False"
    "r = [] \<or> is_ws (hd r) \<or> is_sym (hd r)"
proof -
  have c: "r = [] \<or> (\<exists>t. r = 41 # t)" using assms by (cases r) (simp_all add: ender_def)
  then show s: "skip_ws r = r" and "peek r [124] = False" "peek r [59] = False" "peek r [38] = False"
    "r = [] \<or> is_ws (hd r) \<or> is_sym (hd r)"
    by (auto simp: tok_simps)
  have "\<not> peek r [60, 62]" using c by (auto simp: tok_simps)
  then show "parseredirs r = Ok ([], r)" by (subst parseredirs.simps) (simp add: s)
qed

lemma words_start:
  assumes "list_all word_ok args" and "ender r"
  shows "skip_ws (concat (map (\<lambda>a. a @ [32]) args) @ r) = concat (map (\<lambda>a. a @ [32]) args) @ r"
    "peek (concat (map (\<lambda>a. a @ [32]) args) @ r) [40] = False"
    "parseredirs (concat (map (\<lambda>a. a @ [32]) args) @ r) = Ok ([], concat (map (\<lambda>a. a @ [32]) args) @ r)"
proof -
  let ?s = "concat (map (\<lambda>a. a @ [32]) args) @ r"
  consider "?s = []" | c t where "?s = c # t" "\<not> is_ws c" "c \<noteq> 40" "c \<noteq> 60" "c \<noteq> 62"
  proof (cases args)
    case Nil
    then show ?thesis using assms(2) that by (cases r) (auto simp: ender_def tok_simps)
  next
    case (Cons a as)
    then obtain c w' where "a = c # w'" "\<not> is_ws c" "\<not> is_sym c" using assms(1) by (auto elim: word_okE)
    then show ?thesis using that(2) [of c] sym_chars [of c] Cons by simp
  qed
  then have s: "skip_ws ?s = ?s \<and> \<not> peek ?s [40] \<and> \<not> peek ?s [60, 62]"
    by cases (auto simp: tok_simps)
  then show "skip_ws ?s = ?s" "peek ?s [40] = False" by simp_all
  show "parseredirs ?s = Ok ([], ?s)" by (subst parseredirs.simps) (use s in simp)
qed

lemma parseargs_words:
  assumes "list_all word_ok args" and "ender r" and "k + length args < MAXARGS"
  shows "parseargs k (concat (map (\<lambda>a. a @ [32]) args) @ r) = Ok (args, [], r)"
  using assms
proof (induction args arbitrary: k)
  case Nil
  then show ?case by (cases r) (simp_all add: ender_def parseargs.simps [of k] tok_simps)
next
  case (Cons a as)
  let ?t = "concat (map (\<lambda>a. a @ [32]) as) @ r" and ?s = "concat (map (\<lambda>a. a @ [32]) (a # as)) @ r"
  obtain c w' where a: "a = c # w'" "\<not> is_ws c" "\<not> is_sym c" using Cons.prems(1) by (auto elim: word_okE)
  have s: "?s = a @ 32 # ?t" by simp
  have pk: "peek ?s [124, 41, 38, 59] = False" using a sym_chars [of c] by (simp add: s tok_simps)
  have g: "gettoken ?s = (97, a, ?t)"
    unfolding s using Cons.prems words_start(1) [of as r] by (subst gettoken_word) (simp_all add: tok_simps)
  have "parseargs (Suc k) ?t = Ok (as, [], r)" using Cons.IH [of "Suc k"] Cons.prems by simp
  then show ?case using pk g words_start(3) [of as r] Cons.prems by (subst parseargs.simps) simp
qed

section \<open>Parsing what was printed\<close>

definition good :: "cmd \<Rightarrow> bool" where
  "good c \<longleftrightarrow> (\<forall>n r. 4 * length (unparse c) + 4 \<le> n \<longrightarrow> ender r \<longrightarrow> parseline n (unparse c @ r) = Ok (c, r))"

lemma unparse_start:
  assumes "cmd_ok c" and "ender r"
  shows "skip_ws (unparse c @ r) = unparse c @ r"
  using assms words_start(1) by (cases c) (simp_all add: tok_simps)

lemma exec_block:
  assumes "good c" and "cmd_ok c" and "4 * length (unparse c) + 6 \<le> n"
  shows "parseexec n (40 # unparse c @ 41 # x) = bindR (parseredirs (skip_ws x)) (\<lambda>(rs, s). Ok (wrap c rs, s))"
proof -
  obtain k where n: "n = Suc (Suc k)" "4 * length (unparse c) + 4 \<le> k" using assms(3)
    by (cases n; cases "n - 1") auto
  have e: "ender (41 # x)" by (simp add: ender_def)
  have "parseline k (unparse c @ 41 # x) = Ok (c, 41 # x)" using assms(1) n(2) e by (simp add: good_def)
  then show ?thesis using unparse_start [OF assms(2) e] by (simp add: n(1) tok_simps)
qed

lemma parseamps_none: "peek s [38] = False \<Longrightarrow> parseamps c s = (c, skip_ws s)"
  by (subst parseamps.simps) simp

lemma parseredirs_none: "peek s [60, 62] = False \<Longrightarrow> parseredirs s = Ok ([], skip_ws s)"
  by (subst parseredirs.simps) simp

lemma parseredirs_one:
  assumes "word_ok f" and "ender r" and "mode = m_rdonly \<and> fd = 0 \<or> (mode = m_trunc \<or> mode = m_append) \<and> fd = 1"
  shows "parseredirs (skip_ws (op_of mode @ f @ r)) = Ok ([(f, mode, fd)], r)"
proof -
  obtain c w where f: "f = c # w" "\<not> is_ws c" "\<not> is_sym c" by (rule word_okE [OF assms(1)])
  note g = gettoken_word [OF assms(1) ender_simps(6) [OF assms(2)]]
  have n: "m_rdonly \<noteq> m_trunc" "m_rdonly \<noteq> m_append" "m_trunc \<noteq> m_append"
    by (simp_all add: m_rdonly_def m_trunc_def m_append_def)
  have s: "skip_ws (f @ r) = f @ r" using f by (simp add: tok_simps)
  have "gettoken (62 # f @ r) = (62, [62], f @ r)" using f sym_chars [OF f(3)] by (simp add: gettoken_gt tok_simps)
  then show ?thesis using assms(3) g s ender_simps [OF assms(2)] n
    by (subst parseredirs.simps) (auto simp: op_of_def tok_simps)
qed

lemma pipe_block:
  assumes "good c" "cmd_ok c" "4 * length (unparse c) + 7 \<le> n" "skip_ws x = x" "peek x [60, 62] = False" "peek x [124] = False"
  shows "parsepipe n (40 # unparse c @ 41 # x) = Ok (c, x)"
proof -
  obtain k where k: "n = Suc k" "4 * length (unparse c) + 6 \<le> k" using assms(3) by (cases n) auto
  show ?thesis using exec_block [OF assms(1,2) k(2), of x] parseredirs_none [OF assms(5)] assms(4,6)
    by (simp add: k(1) wrap_def)
qed

lemma line_block:
  assumes "good c" "cmd_ok c" "4 * length (unparse c) + 8 \<le> n" "ender r"
  shows "parseline n (40 # unparse c @ 41 # r) = Ok (c, r)"
proof -
  obtain k where k: "n = Suc k" "4 * length (unparse c) + 7 \<le> k" using assms(3) by (cases n) auto
  have "peek r [60, 62] = False" using assms(4) by (cases r) (auto simp: ender_def tok_simps)
  then show ?thesis using pipe_block [OF assms(1,2) k(2)] ender_simps [OF assms(4)]
    by (simp add: k(1) parseamps_none)
qed

lemma unparse_good: "cmd_ok c \<Longrightarrow> good c"
proof (induction c)
  case (Exec args)
  show ?case unfolding good_def
  proof (intro allI impI)
    fix n r assume n: "4 * length (unparse (Exec args)) + 4 \<le> n" and r: "ender r"
    let ?s = "concat (map (\<lambda>a. a @ [32]) args) @ r"
    have a: "list_all word_ok args" "0 + length args < MAXARGS" using Exec by simp_all
    obtain k where k: "n = Suc (Suc (Suc k))" using n by (cases n; cases "n - 1"; cases "n - 2") auto
    have "parseexec (Suc k) ?s = Ok (Exec args, r)"
      using words_start [OF a(1) r] parseargs_words [OF a(1) r a(2)] by (simp add: wrap_def)
    then show "parseline n (unparse (Exec args) @ r) = Ok (Exec args, r)"
      using ender_simps [OF r] by (simp add: k parseamps_none)
  qed
next
  case (Redir c f mode fd)
  then have g: "good c" "cmd_ok c" by simp_all
  show ?case unfolding good_def
  proof (intro allI impI)
    fix n r assume n: "4 * length (unparse (Redir c f mode fd)) + 4 \<le> n" and r: "ender r"
    obtain k where k: "n = Suc (Suc k)" "4 * length (unparse c) + 6 \<le> k" using n by (cases n; cases "n - 1") auto
    have "parseexec k (40 # unparse c @ 41 # op_of mode @ f @ r) = Ok (Redir c f mode fd, r)"
      using exec_block [OF g k(2), of "op_of mode @ f @ r"] parseredirs_one [of f r mode fd] Redir.prems r
      by (simp add: wrap_def)
    then show "parseline n (unparse (Redir c f mode fd) @ r) = Ok (Redir c f mode fd, r)"
      using ender_simps [OF r] by (simp add: k(1) parseamps_none)
  qed
next
  case (Pipe c1 c2)
  then have g: "good c1" "cmd_ok c1" "good c2" "cmd_ok c2" by simp_all
  show ?case unfolding good_def
  proof (intro allI impI)
    fix n r assume n: "4 * length (unparse (Pipe c1 c2)) + 4 \<le> n" and r: "ender r"
    obtain k where k: "n = Suc (Suc k)" "4 * length (unparse c1) + 6 \<le> k" "4 * length (unparse c2) + 7 \<le> k"
      using n by (cases n; cases "n - 1") auto
    let ?x = "124 # 40 # unparse c2 @ 41 # r"
    have "parseexec k (40 # unparse c1 @ 41 # ?x) = Ok (c1, ?x)"
      using exec_block [OF g(1,2) k(2), of ?x] by (simp add: tok_simps parseredirs_none wrap_def)
    moreover have "peek r [60, 62] = False" using r by (cases r) (auto simp: ender_def tok_simps)
    then have "parsepipe k (40 # unparse c2 @ 41 # r) = Ok (c2, r)"
      using ender_simps [OF r] by (intro pipe_block [OF g(3,4) k(3)])
    ultimately show "parseline n (unparse (Pipe c1 c2) @ r) = Ok (Pipe c1 c2, r)"
      using ender_simps [OF r] by (simp add: k(1) parseamps_none tok_simps)
  qed
next
  case (List c1 c2)
  then have g: "good c1" "cmd_ok c1" "good c2" "cmd_ok c2" by simp_all
  show ?case unfolding good_def
  proof (intro allI impI)
    fix n r assume n: "4 * length (unparse (List c1 c2)) + 4 \<le> n" and r: "ender r"
    obtain k where k: "n = Suc k" "4 * length (unparse c1) + 7 \<le> k" "4 * length (unparse c2) + 8 \<le> k"
      using n by (cases n) auto
    let ?x = "59 # 40 # unparse c2 @ 41 # r"
    have "parsepipe k (40 # unparse c1 @ 41 # ?x) = Ok (c1, ?x)"
      by (rule pipe_block [OF g(1,2) k(2)]) (simp_all add: tok_simps)
    then show "parseline n (unparse (List c1 c2) @ r) = Ok (List c1 c2, r)"
      using line_block [OF g(3,4) k(3) r] by (simp add: k(1) parseamps_none tok_simps)
  qed
next
  case (Back c)
  then have g: "good c" "cmd_ok c" by simp_all
  show ?case unfolding good_def
  proof (intro allI impI)
    fix n r assume n: "4 * length (unparse (Back c)) + 4 \<le> n" and r: "ender r"
    obtain k where k: "n = Suc k" "4 * length (unparse c) + 7 \<le> k" using n by (cases n) auto
    have "parsepipe k (40 # unparse c @ 41 # 38 # r) = Ok (c, 38 # r)"
      by (rule pipe_block [OF g k(2)]) (simp_all add: tok_simps)
    moreover have "parseamps c (38 # r) = (Back c, r)"
      using ender_simps [OF r] by (subst parseamps.simps) (simp add: tok_simps parseamps_none)
    ultimately show "parseline n (unparse (Back c) @ r) = Ok (Back c, r)"
      using ender_simps [OF r] by (simp add: k(1))
  qed
qed

text \<open>C31. The parser inverts the printer: every command tree that the shell can hold is what parsing its
  command line gives.\<close>

theorem parse_unparse:
  assumes "cmd_ok c"
  shows "parsecmd (unparse c) = Ok c"
proof -
  have "parseline (4 * length (unparse c) + 4) (unparse c @ []) = Ok (c, [])"
    using unparse_good [OF assms] by (simp add: good_def ender_def)
  then show ?thesis by (simp add: parsecmd_def skip_ws_def)
qed

text \<open>\<open>(cat <f;ls)|wc >>g &\<close>\<close>

theorem parse_unparse_witness:
  "let c = Pipe (List (Redir (Exec [[99, 97, 116]]) [102] m_rdonly 0) (Exec [[108, 115]]))
             (Back (Redir (Exec [[119, 99]]) [103] m_append 1))
   in parsecmd (unparse c) = Ok c"
  unfolding Let_def
  by (rule parse_unparse) (simp add: MAXARGS_def word_ok_def is_ws_def is_sym_def whitespace_def symbols_def)

end
