(* ===== verification/Uprog.thy ===== *)
theory Uprog
  imports Ulib
begin

text \<open>
  User programs as the trees of system calls they make, which branch on the results of the calls.
\<close>

datatype sysc =
    Sys_close int
  | Sys_open "byte list" uint
  | Sys_exec "byte list list"
  | Sys_dup int
  | Sys_wait
  | Sys_getpid
  | Sys_write int "byte list"
  | Sys_chdir "byte list"
  | Sys_unlink "byte list"
  | Sys_mkdir "byte list"
  | Sys_link "byte list" "byte list"
  | Sys_mknod "byte list" int int
  | Sys_kill uint
  | Sys_sleep uint

text \<open>
  \<open>Do_read fd n k\<close> calls \<open>read(fd, buf, n)\<close> and goes on with the bytes read, or \<open>None\<close> for an error;
  \<open>Do_pipe k\<close> calls \<open>pipe(p)\<close> and goes on with its result and \<open>p[0]\<close>, \<open>p[1]\<close>; \<open>Do_fork child k\<close> forks a
  process that runs \<open>child\<close> and goes on with the result of \<open>fork\<close> in the parent.
  \<open>Cut\<close> ends the tree of a loop that does not end by itself, after the number of rounds asked for, and
  \<open>Undef\<close> is a step that C leaves undefined.
\<close>

datatype prog =
    Exit int
  | Do sysc "int \<Rightarrow> prog"
  | Do_read int nat "byte list option \<Rightarrow> prog"
  | Do_pipe "int \<Rightarrow> int \<Rightarrow> int \<Rightarrow> prog"
  | Do_fork prog "int \<Rightarrow> prog"
  | Cut
  | Undef

text \<open>\<open>fprintf\<close> writes a character at a time.\<close>

definition print :: "int \<Rightarrow> byte list \<Rightarrow> prog \<Rightarrow> prog" where
  "print fd bs k = foldr (\<lambda>c p. Do (Sys_write fd [c]) (\<lambda>_. p)) bs k"

end
