(* ===== verification/Sh_Run.thy ===== *)
theory Sh_Run
  imports Sh Uprog
begin

text \<open>
  Running shell commands, the second half of \<^verbatim>\<open>user/sh.c\<close>.  Under the rules of the kernel's file descriptor table, the
  tree of \<open>runcmd\<close> starts the programs that the command names, each with the descriptors that the
  command's redirections and pipes give it.
\<close>

section \<open>Running a command\<close>

definition sh_panic :: "string \<Rightarrow> prog" where
  "sh_panic msg = print 2 (bytes msg @ [10]) (Exit 1)"

definition fork1 :: "prog \<Rightarrow> prog \<Rightarrow> prog" where
  "fork1 p k = Do_fork p (\<lambda>pid. if pid = -1 then sh_panic ''fork'' else k)"

primrec runcmd :: "cmd \<Rightarrow> prog" where
  "runcmd (Exec argv) =
     (if argv = [] then Exit 1
      else Do (Sys_exec argv) (\<lambda>_. print 2 (bytes ''exec '' @ argv ! 0 @ bytes '' failed'' @ [10]) (Exit 0)))"
| "runcmd (Redir cmd file mode fd) =
     Do (Sys_close fd) (\<lambda>_. Do (Sys_open file mode) (\<lambda>r.
       if r < 0 then print 2 (bytes ''open '' @ file @ bytes '' failed'' @ [10]) (Exit 1) else runcmd cmd))"
| "runcmd (List left right) = fork1 (runcmd left) (Do Sys_wait (\<lambda>_. runcmd right))"
| "runcmd (Pipe left right) =
     Do_pipe (\<lambda>r p0 p1.
       if r < 0 then sh_panic ''pipe''
       else fork1 (Do (Sys_close 1) (\<lambda>_. Do (Sys_dup p1) (\<lambda>_.
              Do (Sys_close p0) (\<lambda>_. Do (Sys_close p1) (\<lambda>_. runcmd left)))))
           (fork1 (Do (Sys_close 0) (\<lambda>_. Do (Sys_dup p0) (\<lambda>_.
              Do (Sys_close p0) (\<lambda>_. Do (Sys_close p1) (\<lambda>_. runcmd right)))))
           (Do (Sys_close p0) (\<lambda>_. Do (Sys_close p1) (\<lambda>_. Do Sys_wait (\<lambda>_. Do Sys_wait (\<lambda>_. Exit 0)))))))"
| "runcmd (Back cmd) = fork1 (runcmd cmd) (Exit 0)"

text \<open>The child that \<open>main\<close> forks for a line: \<open>runcmd(parsecmd(buf))\<close>.\<close>

definition run_line :: "byte list \<Rightarrow> prog" where
  "run_line buf =
     (case parseline (4 * length buf + 4) buf of
        Ok (cmd, s) \<Rightarrow>
          if skip_ws s \<noteq> [] then print 2 (bytes ''leftovers: '' @ skip_ws s @ [10]) (sh_panic ''syntax'')
          else runcmd cmd
      | Panic msg \<Rightarrow> sh_panic msg
      | Blocked \<Rightarrow> sh_panic '''')"

lemma uread_le: "uread n rs = (r, rs') \<Longrightarrow> input_size rs' \<le> input_size rs"
  by (induction n rs rule: uread.induct) (auto simp: input_size_def split: if_splits)

lemma gets_le: "gets_loop k rs = (bs, rs') \<Longrightarrow> input_size rs' \<le> input_size rs"
proof (induction k arbitrary: rs bs)
  case (Suc k)
  obtain r rs1 where r: "uread 1 rs = (r, rs1)" by (cases "uread 1 rs")
  have "input_size rs1 \<le> input_size rs" by (rule uread_le [OF r])
  then show ?case using Suc.prems Suc.IH [of rs1] r
    by (fastforce split: option.splits list.splits if_splits prod.splits)
qed simp

lemma gets_smaller: "gets_loop k rs = (c # bs, rs') \<Longrightarrow> input_size rs' < input_size rs"
proof (cases k)
  case (Suc j)
  assume g: "gets_loop k rs = (c # bs, rs')"
  obtain r rs1 where r: "uread 1 rs = (r, rs1)" by (cases "uread 1 rs")
  then obtain d ds where d: "r = Some (d # ds)" using g Suc by (auto split: option.splits list.splits)
  have "input_size rs1 < input_size rs" using uread_smaller r d by blast
  then show ?thesis using g Suc r d gets_le [of j rs1] by (fastforce split: if_splits prod.splits)
qed simp

lemma line_shrinks:
  assumes "(line, rs') = gets 100 rs" and "takeWhile (\<lambda>c. c \<noteq> 0) line \<noteq> []"
  shows "input_size rs' < input_size rs"
proof -
  obtain c bs where "line = c # bs" using assms(2) by (cases line) auto
  then show ?thesis using gets_smaller [of 99 rs c bs rs'] assms(1) by (simp add: gets_def)
qed

text \<open>
  The loop of \<open>main\<close> on the lines of standard input: \<open>getcmd\<close> prompts and reads a line into a buffer of
  100 bytes, of which the bytes before a NUL count.  \<open>c\<close>, \<open>d\<close> and the blank are 99, 100 and 32.
\<close>

function sh_loop :: "input \<Rightarrow> prog" where
  "sh_loop rs =
     print 2 (bytes ''$ '')
       (case gets 100 rs of (line, rs') \<Rightarrow>
          let buf = takeWhile (\<lambda>c. c \<noteq> 0) line
          in if buf = [] then Exit 0
             else if take 3 buf = [99, 100, 32]
             then let dir = drop 3 (butlast buf)
                  in Do (Sys_chdir dir) (\<lambda>r.
                       if r < 0 then print 2 (bytes ''cannot cd '' @ dir @ [10]) (sh_loop rs')
                       else sh_loop rs')
             else fork1 (run_line buf) (Do Sys_wait (\<lambda>_. sh_loop rs')))"
  by pat_completeness auto
termination
  by (relation "measure input_size") (auto dest: line_shrinks)

text \<open>\<open>main\<close> first opens the console until the descriptors 0, 1 and 2 are in use; \<open>k\<close> bounds the attempts.\<close>

primrec open_console :: "nat \<Rightarrow> prog \<Rightarrow> prog" where
  "open_console 0 p = Cut"
| "open_console (Suc k) p =
     Do (Sys_open (bytes ''console'') 0x002) (\<lambda>fd.
       if fd \<ge> 0 then if fd \<ge> 3 then Do (Sys_close fd) (\<lambda>_. p) else open_console k p else p)"

definition sh_main :: "input \<Rightarrow> prog" where
  "sh_main rs = open_console (Suc NOFILE) (sh_loop rs)"

section \<open>What a command starts\<close>

text \<open>
  The descriptor table of a process.  \<open>open\<close>, \<open>dup\<close> and \<open>pipe\<close> take the lowest free descriptors.  A pipe
  is named by the place in the tree of processes where it was made.
\<close>

datatype obj = Console_obj | File_obj "byte list" uint | Pipe_read "nat list" | Pipe_write "nat list"

type_synonym fdtable = "int \<rightharpoonup> obj"

definition lowest :: "fdtable \<Rightarrow> int" where
  "lowest t = int (length (takeWhile (\<lambda>i. t (int i) \<noteq> None) [0..<NOFILE]))"

text \<open>The programs started by a tree that runs with a table, when no call fails, with their tables.\<close>

primrec starts :: "prog \<Rightarrow> nat list \<Rightarrow> fdtable \<Rightarrow> (byte list list \<times> fdtable) list" where
  "starts (Exit n) path t = []"
| "starts (Do c k) path t =
     (case c of
        Sys_exec argv \<Rightarrow> [(argv, t)]
      | Sys_close fd \<Rightarrow> starts (k 0) path (t(fd := None))
      | Sys_open f m \<Rightarrow> let fd = lowest t in starts (k fd) path (t(fd \<mapsto> File_obj f m))
      | Sys_dup fd0 \<Rightarrow> let fd = lowest t in starts (k fd) path (t(fd := t fd0))
      | _ \<Rightarrow> starts (k 0) path t)"
| "starts (Do_read fd n k) path t = starts (k (Some [])) path t"
| "starts Cut path t = []"
| "starts Undef path t = []"
| "starts (Do_pipe k) path t =
     (let p0 = lowest t; t = t(p0 \<mapsto> Pipe_read path); p1 = lowest t; t = t(p1 \<mapsto> Pipe_write path)
      in starts (k 0 p0 p1) path t)"
| "starts (Do_fork cp k) path t = starts cp (0 # path) t @ starts (k 1) (1 # path) t"

text \<open>What a command means: the programs it names, with their descriptors.\<close>

primrec wire :: "cmd \<Rightarrow> nat list \<Rightarrow> fdtable \<Rightarrow> (byte list list \<times> fdtable) list" where
  "wire (Exec argv) path t = (if argv = [] then [] else [(argv, t)])"
| "wire (Redir c f m fd) path t = wire c path (t(fd \<mapsto> File_obj f m))"
| "wire (List l r) path t = wire l (0 # path) t @ wire r (1 # path) t"
| "wire (Pipe l r) path t =
     wire l (0 # path) (t(1 \<mapsto> Pipe_write path)) @ wire r (0 # 1 # path) (t(0 \<mapsto> Pipe_read path))"
| "wire (Back c) path t = wire c (0 # path) t"

text \<open>The redirections that the parser makes are of descriptors 0 and 1.\<close>

primrec fds_ok :: "cmd \<Rightarrow> bool" where
  "fds_ok (Exec argv) \<longleftrightarrow> True"
| "fds_ok (Redir c f m fd) \<longleftrightarrow> fds_ok c \<and> (fd = 0 \<or> fd = 1)"
| "fds_ok (List l r) \<longleftrightarrow> fds_ok l \<and> fds_ok r"
| "fds_ok (Pipe l r) \<longleftrightarrow> fds_ok l \<and> fds_ok r"
| "fds_ok (Back c) \<longleftrightarrow> fds_ok c"

definition std :: "fdtable \<Rightarrow> bool" where
  "std t \<longleftrightarrow> dom t = {0, 1, 2}"

lemma lowest_simps:
  "t 0 = None \<Longrightarrow> lowest t = 0"
  "t 0 \<noteq> None \<Longrightarrow> t 1 = None \<Longrightarrow> lowest t = 1"
  "t 0 \<noteq> None \<Longrightarrow> t 1 \<noteq> None \<Longrightarrow> t 2 \<noteq> None \<Longrightarrow> t 3 = None \<Longrightarrow> lowest t = 3"
  "t 0 \<noteq> None \<Longrightarrow> t 1 \<noteq> None \<Longrightarrow> t 2 \<noteq> None \<Longrightarrow> t 3 \<noteq> None \<Longrightarrow> t 4 = None \<Longrightarrow> lowest t = 4"
  by (simp_all add: lowest_def NOFILE_def upt_rec)

lemma starts_wire: "fds_ok c \<Longrightarrow> std t \<Longrightarrow> starts (runcmd c) path t = wire c path t"
proof (induction c arbitrary: path t)
  case (Exec argv)
  then show ?case by simp
next
  case (Redir c f m fd)
  let ?t = "t(fd := None)"
  have t: "t 0 \<noteq> None" "t 1 \<noteq> None" using Redir.prems(2) by (auto simp: std_def)
  then have l: "lowest ?t = fd" using Redir.prems(1) by (auto intro: lowest_simps)
  have "std (t(fd \<mapsto> File_obj f m))" using Redir.prems by (auto simp: std_def)
  then show ?case using Redir l by (auto simp: Let_def)
next
  case (Pipe l r)
  have t: "t 0 \<noteq> None" "t 1 \<noteq> None" "t 2 \<noteq> None" "t 3 = None" "t 4 = None"
    using Pipe.prems(2) domIff [of 3 t] domIff [of 4 t] by (auto simp: std_def simp del: domIff)
  define t2 where "t2 = t(3 \<mapsto> Pipe_read path, 4 \<mapsto> Pipe_write path)"
  have l: "lowest t = 3" "lowest (t(3 \<mapsto> Pipe_read path)) = 4" "lowest (t2(1 := None)) = 1" "lowest (t2(0 := None)) = 0"
    using t by (auto simp: t2_def intro!: lowest_simps)
  have tl: "(t2(1 := None))(1 := (t2(1 := None)) 4, 3 := None, 4 := None) = t(1 \<mapsto> Pipe_write path)"
    and tr: "(t2(0 := None))(0 := (t2(0 := None)) 3, 3 := None, 4 := None) = t(0 \<mapsto> Pipe_read path)"
    using t by (auto simp: t2_def fun_eq_iff)
  have s: "std (t(1 \<mapsto> Pipe_write path))" "std (t(0 \<mapsto> Pipe_read path))" using Pipe.prems(2) by (auto simp: std_def)
  have e: "t2(i := v, 3 := None, 4 := None) = t(i := v, 3 := None, 4 := None)" for i v
    by (auto simp: t2_def fun_eq_iff)
  have "starts (runcmd (Pipe l r)) path t =
      starts (runcmd l) (0 # path) ((t2(1 := None))(1 := (t2(1 := None)) 4, 3 := None, 4 := None)) @
      starts (runcmd r) (0 # 1 # path) ((t2(0 := None))(0 := (t2(0 := None)) 3, 3 := None, 4 := None))"
    using l e by (simp add: Let_def fork1_def t2_def [symmetric] del: fun_upd_apply)
  then show ?case unfolding tl tr using Pipe s by simp
next
  case (List l r)
  then show ?case by (simp add: fork1_def)
next
  case (Back c)
  then show ?case by (simp add: fork1_def)
qed

text \<open>C33. Running a command with the three standard descriptors open starts exactly the programs it names, in
  order, each with the standard descriptors as the redirections and pipes around it say and with no
  other descriptor open.\<close>

theorem runcmd_wires:
  assumes "fds_ok c" and "dom t = {0, 1, 2}"
  shows "starts (runcmd c) [] t = wire c [] t \<and> (\<forall>(argv, u) \<in> set (starts (runcmd c) [] t). dom u = {0, 1, 2})"
proof -
  have "\<forall>(argv, u) \<in> set (wire c path t). std u" if "fds_ok c" "std t" for c path t
    using that
  proof (induction c arbitrary: path t)
    case (Redir c f m fd)
    then have "std (t(fd \<mapsto> File_obj f m))" by (auto simp: std_def)
    then show ?case using Redir by simp
  next
    case (Pipe l r)
    then have "std (t(1 \<mapsto> Pipe_write path))" "std (t(0 \<mapsto> Pipe_read path))" by (auto simp: std_def)
    then show ?case using Pipe by fastforce
  next
    case (List l r)
    then show ?case by fastforce
  qed (simp_all split: if_splits)
  then show ?thesis using starts_wire assms by (simp add: std_def)
qed

text \<open>\<open>a | b > f\<close>\<close>

theorem runcmd_wires_witness:
  "let t = [0 \<mapsto> Console_obj, 1 \<mapsto> Console_obj, 2 \<mapsto> Console_obj]
   in starts (runcmd (Pipe (Exec [[97]]) (Redir (Exec [[98]]) [102] m_trunc 1))) [] t =
     [([[97]], t(1 \<mapsto> Pipe_write [])), ([[98]], t(0 \<mapsto> Pipe_read [], 1 \<mapsto> File_obj [102] m_trunc))]"
proof -
  have "dom [0 :: int \<mapsto> Console_obj, 1 \<mapsto> Console_obj, 2 \<mapsto> Console_obj] = {0, 1, 2}" by auto
  then show ?thesis
    using runcmd_wires [of "Pipe (Exec [[97]]) (Redir (Exec [[98]]) [102] m_trunc 1)"
      "[0 \<mapsto> Console_obj, 1 \<mapsto> Console_obj, 2 \<mapsto> Console_obj]"]
    by simp
qed

end
