(* ===== verification/Uprogs.thy ===== *)
theory Uprogs
  imports Uprog
begin

text \<open>
  Small user programs: \<open>echo\<close>, \<open>kill\<close>, \<open>ln\<close>, \<open>mkdir\<close>, \<open>rm\<close>, \<open>sleep\<close>, \<open>zombie\<close>, \<open>init\<close> and \<open>pingpong\<close> as trees
  of system calls, \<open>cat\<close> and \<open>wc\<close> as functions of the input they read, and \<open>ls\<close> and \<open>find\<close> as
  functions of the files they find.
\<close>

section \<open>Programs without input\<close>

text \<open>\<open>echo\<close>: the arguments after the first, a blank between them and a newline at the end.\<close>

fun echo_loop :: "byte list list \<Rightarrow> prog" where
  "echo_loop [] = Exit 0"
| "echo_loop (a # as) =
     Do (Sys_write 1 a) (\<lambda>_. Do (Sys_write 1 (if as \<noteq> [] then [32] else [10])) (\<lambda>_. echo_loop as))"

definition echo_main :: "byte list list \<Rightarrow> prog" where
  "echo_main argv = echo_loop (drop 1 argv)"

definition kill_main :: "byte list list \<Rightarrow> prog" where
  "kill_main argv =
     (if length argv < 2 then print 2 (bytes ''usage: kill pid...'' @ [10]) (Exit 1)
      else foldr (\<lambda>a p. Do (Sys_kill (atoi a)) (\<lambda>_. p)) (drop 1 argv) (Exit 0))"

definition ln_main :: "byte list list \<Rightarrow> prog" where
  "ln_main argv =
     (if length argv \<noteq> 3 then print 2 (bytes ''Usage: ln old new'' @ [10]) (Exit 1)
      else Do (Sys_link (argv ! 1) (argv ! 2)) (\<lambda>r.
        if r < 0
        then print 2 (bytes ''link '' @ argv ! 1 @ bytes '' '' @ argv ! 2 @ bytes '': failed'' @ [10]) (Exit 0)
        else Exit 0))"

fun mkdir_loop :: "byte list list \<Rightarrow> prog" where
  "mkdir_loop [] = Exit 0"
| "mkdir_loop (a # as) =
     Do (Sys_mkdir a) (\<lambda>r.
       if r < 0 then print 2 (bytes ''mkdir: '' @ a @ bytes '' failed to create'' @ [10]) (Exit 0)
       else mkdir_loop as)"

definition mkdir_main :: "byte list list \<Rightarrow> prog" where
  "mkdir_main argv =
     (if length argv < 2 then print 2 (bytes ''Usage: mkdir files...'' @ [10]) (Exit 1)
      else mkdir_loop (drop 1 argv))"

fun rm_loop :: "byte list list \<Rightarrow> prog" where
  "rm_loop [] = Exit 0"
| "rm_loop (a # as) =
     Do (Sys_unlink a) (\<lambda>r.
       if r < 0 then print 2 (bytes ''rm: '' @ a @ bytes '' failed to delete'' @ [10]) (Exit 0)
       else rm_loop as)"

definition rm_main :: "byte list list \<Rightarrow> prog" where
  "rm_main argv =
     (if length argv < 2 then print 2 (bytes ''Usage: rm files...'' @ [10]) (Exit 1)
      else rm_loop (drop 1 argv))"

definition sleep_main :: "byte list list \<Rightarrow> prog" where
  "sleep_main argv =
     (if length argv \<noteq> 2 then print 1 (bytes ''Error Example:sleep 2'' @ [10]) (Exit (-1))
      else Do (Sys_sleep (atoi (argv ! 1))) (\<lambda>r.
        if r < 0 then print 1 (bytes ''Can not sleep'' @ [10]) (Exit (-1)) else Exit 0))"

definition zombie_main :: prog where
  "zombie_main = Do_fork (Exit 0) (\<lambda>pd. if pd > 0 then Do (Sys_sleep 5) (\<lambda>_. Exit 0) else Exit 0)"

text \<open>
  \<open>init\<close>: \<open>n\<close> bounds how often the shell is started and \<open>m\<close> how many processes one round waits for.
  \<open>CONSOLE\<close> is 1 and \<open>O_RDWR\<close> is 2.
\<close>

primrec init_wait :: "nat \<Rightarrow> int \<Rightarrow> prog \<Rightarrow> prog" where
  "init_wait 0 pd again = Cut"
| "init_wait (Suc m) pd again =
     Do Sys_wait (\<lambda>wpid.
       if wpid = pd then again
       else if wpid < 0 then print 1 (bytes ''init: wait returned an error'' @ [10]) (Exit 1)
       else init_wait m pd again)"

primrec init_loop :: "nat \<Rightarrow> nat \<Rightarrow> prog" where
  "init_loop 0 m = Cut"
| "init_loop (Suc n) m =
     print 1 (bytes ''init: starting sh'' @ [10])
       (Do_fork
         (Do (Sys_exec [bytes ''sh'']) (\<lambda>_. print 1 (bytes ''init: exec sh failed'' @ [10]) (Exit 1)))
         (\<lambda>pd. if pd < 0 then print 1 (bytes ''init: fork failed'' @ [10]) (Exit 1)
                else init_wait m pd (init_loop n m)))"

definition init_main :: "nat \<Rightarrow> nat \<Rightarrow> prog" where
  "init_main n m =
     (let rest = Do (Sys_dup 0) (\<lambda>_. Do (Sys_dup 0) (\<lambda>_. init_loop n m))
      in Do (Sys_open (bytes ''console'') 2) (\<lambda>r.
           if r < 0
           then Do (Sys_mknod (bytes ''console'') 1 0) (\<lambda>_. Do (Sys_open (bytes ''console'') 2) (\<lambda>_. rest))
           else rest))"

text \<open>\<open>pingpong\<close>: \<open>a\<close> is 97; \<open>said\<close> is \<open>n > 0 && c != 0\<close>.\<close>

definition said :: "byte list option \<Rightarrow> bool" where
  "said r = (case r of Some (c # _) \<Rightarrow> c \<noteq> 0 | _ \<Rightarrow> False)"

definition received :: "int \<Rightarrow> string \<Rightarrow> byte list" where
  "received pd what =
     vprintf False (bytes ''<%d>:received '' @ bytes what @ [10]) [Arg_int (word_of_int pd)]"

definition ping_child :: "int \<Rightarrow> int \<Rightarrow> int \<Rightarrow> int \<Rightarrow> prog" where
  "ping_child ps0 ps1 sp0 sp1 =
     Do (Sys_close ps1) (\<lambda>_. Do (Sys_close sp0) (\<lambda>_.
     Do (Sys_write sp1 [97]) (\<lambda>n.
       if n < 0 then print 1 (bytes ''write failed'' @ [10]) (Exit (-1))
       else Do_read ps0 1 (\<lambda>r.
         if r = None then print 1 (bytes ''read error'') (Exit (-1))
         else Do Sys_getpid (\<lambda>spid.
           if said r then print 1 (received spid ''ping'') (Exit 0) else Exit 0)))))"

definition pingpong_main :: prog where
  "pingpong_main =
     Do_pipe (\<lambda>_ ps0 ps1. Do_pipe (\<lambda>_ sp0 sp1.
     Do Sys_getpid (\<lambda>p_pid.
     Do_fork (ping_child ps0 ps1 sp0 sp1) (\<lambda>pd.
       if pd < 0 then print 1 (bytes ''fork failed'' @ [10]) (Exit (-1))
       else Do (Sys_close ps0) (\<lambda>_. Do (Sys_close sp1) (\<lambda>_.
            Do (Sys_write ps1 [97]) (\<lambda>n.
              if n < 0 then print 1 (bytes ''write failed'' @ [10]) (Exit (-1))
              else Do Sys_wait (\<lambda>_. Do_read sp0 1 (\<lambda>r.
                if r = None then print 1 (bytes ''read error'') (Exit (-1))
                else if said r then print 1 (received p_pid ''pong'') (Exit 0) else Exit 0)))))))))"

section \<open>Copying and counting\<close>

text \<open>
  \<open>cat\<close> on one file: the writes, and the status if it exits.  \<open>wr\<close> gives what \<open>write\<close> returns for the
  bytes it is given.
\<close>

function cat :: "(byte list \<Rightarrow> int) \<Rightarrow> input \<Rightarrow> (nat \<times> byte list) list \<times> int option" where
  "cat wr rs =
     (case uread 512 rs of
        (Some [], _) \<Rightarrow> ([], None)
      | (None, _) \<Rightarrow> ([(2, bytes ''cat: read error'' @ [10])], Some 1)
      | (Some (c # cs), rs) \<Rightarrow>
          if wr (c # cs) \<noteq> int (length (c # cs))
          then ([(1, c # cs), (2, bytes ''cat: write error'' @ [10])], Some 1)
          else (case cat wr rs of (ws, st) \<Rightarrow> ((1, c # cs) # ws, st)))"
  by pat_completeness auto
termination
  by (relation "measure (\<lambda>(wr, rs). input_size rs)") (auto dest: uread_smaller sym)

declare cat.simps [simp del]

fun cat_files ::
  "(byte list \<Rightarrow> int) \<Rightarrow> byte list list \<Rightarrow> (byte list \<Rightarrow> input option) \<Rightarrow> (nat \<times> byte list) list \<times> int" where
  "cat_files wr [] op = ([], 0)"
| "cat_files wr (f # fs) op =
     (case op f of
        None \<Rightarrow> ([(2, bytes ''cat: cannot open '' @ f @ [10])], 1)
      | Some rs \<Rightarrow>
          (case cat wr rs of
             (ws, Some st) \<Rightarrow> (ws, st)
           | (ws, None) \<Rightarrow> (case cat_files wr fs op of (ws', st) \<Rightarrow> (ws @ ws', st))))"

definition cat_main ::
  "(byte list \<Rightarrow> int) \<Rightarrow> byte list list \<Rightarrow> input \<Rightarrow> (byte list \<Rightarrow> input option) \<Rightarrow> (nat \<times> byte list) list \<times> int" where
  "cat_main wr argv stdin op =
     (if length argv \<le> 1 then (case cat wr stdin of (ws, st) \<Rightarrow> (ws, case st of None \<Rightarrow> 0 | Some n \<Rightarrow> n))
      else cat_files wr (drop 1 argv) op)"

text \<open>The counters of \<open>wc\<close>: lines, words, characters and \<open>inword\<close>.\<close>

type_synonym counts = "uint \<times> uint \<times> uint \<times> bool"

definition wc_byte :: "counts \<Rightarrow> byte \<Rightarrow> counts" where
  "wc_byte cn b =
     (case cn of (l, w, c, inword) \<Rightarrow>
        let c = c + 1;
            l = (if b = 10 then l + 1 else l)
        in if strchr [32, 13, 9, 10, 11] b \<noteq> None then (l, w, c, False)
           else if \<not> inword then (l, w + 1, c, True)
           else (l, w, c, inword))"

function wc_loop :: "counts \<Rightarrow> input \<Rightarrow> counts option" where
  "wc_loop cn rs =
     (case uread 512 rs of
        (Some [], _) \<Rightarrow> Some cn
      | (None, _) \<Rightarrow> None
      | (Some (c # cs), rs) \<Rightarrow> wc_loop (foldl wc_byte cn (c # cs)) rs)"
  by pat_completeness auto
termination
  by (relation "measure (\<lambda>(cn, rs). input_size rs)") (auto dest: uread_smaller sym)

declare wc_loop.simps [simp del]

text \<open>\<open>wc\<close>: the output, and the status if it exits.\<close>

definition wc :: "byte list \<Rightarrow> input \<Rightarrow> byte list \<times> int option" where
  "wc name rs =
     (case wc_loop (0, 0, 0, False) rs of
        None \<Rightarrow> (bytes ''wc: read error'' @ [10], Some 1)
      | Some (l, w, c, _) \<Rightarrow>
          (vprintf False (bytes ''%d %d %d %s'' @ [10]) [Arg_int l, Arg_int w, Arg_int c, Arg_str (Some name)], None))"

fun wc_files :: "byte list list \<Rightarrow> (byte list \<Rightarrow> input option) \<Rightarrow> byte list \<times> int" where
  "wc_files [] op = ([], 0)"
| "wc_files (f # fs) op =
     (case op f of
        None \<Rightarrow> (bytes ''wc: cannot open '' @ f @ [10], 1)
      | Some rs \<Rightarrow>
          (case wc f rs of
             (out, Some st) \<Rightarrow> (out, st)
           | (out, None) \<Rightarrow> (case wc_files fs op of (out', st) \<Rightarrow> (out @ out', st))))"

definition wc_main :: "byte list list \<Rightarrow> input \<Rightarrow> (byte list \<Rightarrow> input option) \<Rightarrow> byte list \<times> int" where
  "wc_main argv stdin op =
     (if length argv \<le> 1 then (case wc [] stdin of (out, st) \<Rightarrow> (out, case st of None \<Rightarrow> 0 | Some n \<Rightarrow> n))
      else wc_files (drop 1 argv) op)"

section \<open>Directories\<close>

text \<open>
  The files a program finds: \<open>open\<close> of a path fails (\<open>None\<close>), or gives what \<open>fstat\<close> then answers
  (type, inode number and size; \<open>None\<close> if it fails) and the directory entries that \<open>read\<close> delivers
  (inode number and the 14 bytes of the name).
\<close>

type_synonym ustat = "ushort \<times> uint \<times> uint64"
type_synonym files = "byte list \<Rightarrow> (ustat option \<times> (ushort \<times> byte list) list) option"

definition ustat_path :: "files \<Rightarrow> byte list \<Rightarrow> ustat option" where
  "ustat_path w n = (case w n of None \<Rightarrow> None | Some (r, _) \<Rightarrow> r)"

text \<open>The name after the last slash, padded with blanks in \<open>ls\<close>.\<close>

definition base_name :: "byte list \<Rightarrow> byte list" where
  "base_name path = rev (takeWhile (\<lambda>c. c \<noteq> 47) (rev path))"

definition fmtname :: "byte list \<Rightarrow> byte list" where
  "fmtname path =
     (let p = base_name path
      in if length p \<ge> DIRSIZ then p else p @ replicate (DIRSIZ - length p) 32)"

text \<open>The string in \<open>buf\<close> for an entry: the path, a slash and the name up to a NUL.\<close>

definition entry_path :: "byte list \<Rightarrow> byte list \<Rightarrow> byte list" where
  "entry_path path name = path @ [47] @ takeWhile (\<lambda>c. c \<noteq> 0) (take DIRSIZ name)"

text \<open>The line of a file prints the size with \<open>%l\<close>, that of an entry with \<open>%d\<close>, which takes its low half.\<close>

definition ls_line :: "bool \<Rightarrow> byte list \<Rightarrow> ustat \<Rightarrow> byte list" where
  "ls_line long name st =
     (case st of (ty, ino, len) \<Rightarrow>
        vprintf False (bytes (if long then ''%s %d %d %l'' else ''%s %d %d %d'') @ [10])
          [Arg_str (Some name), Arg_int (scast ty), Arg_int ino,
           if long then Arg_ptr len else Arg_int (ucast len)])"

definition ls :: "files \<Rightarrow> byte list \<Rightarrow> (nat \<times> byte list) list" where
  "ls w path =
     (case w path of
        None \<Rightarrow> [(2, bytes ''ls: cannot open '' @ path @ [10])]
      | Some (None, _) \<Rightarrow> [(2, bytes ''ls: cannot stat '' @ path @ [10])]
      | Some (Some st, des) \<Rightarrow>
          if fst st = T_FILE then [(1, ls_line True (fmtname path) st)]
          else if fst st = T_DIR
          then if length path + 1 + DIRSIZ + 1 > 512 then [(1, bytes ''ls: path too long'' @ [10])]
               else map (\<lambda>(inum, name). let buf = entry_path path name in
                      case ustat_path w buf of
                        None \<Rightarrow> (1, bytes ''ls: cannot stat '' @ buf @ [10])
                      | Some st \<Rightarrow> (1, ls_line False (fmtname buf) st))
                      (filter (\<lambda>(inum, name). inum \<noteq> 0) des)
          else [])"

definition ls_main :: "files \<Rightarrow> byte list list \<Rightarrow> (nat \<times> byte list) list" where
  "ls_main w argv = (if length argv < 2 then ls w [46] else concat (map (ls w) (drop 1 argv)))"

text \<open>
  \<open>find\<close>.  It ends because the path grows at every level and \<open>buf\<close> bounds its length.  \<open>.\<close> is 46.
\<close>

function find :: "files \<Rightarrow> byte list \<Rightarrow> byte list \<Rightarrow> (nat \<times> byte list) list" where
  "find w path filename =
     (case w path of
        None \<Rightarrow> [(2, bytes ''find: cannot open '' @ path @ [10])]
      | Some (None, _) \<Rightarrow> [(2, bytes ''find: cannot stat '' @ path @ [10])]
      | Some (Some st, des) \<Rightarrow>
          if fst st = T_DIR
          then if length path + 1 + DIRSIZ + 1 > 512 then [(1, bytes ''find: path too long'' @ [10])]
               else concat (map (\<lambda>(inum, name). let buf = entry_path path name in
                 if inum = 0 then []
                 else if ustat_path w buf = None then [(1, bytes ''find: cannot stat '' @ buf @ [10])]
                 else let bufname = base_name buf
                      in [(1, bytes ''the file in dir '' @ bufname @ [10]),
                          (1, vprintf False (bytes ''bufname cmp: %d'' @ [10])
                                [Arg_int (word_of_int (strcmp bufname [46]))])] @
                         (if strcmp bufname [46] = 0 \<or> strcmp bufname [46, 46] = 0 then []
                          else if strcmp bufname filename = 0
                          then [(1, path @ [47] @ filename @ [10])]
                          else find w buf filename)) des)
          else [])"
  by pat_completeness auto
termination
  by (relation "measure (\<lambda>(w, path, filename). 512 - length path)") (auto simp: entry_path_def DIRSIZ_def)

declare find.simps [simp del]

definition find_main :: "files \<Rightarrow> byte list list \<Rightarrow> (nat \<times> byte list) list \<times> int" where
  "find_main w argv =
     (if length argv < 3 then ([(1, bytes ''argc error '' @ [39] @ bytes ''find'' @ [39] @ bytes '' needs 2 parameters'')], -1)
      else if strcmp (argv ! 1) [46] = 0 then (find w [46] (argv ! 2), 0)
      else ([], 0))"

end
