(* ===== verification/Xargs.thy ===== *)
theory Xargs
  imports Uprog
begin

text \<open>
  \<^verbatim>\<open>user/xargs.c\<close>, with its arrays at their sizes and \<open>cmdArgv\<close> as the pointers it holds.  A
  line runs the command with its words as arguments when a null pointer follows them in \<open>cmdArgv\<close>;
  the program never stores one, and arguments of an earlier line remain after a shorter one.
\<close>

section \<open>The program\<close>

text \<open>
  A pointer of \<open>cmdArgv\<close>: \<open>argv[i]\<close>, an address in \<open>argvBuf\<close>, or a word that was in the uninitialised
  array.  \<open>Raw 0\<close> is the null pointer.
\<close>

datatype cptr = Argv nat | Buf nat | Raw uint64

record xargs_st =
  cmdArgv :: "cptr list"
  argvBuf :: "byte list"
  argvBufSize :: nat
  argvbufp :: nat
  argvi :: nat

text \<open>The string at a pointer; \<open>mem\<close> gives the strings elsewhere in memory.\<close>

fun str_of :: "(uint64 \<Rightarrow> byte list) \<Rightarrow> byte list list \<Rightarrow> byte list \<Rightarrow> cptr \<Rightarrow> byte list" where
  "str_of mem argv buf (Argv i) = argv ! i"
| "str_of mem argv buf (Buf off) = takeWhile (\<lambda>c. c \<noteq> 0) (drop off buf)"
| "str_of mem argv buf (Raw a) = mem a"

definition exec_args :: "(uint64 \<Rightarrow> byte list) \<Rightarrow> byte list list \<Rightarrow> xargs_st \<Rightarrow> byte list list" where
  "exec_args mem argv x = map (str_of mem argv (argvBuf x)) (takeWhile (\<lambda>p. p \<noteq> Raw 0) (cmdArgv x))"

text \<open>
  The stores.  A blank ends a word, any other byte of a word is appended, and the end of a line
  ends the last word; \<open>None\<close> if a store is outside its array.
\<close>

definition put_char :: "byte \<Rightarrow> xargs_st \<Rightarrow> xargs_st option" where
  "put_char c x =
     (if argvBufSize x < length (argvBuf x)
      then Some (x\<lparr>argvBuf := (argvBuf x)[argvBufSize x := c], argvBufSize := Suc (argvBufSize x)\<rparr>)
      else None)"

definition end_word :: "xargs_st \<Rightarrow> xargs_st option" where
  "end_word x =
     (case put_char 0 x of
        None \<Rightarrow> None
      | Some x \<Rightarrow>
          if argvi x < length (cmdArgv x)
          then Some (x\<lparr>cmdArgv := (cmdArgv x)[argvi x := Buf (argvbufp x)], argvi := Suc (argvi x),
                       argvbufp := argvBufSize x\<rparr>)
          else None)"

definition end_line :: "xargs_st \<Rightarrow> xargs_st option" where
  "end_line x =
     (if argvBufSize x < length (argvBuf x) \<and> argvi x < length (cmdArgv x)
      then Some (x\<lparr>argvBuf := (argvBuf x)[argvBufSize x := 0],
                   cmdArgv := (cmdArgv x)[argvi x := Buf (argvbufp x)]\<rparr>)
      else None)"

definition new_line :: "nat \<Rightarrow> xargs_st \<Rightarrow> xargs_st" where
  "new_line argc x = x\<lparr>argvBufSize := 0, argvi := argc - 1, argvbufp := 0\<rparr>"

text \<open>
  The loop over the bytes of a read; \<open>k\<close> goes on after them.  A child whose \<open>exec\<close> fails goes on
  like its parent.  Without a command, \<open>argv[1]\<close> is a null pointer;
  \<open>argc\<close> is at least 1.
\<close>

fun xargs_chars ::
  "(uint64 \<Rightarrow> byte list) \<Rightarrow> byte list list \<Rightarrow> byte list \<Rightarrow> xargs_st \<Rightarrow> (xargs_st \<Rightarrow> prog) \<Rightarrow> prog" where
  "xargs_chars mem argv [] x k = k x"
| "xargs_chars mem argv (c # cs) x k =
     (if c = 32
      then case end_word x of None \<Rightarrow> Undef | Some x \<Rightarrow> xargs_chars mem argv cs x k
      else if c = 10 \<or> c = 13
      then case end_line x of
             None \<Rightarrow> Undef
           | Some x \<Rightarrow>
               let next = Do Sys_wait (\<lambda>_. xargs_chars mem argv cs (new_line (length argv) x) k)
               in Do_fork (if length argv < 2 then Undef else Do (Sys_exec (exec_args mem argv x)) (\<lambda>_. next))
                    (\<lambda>r. if r < 0 then print 1 (bytes ''Failed to fork'' @ [10]) (Exit (-1)) else next)
      else case put_char c x of None \<Rightarrow> Undef | Some x \<Rightarrow> xargs_chars mem argv cs x k)"

text \<open>The loop over the reads, at most \<open>n\<close> of them.\<close>

primrec xargs_loop :: "(uint64 \<Rightarrow> byte list) \<Rightarrow> byte list list \<Rightarrow> nat \<Rightarrow> xargs_st \<Rightarrow> prog" where
  "xargs_loop mem argv 0 x = Cut"
| "xargs_loop mem argv (Suc n) x =
     Do_read 0 512 (\<lambda>r. case r of
        Some (c # cs) \<Rightarrow> xargs_chars mem argv (c # cs) x (xargs_loop mem argv n)
      | _ \<Rightarrow> Exit 0)"

text \<open>\<open>junk\<close> and \<open>jbuf\<close> are what the arrays hold at the start: 32 pointers and 512 bytes.\<close>

definition xargs_main ::
  "(uint64 \<Rightarrow> byte list) \<Rightarrow> cptr list \<Rightarrow> byte list \<Rightarrow> byte list list \<Rightarrow> nat \<Rightarrow> prog" where
  "xargs_main mem junk jbuf argv n =
     (if length argv - 1 > length junk then Undef
      else xargs_loop mem argv n
        \<lparr>cmdArgv = map (\<lambda>i. Argv (Suc i)) [0..<length argv - 1] @ drop (length argv - 1) junk,
         argvBuf = jbuf, argvBufSize = 0, argvbufp = 0, argvi = length argv - 1\<rparr>)"

section \<open>What it runs\<close>

text \<open>The programs that a tree and its children execute when no call fails and the reads give \<open>rs\<close>.\<close>

primrec runs_of :: "prog \<Rightarrow> byte list option list \<Rightarrow> byte list list list" where
  "runs_of (Exit n) rs = []"
| "runs_of (Do c k) rs = (case c of Sys_exec argv \<Rightarrow> [argv] | _ \<Rightarrow> runs_of (k 0) rs)"
| "runs_of (Do_read fd n k) rs = (case rs of [] \<Rightarrow> runs_of (k (Some [])) [] | r # rs \<Rightarrow> runs_of (k r) rs)"
| "runs_of (Do_pipe k) rs = runs_of (k 0 3 4) rs"
| "runs_of (Do_fork cp k) rs = runs_of cp rs @ runs_of (k 1) rs"
| "runs_of Cut rs = []"
| "runs_of Undef rs = []"


text \<open>A line of words, and how \<open>argvBuf\<close> and \<open>cmdArgv\<close> hold the words.\<close>

definition words_ok :: "byte list list \<Rightarrow> bool" where
  "words_ok ws \<longleftrightarrow> (\<forall>w\<in>set ws. \<forall>c\<in>set w. c \<noteq> 0 \<and> c \<noteq> 10 \<and> c \<noteq> 13 \<and> c \<noteq> 32)"

fun line :: "byte list list \<Rightarrow> byte list" where
  "line [] = []"
| "line [w] = w @ [10]"
| "line (w # ws) = w @ 32 # line ws"

definition enc :: "byte list list \<Rightarrow> byte list" where
  "enc ws = concat (map (\<lambda>w. w @ [0]) ws)"

fun ptrs :: "nat \<Rightarrow> byte list list \<Rightarrow> cptr list" where
  "ptrs off [] = []"
| "ptrs off (w # ws) = Buf off # ptrs (Suc (off + length w)) ws"

lemma enc_Cons [simp]: "enc (w # ws) = w @ 0 # enc ws"
  by (simp add: enc_def)

lemma enc_Nil [simp]: "enc [] = []"
  by (simp add: enc_def)

lemma ptrs_length [simp]: "length (ptrs off ws) = length ws"
  by (induction ws arbitrary: off) auto

lemma ptrs_not_null: "Raw 0 \<notin> set (ptrs off ws)"
  by (induction ws arbitrary: off) auto

lemma words_ok_Cons [simp]:
  "words_ok (w # ws) \<longleftrightarrow> (\<forall>c\<in>set w. c \<noteq> 0 \<and> c \<noteq> 10 \<and> c \<noteq> 13 \<and> c \<noteq> 32) \<and> words_ok ws"
  by (simp add: words_ok_def)

lemma str_of_ptrs:
  "words_ok ws \<Longrightarrow> map (str_of mem argv (pre @ enc ws @ rest)) (ptrs (length pre) ws) = ws"
proof (induction ws arbitrary: pre)
  case (Cons w ws)
  have "takeWhile (\<lambda>c. c \<noteq> 0) (w @ 0 # enc ws @ rest) = w"
    using Cons.prems by (simp add: takeWhile_append)
  moreover have "map (str_of mem argv ((pre @ w @ [0]) @ enc ws @ rest)) (ptrs (length (pre @ w @ [0])) ws) = ws"
    by (rule Cons.IH) (use Cons.prems in simp)
  ultimately show ?case by simp
qed simp

lemma chars_word:
  assumes "length w \<le> length rest" and "\<forall>c\<in>set w. c \<noteq> 10 \<and> c \<noteq> 13 \<and> c \<noteq> 32"
  shows "xargs_chars mem argv (w @ cs)
      \<lparr>cmdArgv = ps, argvBuf = pre @ rest, argvBufSize = length pre, argvbufp = b, argvi = i\<rparr> k =
    xargs_chars mem argv cs
      \<lparr>cmdArgv = ps, argvBuf = (pre @ w) @ drop (length w) rest, argvBufSize = length (pre @ w),
       argvbufp = b, argvi = i\<rparr> k"
  using assms
proof (induction w arbitrary: pre rest)
  case (Cons c w)
  then obtain d ds where r: "rest = d # ds" by (cases rest) auto
  have "put_char c \<lparr>cmdArgv = ps, argvBuf = pre @ rest, argvBufSize = length pre, argvbufp = b, argvi = i\<rparr> =
    Some \<lparr>cmdArgv = ps, argvBuf = (pre @ [c]) @ ds, argvBufSize = length (pre @ [c]), argvbufp = b, argvi = i\<rparr>"
    by (simp add: put_char_def r list_update_append)
  then show ?case using Cons.prems Cons.IH [of ds "pre @ [c]"] r by simp
qed simp

lemma end_word_eq:
  "end_word \<lparr>cmdArgv = ps @ p # qs, argvBuf = pre @ d # rest, argvBufSize = length pre,
     argvbufp = b, argvi = length ps\<rparr> =
   Some \<lparr>cmdArgv = (ps @ [Buf b]) @ qs, argvBuf = (pre @ [0]) @ rest, argvBufSize = length (pre @ [0]),
     argvbufp = length (pre @ [0]), argvi = length (ps @ [Buf b])\<rparr>"
  by (simp add: end_word_def put_char_def list_update_append)

lemma end_line_eq:
  "end_line \<lparr>cmdArgv = ps @ p # qs, argvBuf = pre @ d # rest, argvBufSize = length pre,
     argvbufp = b, argvi = length ps\<rparr> =
   Some \<lparr>cmdArgv = ps @ Buf b # qs, argvBuf = pre @ 0 # rest, argvBufSize = length pre,
     argvbufp = b, argvi = length ps\<rparr>"
  by (simp add: end_line_def list_update_append)

text \<open>A line: the command runs with what \<open>cmdArgv\<close> holds, and the next line starts over.\<close>

lemma chars_line:
  assumes "ws \<noteq> []" and "words_ok ws" and "length ws \<le> length qs" and "length (enc ws) \<le> length rest"
    and "2 \<le> length argv"
  shows "\<exists>x. argvBuf x = pre @ enc ws @ drop (length (enc ws)) rest \<and>
    cmdArgv x = ps @ ptrs (length pre) ws @ drop (length ws) qs \<and>
    runs_of (xargs_chars mem argv (line ws @ cs)
      \<lparr>cmdArgv = ps @ qs, argvBuf = pre @ rest, argvBufSize = length pre, argvbufp = length pre,
       argvi = length ps\<rparr> k) rs =
    exec_args mem argv x # runs_of (xargs_chars mem argv cs (new_line (length argv) x) k) rs"
  using assms
proof (induction ws arbitrary: ps qs pre rest rule: line.induct)
  case (2 w)
  obtain q qs' where q: "qs = q # qs'" using 2 by (cases qs) auto
  obtain d ds where d: "drop (length w) rest = d # ds" using 2 by (cases "drop (length w) rest") auto
  have ds: "drop (Suc (length w)) rest = ds" using d by (metis drop_Suc list.sel(3) tl_drop)
  let ?x = "\<lparr>cmdArgv = ps @ Buf (length pre) # qs', argvBuf = (pre @ w) @ 0 # ds,
    argvBufSize = length (pre @ w), argvbufp = length pre, argvi = length ps\<rparr>"
  have w: "\<forall>c\<in>set w. c \<noteq> 10 \<and> c \<noteq> 13 \<and> c \<noteq> 32" and l: "length w \<le> length rest" using 2 by auto
  have "runs_of (xargs_chars mem argv (w @ 10 # cs)
      \<lparr>cmdArgv = ps @ qs, argvBuf = pre @ rest, argvBufSize = length pre, argvbufp = length pre,
       argvi = length ps\<rparr> k) rs =
    exec_args mem argv ?x # runs_of (xargs_chars mem argv cs (new_line (length argv) ?x) k) rs"
    unfolding chars_word [OF l w] d q using 2
    by (simp only: xargs_chars.simps end_line_eq) (simp add: Let_def)
  then show ?case by (intro exI [of _ ?x]) (simp add: q ds)
next
  case (3 w v ws)
  obtain q qs' where q: "qs = q # qs'" using 3 by (cases qs) auto
  obtain d ds where d: "drop (length w) rest = d # ds" using 3 by (cases "drop (length w) rest") auto
  have ds: "drop (Suc (length w)) rest = ds" using d by (metis drop_Suc list.sel(3) tl_drop)
  have w: "\<forall>c\<in>set w. c \<noteq> 10 \<and> c \<noteq> 13 \<and> c \<noteq> 32" and l: "length w \<le> length rest" using 3 by auto
  have dd: "drop (Suc (length w + n)) rest = drop n ds" for n using ds by (metis add.commute add_Suc_right drop_drop)
  have ld: "length (enc (v # ws)) \<le> length ds" using 3 arg_cong [OF ds, of length] by auto
  obtain x where x: "argvBuf x = (pre @ w @ [0]) @ enc (v # ws) @ drop (length (enc (v # ws))) ds"
    "cmdArgv x = (ps @ [Buf (length pre)]) @ ptrs (length (pre @ w @ [0])) (v # ws) @ drop (length (v # ws)) qs'"
    "runs_of (xargs_chars mem argv (line (v # ws) @ cs)
      \<lparr>cmdArgv = (ps @ [Buf (length pre)]) @ qs', argvBuf = (pre @ w @ [0]) @ ds,
       argvBufSize = length (pre @ w @ [0]), argvbufp = length (pre @ w @ [0]),
       argvi = length (ps @ [Buf (length pre)])\<rparr> k) rs =
    exec_args mem argv x # runs_of (xargs_chars mem argv cs (new_line (length argv) x) k) rs"
    using 3(1) [where qs = qs' and rest = ds and ps = "ps @ [Buf (length pre)]" and pre = "pre @ w @ [0]"] 3(3-6) q ld
    by (auto simp del: enc_Cons)
  have "xargs_chars mem argv (line (w # v # ws) @ cs)
      \<lparr>cmdArgv = ps @ qs, argvBuf = pre @ rest, argvBufSize = length pre, argvbufp = length pre,
       argvi = length ps\<rparr> k =
    xargs_chars mem argv (line (v # ws) @ cs)
      \<lparr>cmdArgv = (ps @ [Buf (length pre)]) @ qs', argvBuf = (pre @ w @ [0]) @ ds,
       argvBufSize = length (pre @ w @ [0]), argvbufp = length (pre @ w @ [0]),
       argvi = length (ps @ [Buf (length pre)])\<rparr> k"
    unfolding line.simps append.assoc append_Cons chars_word [OF l w] d q
    using end_word_eq [of ps q qs' "pre @ w" d ds "length pre"] by (subst xargs_chars.simps) simp
  then show ?case using x dd [of "length (enc (v # ws))"]
    by (intro exI [of _ x]) (simp add: q)
qed simp


lemma exec_args_line:
  assumes "argvBuf x = enc ws @ rest" and "cmdArgv x = map (\<lambda>i. Argv (Suc i)) [0..<length argv - 1] @ ptrs 0 ws @ ps"
    and "words_ok ws"
  shows "exec_args mem argv x = drop 1 argv @ ws @ map (str_of mem argv (argvBuf x)) (takeWhile (\<lambda>p. p \<noteq> Raw 0) ps)"
proof -
  have "map (str_of mem argv (argvBuf x)) (map (\<lambda>i. Argv (Suc i)) [0..<length argv - 1]) = drop 1 argv"
    by (rule nth_equalityI) auto
  moreover have "map (str_of mem argv (argvBuf x)) (ptrs 0 ws) = ws"
    using str_of_ptrs [OF assms(3), of mem argv "[]" rest] assms(1) by simp
  moreover have "takeWhile (\<lambda>p. p \<noteq> Raw 0) (cmdArgv x) =
      map (\<lambda>i. Argv (Suc i)) [0..<length argv - 1] @ ptrs 0 ws @ takeWhile (\<lambda>p. p \<noteq> Raw 0) ps"
    unfolding assms(2) using ptrs_not_null [of 0 ws] by (subst takeWhile_append2; auto)+
  ultimately show ?thesis by (simp add: exec_args_def)
qed

text \<open>Reads in any portions give the bytes of the input in order.\<close>

lemma chars_append:
  "xargs_chars mem argv (cs @ ds) x k = xargs_chars mem argv cs x (\<lambda>x. xargs_chars mem argv ds x k)"
  by (induction mem argv cs x k rule: xargs_chars.induct) (auto split: option.splits simp: Let_def)

lemma runs_of_print [simp]: "runs_of (print fd bs p) rs = runs_of p rs"
  unfolding print_def by (induction bs) auto

lemma runs_of_chars:
  assumes "\<And>x. runs_of (k x) rs = runs_of (k' x) rs'"
  shows "runs_of (xargs_chars mem argv cs x k) rs = runs_of (xargs_chars mem argv cs x k') rs'"
proof (induction cs arbitrary: x)
  case (Cons c cs)
  then show ?case by (auto split: option.splits simp: Let_def)
qed (simp add: assms)

lemma runs_of_loop:
  assumes "[] \<notin> set chunks" and "length chunks < n"
  shows "runs_of (xargs_loop mem argv n x) (map Some chunks) =
    runs_of (xargs_chars mem argv (concat chunks) x (\<lambda>_. Exit 0)) []"
  using assms
proof (induction chunks arbitrary: n x)
  case Nil
  then show ?case by (cases n) auto
next
  case (Cons c chunks)
  obtain m where n: "n = Suc m" using Cons.prems by (cases n) auto
  obtain d ds where c: "c = d # ds" using Cons.prems by (cases c) auto
  have "runs_of (xargs_chars mem argv c x (xargs_loop mem argv m)) (map Some chunks) =
    runs_of (xargs_chars mem argv c x (\<lambda>x. xargs_chars mem argv (concat chunks) x (\<lambda>_. Exit 0))) []"
    by (rule runs_of_chars) (use Cons n in auto)
  then show ?case unfolding chars_append [symmetric] by (simp add: n c del: xargs_chars.simps)
qed








lemma drop_over: "length p \<le> n \<Longrightarrow> drop n (p @ drop (length p) l) = drop n l"
  by simp

text \<open>C39.  \<open>cmdArgv\<close> is not terminated again for a new line (\<^verbatim>\<open>user/xargs.c\<close>): after a line
  with the words \<open>a\<close> and \<open>b\<close>, a line with the one word \<open>c\<close>, not longer than \<open>a\<close>, runs the command with the two words
  \<open>c\<close> and \<open>b\<close>.\<close>

theorem xargs_stale_argument:
  assumes "2 \<le> length argv" and "length argv \<le> 30" and "length jbuf = 512"
    and "words_ok [a, b, c]" and "length c \<le> length a" and "length a + length b + 2 \<le> 512"
    and "2 \<le> n"
  shows "runs_of (xargs_main mem (replicate 32 (Raw 0)) jbuf argv n) [Some (line [a, b] @ line [c])] =
    [drop 1 argv @ [a, b], drop 1 argv @ [c, b]]"
proof -
  let ?A = "map (\<lambda>i. Argv (Suc i)) [0..<length argv - 1]"
  let ?qs = "replicate (32 - (length argv - 1)) (Raw 0)"
  let ?st = "\<lambda>qs buf. \<lparr>cmdArgv = ?A @ qs, argvBuf = [] @ buf, argvBufSize = length ([] :: byte list),
    argvbufp = length ([] :: byte list), argvi = length ?A\<rparr>"
  let ?run = "\<lambda>cs x. runs_of (xargs_chars mem argv cs x (\<lambda>_. Exit 0)) []"
  have argc: "?qs = Raw 0 # Raw 0 # Raw 0 # replicate (30 - length argv) (Raw 0)"
    using assms(1,2) by (simp flip: replicate_Suc)
  have two: "Suc (Suc 0) \<le> 33 - length argv" using assms(2) by simp
  obtain y where y: "argvBuf y = enc [a, b] @ drop (length (enc [a, b])) jbuf"
    "cmdArgv y = ?A @ ptrs 0 [a, b] @ drop 2 ?qs"
    "?run (line [a, b] @ line [c]) (?st ?qs jbuf) =
      exec_args mem argv y # ?run (line [c]) (new_line (length argv) y)"
    using chars_line [of "[a, b]" ?qs jbuf argv "[]" ?A mem "line [c]" "\<lambda>_. Exit 0" "[]"] assms two
    by (auto simp del: xargs_chars.simps line.simps)
  have ny: "new_line (length argv) y = ?st (ptrs 0 [a, b] @ drop 2 ?qs) (argvBuf y)"
    using y(2) by (simp add: new_line_def)
  obtain z where z: "argvBuf z = enc [c] @ drop (length (enc [c])) (argvBuf y)"
    "cmdArgv z = ?A @ ptrs 0 [c] @ Buf (Suc (length a)) # drop 2 ?qs"
    "?run (line [c]) (new_line (length argv) y) = [exec_args mem argv z]"
    using chars_line [of "[c]" "ptrs 0 [a, b] @ drop 2 ?qs" "argvBuf y" argv "[]" ?A mem "[]" "\<lambda>_. Exit 0" "[]"]
      assms y(1) ny by (auto simp del: xargs_chars.simps(2) line.simps)
  have "drop (Suc (length a)) (argvBuf z) = b @ 0 # drop (length (enc [a, b])) jbuf"
    unfolding z(1) using drop_over [of "enc [c]" "Suc (length a)" "argvBuf y"] assms(5) y(1) by simp
  then have "takeWhile (\<lambda>c. c \<noteq> 0) (drop (Suc (length a)) (argvBuf z)) = b"
    using assms(4) by (simp add: takeWhile_append)
  then have "exec_args mem argv z = drop 1 argv @ [c, b]"
    using exec_args_line [OF z(1,2)] assms(4) by (simp add: argc)
  moreover have "exec_args mem argv y = drop 1 argv @ [a, b]"
    using exec_args_line [OF y(1,2)] assms(4) by (simp add: argc)
  moreover have "xargs_main mem (replicate 32 (Raw 0)) jbuf argv n = xargs_loop mem argv n (?st ?qs jbuf)"
    unfolding xargs_main_def by (subst if_not_P) (use assms(2) in auto)
  moreover have "runs_of (xargs_loop mem argv n (?st ?qs jbuf)) (map Some [line [a, b] @ line [c]]) =
      ?run (line [a, b] @ line [c]) (?st ?qs jbuf)"
    using runs_of_loop [of "[line [a, b] @ line [c]]" n mem argv "?st ?qs jbuf"] assms(7) by simp
  ultimately show ?thesis using y(3) z(3) by simp
qed

theorem xargs_stale_argument_witness:
  "runs_of (xargs_main (\<lambda>_. []) (replicate 32 (Raw 0)) (replicate 512 0) [[120], [101]] 2)
     [Some [97, 32, 98, 10, 99, 10]] = [[[101], [97], [98]], [[101], [99], [98]]]"
  using xargs_stale_argument [of "[[120], [101]]" "replicate 512 0" "[97]" "[98]" "[99]" 2 "\<lambda>_. []"]
  by (simp add: words_ok_def)

end
