(* ===== verification/Sched.thy ===== *)
theory Sched
  imports Procs
begin

text \<open>
  The scheduler and the process states on several CPUs, \<^verbatim>\<open>kernel/proc.c\<close>.  A step is what a CPU
  does between two operations on a lock: a loop over the table, \<open>swtch\<close> and the changes of a
  process under its lock are separate steps, and the steps of all CPUs interleave.  A process is on
  at most one CPU, \<open>sched\<close> never panics, and a process that sleeps on a channel does not miss the
  \<open>wakeup\<close> of a condition that holds.
\<close>

section \<open>State\<close>

text \<open>
  Where a CPU is: \<open>S_loop i\<close> before \<open>acquire\<close> in the loop of \<open>scheduler\<close>, \<open>S_test i\<close> after it,
  \<open>S_in p\<close> in the kernel thread of a process (or in its user code), \<open>S_ret i\<close> after \<open>swtch\<close> has
  returned, \<open>S_back i\<close> before \<open>release\<close>.
\<close>

datatype spc = S_loop nat | S_test nat | S_in nat | S_ret nat | S_back nat

text \<open>
  Where the thread of a process is.  \<open>P_swtch r\<close> is in \<open>sched\<close> before \<open>swtch\<close>, \<open>P_off r\<close> switched out
  and \<open>P_res r\<close> just switched in again, where \<open>r\<close> says which code called \<open>sched\<close>.  A channel stands for
  the condition that its users wait for and the lock that they hold; \<open>P_crit ch\<close> holds that lock.
\<close>

datatype ppc =
    P_run
  | P_yield ppc | P_swtch ret | P_off ret | P_res ret
  | P_crit wchan | P_sleep1 wchan | P_sleep2 wchan | P_sleep3 wchan | P_awake wchan | P_reacq wchan
  | P_wake wchan nat | P_wake_at wchan nat | P_wake_done wchan nat
  | P_kill int nat | P_kill_at int nat | P_kill_rel int nat | P_kill_end nat
  | P_exit
  | P_alloc nat | P_alloc_at nat | P_alloc_rel nat | P_alloc_done nat
  | P_parent nat | P_forked nat | P_forked_at nat | P_fork_end nat
  | P_wait nat | P_wait_at nat | P_wait_rel nat
and ret = R_yield ppc | R_sleep wchan | R_fork | R_dead

text \<open>
  \<open>plk i\<close> is the CPU that holds \<open>proc[i].lock\<close>, \<open>clk ch\<close> the one that holds the lock of a channel,
  and \<open>cond ch\<close> whether its condition holds.  \<open>cproc c\<close> is \<open>cpus[c].proc\<close>.
\<close>

record sys =
  ptab :: "nat \<Rightarrow> proc"
  plk :: "nat \<Rightarrow> nat option"
  clk :: "wchan \<Rightarrow> nat option"
  cond :: "wchan \<Rightarrow> bool"
  cpus :: "nat \<Rightarrow> spc"
  cproc :: "nat \<Rightarrow> nat option"
  thr :: "nat \<Rightarrow> ppc"

abbreviation go :: "nat \<Rightarrow> ppc \<Rightarrow> sys \<Rightarrow> sys" where
  "go p pc s \<equiv> s\<lparr>thr := (thr s)(p := pc)\<rparr>"

abbreviation gocpu :: "nat \<Rightarrow> spc \<Rightarrow> sys \<Rightarrow> sys" where
  "gocpu c k s \<equiv> s\<lparr>cpus := (cpus s)(c := k)\<rparr>"

abbreviation setp :: "nat \<Rightarrow> (proc \<Rightarrow> proc) \<Rightarrow> sys \<Rightarrow> sys" where
  "setp i f s \<equiv> s\<lparr>ptab := (ptab s)(i := f (ptab s i))\<rparr>"

abbreviation lockp :: "nat \<Rightarrow> nat \<Rightarrow> sys \<Rightarrow> sys" where
  "lockp i c s \<equiv> s\<lparr>plk := (plk s)(i := Some c)\<rparr>"

abbreviation unlockp :: "nat \<Rightarrow> sys \<Rightarrow> sys" where
  "unlockp i s \<equiv> s\<lparr>plk := (plk s)(i := None)\<rparr>"

abbreviation lockc :: "wchan \<Rightarrow> nat \<Rightarrow> sys \<Rightarrow> sys" where
  "lockc ch c s \<equiv> s\<lparr>clk := (clk s)(ch := Some c)\<rparr>"

abbreviation unlockc :: "wchan \<Rightarrow> sys \<Rightarrow> sys" where
  "unlockc ch s \<equiv> s\<lparr>clk := (clk s)(ch := None)\<rparr>"

abbreviation setcond :: "wchan \<Rightarrow> bool \<Rightarrow> sys \<Rightarrow> sys" where
  "setcond ch b s \<equiv> s\<lparr>cond := (cond s)(ch := b)\<rparr>"

abbreviation pst :: "sys \<Rightarrow> nat \<Rightarrow> procstate" where
  "pst s p \<equiv> pstate (ptab s p)"

section \<open>Steps\<close>

text \<open>\<open>scheduler\<close> on CPU \<open>c\<close>; \<open>swtch\<close> to a process resumes its thread where it was switched out.\<close>

inductive scheduler :: "nat \<Rightarrow> sys \<Rightarrow> sys \<Rightarrow> bool" for c where
  sched_acquire: "cpus s c = S_loop i \<Longrightarrow> plk s i = None \<Longrightarrow>
    scheduler c s (gocpu c (S_test i) (lockp i c s))"
| sched_run: "cpus s c = S_test i \<Longrightarrow> pst s i = RUNNABLE \<Longrightarrow> thr s i = P_off r \<Longrightarrow>
    scheduler c s (go i (P_res r) (gocpu c (S_in i)
      ((setp i (pstate_update (\<lambda>_. RUNNING)) s)\<lparr>cproc := (cproc s)(c := Some i)\<rparr>)))"
| sched_skip: "cpus s c = S_test i \<Longrightarrow> pst s i \<noteq> RUNNABLE \<Longrightarrow> scheduler c s (gocpu c (S_back i) s)"
| sched_ret: "cpus s c = S_ret i \<Longrightarrow>
    scheduler c s (gocpu c (S_back i) (s\<lparr>cproc := (cproc s)(c := None)\<rparr>))"
| sched_release: "cpus s c = S_back i \<Longrightarrow>
    scheduler c s (gocpu c (S_loop (Suc i mod NPROC)) (unlockp i s))"

text \<open>
  The lock of a process and the interrupt nesting of a CPU as \<open>Spinlock\<close> has them: a CPU has nested as
  often as it holds locks, and its interrupts are off while it holds one.
\<close>

definition proc_lock :: "sys \<Rightarrow> nat \<Rightarrow> spinlock" where
  "proc_lock s i = \<lparr>locked = (if plk s i = None then 0 else 1), lname = ''proc'', lcpu = plk s i\<rparr>"

definition cpu_irq :: "sys \<Rightarrow> nat \<Rightarrow> cpu" where
  "cpu_irq s c =
     (let n = card {i. plk s i = Some c} + card {ch. clk s ch = Some c}
      in \<lparr>noff = int n, intena = True, sie = (n = 0)\<rparr>)"

text \<open>\<open>sched\<close>: the thread of \<open>p\<close> leaves CPU \<open>c\<close>, if the checks do not panic.\<close>

inductive sched :: "nat \<Rightarrow> nat \<Rightarrow> sys \<Rightarrow> sys \<Rightarrow> bool" for c p where
  sched_swtch: "cpus s c = S_in p \<Longrightarrow> thr s p = P_swtch r \<Longrightarrow>
    sched_check c (proc_lock s p) (cpu_irq s c) (ptab s p) = Ok () \<Longrightarrow>
    sched c p s (go p (P_off r) (gocpu c (S_ret p) s))"

text \<open>\<open>yield\<close>, which a timer interrupt calls where the thread holds no lock.\<close>

fun preemptible :: "ppc \<Rightarrow> bool" where
  "preemptible P_run = True"
| "preemptible (P_reacq ch) = True"
| "preemptible (P_kill pd j) = True"
| "preemptible (P_alloc j) = True"
| "preemptible (P_parent j) = True"
| "preemptible (P_forked j) = True"
| "preemptible _ = False"

inductive yield :: "nat \<Rightarrow> nat \<Rightarrow> sys \<Rightarrow> sys \<Rightarrow> bool" for c p where
  yield_acquire: "cpus s c = S_in p \<Longrightarrow> preemptible (thr s p) \<Longrightarrow> plk s p = None \<Longrightarrow>
    yield c p s (go p (P_yield (thr s p)) (lockp p c s))"
| yield_state: "cpus s c = S_in p \<Longrightarrow> thr s p = P_yield pc \<Longrightarrow>
    yield c p s (go p (P_swtch (R_yield pc)) (setp p (pstate_update (\<lambda>_. RUNNABLE)) s))"
| yield_release: "cpus s c = S_in p \<Longrightarrow> thr s p = P_res (R_yield pc) \<Longrightarrow>
    yield c p s (go p pc (unlockp p s))"

text \<open>\<open>forkret\<close> releases the lock that \<open>scheduler\<close> took.\<close>

inductive forkret_cpu :: "nat \<Rightarrow> nat \<Rightarrow> sys \<Rightarrow> sys \<Rightarrow> bool" for c p where
  forkret_release: "cpus s c = S_in p \<Longrightarrow> thr s p = P_res R_fork \<Longrightarrow>
    forkret_cpu c p s (go p P_run (unlockp p s))"

text \<open>
  Code that waits for a condition: it takes the lock, may change the condition, and calls \<open>sleep\<close>
  while it does not hold or \<open>wakeup\<close> after making it hold.
\<close>

inductive critical :: "nat \<Rightarrow> nat \<Rightarrow> sys \<Rightarrow> sys \<Rightarrow> bool" for c p where
  crit_acquire: "cpus s c = S_in p \<Longrightarrow> thr s p = P_run \<Longrightarrow> clk s ch = None \<Longrightarrow>
    critical c p s (go p (P_crit ch) (lockc ch c s))"
| crit_clear: "cpus s c = S_in p \<Longrightarrow> thr s p = P_crit ch \<Longrightarrow> critical c p s (setcond ch False s)"
| crit_wakeup: "cpus s c = S_in p \<Longrightarrow> thr s p = P_crit ch \<Longrightarrow>
    critical c p s (go p (P_wake ch 0) (setcond ch True s))"
| crit_sleep: "cpus s c = S_in p \<Longrightarrow> thr s p = P_crit ch \<Longrightarrow> \<not> cond s ch \<Longrightarrow>
    critical c p s (go p (P_sleep1 ch) s)"
| crit_release: "cpus s c = S_in p \<Longrightarrow> thr s p = P_crit ch \<Longrightarrow>
    critical c p s (go p P_run (unlockc ch s))"

inductive sleep_cpu :: "nat \<Rightarrow> nat \<Rightarrow> sys \<Rightarrow> sys \<Rightarrow> bool" for c p where
  sleep_acquire: "cpus s c = S_in p \<Longrightarrow> thr s p = P_sleep1 ch \<Longrightarrow> plk s p = None \<Longrightarrow>
    sleep_cpu c p s (go p (P_sleep2 ch) (lockp p c s))"
| sleep_release: "cpus s c = S_in p \<Longrightarrow> thr s p = P_sleep2 ch \<Longrightarrow>
    sleep_cpu c p s (go p (P_sleep3 ch) (unlockc ch s))"
| sleep_state: "cpus s c = S_in p \<Longrightarrow> thr s p = P_sleep3 ch \<Longrightarrow>
    sleep_cpu c p s (go p (P_swtch (R_sleep ch)) (setp p (\<lambda>q. q\<lparr>chan := Some ch, pstate := SLEEPING\<rparr>) s))"
| sleep_tidy: "cpus s c = S_in p \<Longrightarrow> thr s p = P_res (R_sleep ch) \<Longrightarrow>
    sleep_cpu c p s (go p (P_awake ch) (setp p (chan_update (\<lambda>_. None)) s))"
| sleep_release2: "cpus s c = S_in p \<Longrightarrow> thr s p = P_awake ch \<Longrightarrow>
    sleep_cpu c p s (go p (P_reacq ch) (unlockp p s))"
| sleep_reacquire: "cpus s c = S_in p \<Longrightarrow> thr s p = P_reacq ch \<Longrightarrow> clk s ch = None \<Longrightarrow>
    sleep_cpu c p s (go p (P_crit ch) (lockc ch c s))"

text \<open>\<open>wakeup\<close>; \<open>wake_one\<close> is what it does to a process.\<close>

definition wake_one :: "wchan \<Rightarrow> proc \<Rightarrow> proc" where
  "wake_one ch q = (if pstate q = SLEEPING \<and> chan q = Some ch then q\<lparr>pstate := RUNNABLE\<rparr> else q)"

inductive wakeup_cpu :: "nat \<Rightarrow> nat \<Rightarrow> sys \<Rightarrow> sys \<Rightarrow> bool" for c p where
  wakeup_self: "cpus s c = S_in p \<Longrightarrow> thr s p = P_wake ch j \<Longrightarrow> j < NPROC \<Longrightarrow> cproc s c = Some j \<Longrightarrow>
    wakeup_cpu c p s (go p (P_wake ch (Suc j)) s)"
| wakeup_acquire: "cpus s c = S_in p \<Longrightarrow> thr s p = P_wake ch j \<Longrightarrow> j < NPROC \<Longrightarrow> cproc s c \<noteq> Some j \<Longrightarrow>
    plk s j = None \<Longrightarrow> wakeup_cpu c p s (go p (P_wake_at ch j) (lockp j c s))"
| wakeup_state: "cpus s c = S_in p \<Longrightarrow> thr s p = P_wake_at ch j \<Longrightarrow>
    wakeup_cpu c p s (go p (P_wake_done ch j) (setp j (wake_one ch) s))"
| wakeup_release: "cpus s c = S_in p \<Longrightarrow> thr s p = P_wake_done ch j \<Longrightarrow>
    wakeup_cpu c p s (go p (P_wake ch (Suc j)) (unlockp j s))"
| wakeup_end: "cpus s c = S_in p \<Longrightarrow> thr s p = P_wake ch j \<Longrightarrow> \<not> j < NPROC \<Longrightarrow>
    wakeup_cpu c p s (go p (P_crit ch) s)"

definition kill_one :: "proc \<Rightarrow> proc" where
  "kill_one q = (if pstate q = SLEEPING then q\<lparr>killed := 1, pstate := RUNNABLE\<rparr> else q\<lparr>killed := 1\<rparr>)"

inductive kill_cpu :: "nat \<Rightarrow> nat \<Rightarrow> sys \<Rightarrow> sys \<Rightarrow> bool" for c p where
  kill_call: "cpus s c = S_in p \<Longrightarrow> thr s p = P_run \<Longrightarrow> kill_cpu c p s (go p (P_kill pd 0) s)"
| kill_acquire: "cpus s c = S_in p \<Longrightarrow> thr s p = P_kill pd j \<Longrightarrow> j < NPROC \<Longrightarrow> plk s j = None \<Longrightarrow>
    kill_cpu c p s (go p (P_kill_at pd j) (lockp j c s))"
| kill_hit: "cpus s c = S_in p \<Longrightarrow> thr s p = P_kill_at pd j \<Longrightarrow> pid (ptab s j) = pd \<Longrightarrow>
    kill_cpu c p s (go p (P_kill_end j) (setp j kill_one s))"
| kill_miss: "cpus s c = S_in p \<Longrightarrow> thr s p = P_kill_at pd j \<Longrightarrow> pid (ptab s j) \<noteq> pd \<Longrightarrow>
    kill_cpu c p s (go p (P_kill_rel pd j) s)"
| kill_next: "cpus s c = S_in p \<Longrightarrow> thr s p = P_kill_rel pd j \<Longrightarrow>
    kill_cpu c p s (go p (P_kill pd (Suc j)) (unlockp j s))"
| kill_return: "cpus s c = S_in p \<Longrightarrow> thr s p = P_kill_end j \<Longrightarrow>
    kill_cpu c p s (go p P_run (unlockp j s))"
| kill_none: "cpus s c = S_in p \<Longrightarrow> thr s p = P_kill pd j \<Longrightarrow> \<not> j < NPROC \<Longrightarrow>
    kill_cpu c p s (go p P_run s)"

text \<open>The end of \<open>exit\<close>.\<close>

inductive exit_cpu :: "nat \<Rightarrow> nat \<Rightarrow> sys \<Rightarrow> sys \<Rightarrow> bool" for c p where
  exit_acquire: "cpus s c = S_in p \<Longrightarrow> thr s p = P_run \<Longrightarrow> plk s p = None \<Longrightarrow>
    exit_cpu c p s (go p P_exit (lockp p c s))"
| exit_state: "cpus s c = S_in p \<Longrightarrow> thr s p = P_exit \<Longrightarrow>
    exit_cpu c p s (go p (P_swtch R_dead) (setp p (\<lambda>q. q\<lparr>xstate := st, pstate := ZOMBIE\<rparr>) s))"

text \<open>The search of \<open>allocproc\<close>, which prepares the context of the new process for \<open>forkret\<close>; without
  memory the process is freed again.\<close>

inductive allocproc_cpu :: "nat \<Rightarrow> nat \<Rightarrow> sys \<Rightarrow> sys \<Rightarrow> bool" for c p where
  alloc_call: "cpus s c = S_in p \<Longrightarrow> thr s p = P_run \<Longrightarrow> allocproc_cpu c p s (go p (P_alloc 0) s)"
| alloc_acquire: "cpus s c = S_in p \<Longrightarrow> thr s p = P_alloc j \<Longrightarrow> j < NPROC \<Longrightarrow> plk s j = None \<Longrightarrow>
    allocproc_cpu c p s (go p (P_alloc_at j) (lockp j c s))"
| alloc_found: "cpus s c = S_in p \<Longrightarrow> thr s p = P_alloc_at j \<Longrightarrow> pst s j = UNUSED \<Longrightarrow>
    allocproc_cpu c p s (go p (P_alloc_done j) (go j (P_off R_fork)
      (setp j (\<lambda>q. q\<lparr>pid := pd, pstate := USED\<rparr>) s)))"
| alloc_skip: "cpus s c = S_in p \<Longrightarrow> thr s p = P_alloc_at j \<Longrightarrow> pst s j \<noteq> UNUSED \<Longrightarrow>
    allocproc_cpu c p s (go p (P_alloc_rel j) s)"
| alloc_next: "cpus s c = S_in p \<Longrightarrow> thr s p = P_alloc_rel j \<Longrightarrow>
    allocproc_cpu c p s (go p (P_alloc (Suc j)) (unlockp j s))"
| alloc_fail: "cpus s c = S_in p \<Longrightarrow> thr s p = P_alloc_done j \<Longrightarrow>
    allocproc_cpu c p s (go p (P_fork_end j) (go j (P_off R_dead)
      (setp j (\<lambda>q. q\<lparr>pid := 0, parent := None, chan := None, killed := 0, xstate := 0, pstate := UNUSED\<rparr>) s)))"
| alloc_none: "cpus s c = S_in p \<Longrightarrow> thr s p = P_alloc j \<Longrightarrow> \<not> j < NPROC \<Longrightarrow>
    allocproc_cpu c p s (go p P_run s)"

text \<open>
  The end of \<open>fork\<close>: it releases the child's lock, sets its parent, takes the lock again, and makes the
  child runnable.  \<open>wait_lock\<close>, which orders \<open>fork\<close>, \<open>wait\<close> and \<open>exit\<close>, is left out: these steps
  interleave in more ways than the code allows.
\<close>

inductive fork_cpu :: "nat \<Rightarrow> nat \<Rightarrow> sys \<Rightarrow> sys \<Rightarrow> bool" for c p where
  fork_release: "cpus s c = S_in p \<Longrightarrow> thr s p = P_alloc_done j \<Longrightarrow>
    fork_cpu c p s (go p (P_parent j) (unlockp j s))"
| fork_parent: "cpus s c = S_in p \<Longrightarrow> thr s p = P_parent j \<Longrightarrow>
    fork_cpu c p s (go p (P_forked j) (setp j (parent_update (\<lambda>_. Some p)) s))"
| fork_acquire: "cpus s c = S_in p \<Longrightarrow> thr s p = P_forked j \<Longrightarrow> plk s j = None \<Longrightarrow>
    fork_cpu c p s (go p (P_forked_at j) (lockp j c s))"
| fork_state: "cpus s c = S_in p \<Longrightarrow> thr s p = P_forked_at j \<Longrightarrow>
    fork_cpu c p s (go p (P_fork_end j) (setp j (pstate_update (\<lambda>_. RUNNABLE)) s))"
| fork_return: "cpus s c = S_in p \<Longrightarrow> thr s p = P_fork_end j \<Longrightarrow>
    fork_cpu c p s (go p P_run (unlockp j s))"

text \<open>The scan of \<open>wait\<close>, which frees a child that has exited.\<close>

inductive wait_cpu :: "nat \<Rightarrow> nat \<Rightarrow> sys \<Rightarrow> sys \<Rightarrow> bool" for c p where
  wait_call: "cpus s c = S_in p \<Longrightarrow> thr s p = P_run \<Longrightarrow> wait_cpu c p s (go p (P_wait 0) s)"
| wait_other: "cpus s c = S_in p \<Longrightarrow> thr s p = P_wait j \<Longrightarrow> j < NPROC \<Longrightarrow> parent (ptab s j) \<noteq> Some p \<Longrightarrow>
    wait_cpu c p s (go p (P_wait (Suc j)) s)"
| wait_acquire: "cpus s c = S_in p \<Longrightarrow> thr s p = P_wait j \<Longrightarrow> j < NPROC \<Longrightarrow> parent (ptab s j) = Some p \<Longrightarrow>
    plk s j = None \<Longrightarrow> wait_cpu c p s (go p (P_wait_at j) (lockp j c s))"
| wait_free: "cpus s c = S_in p \<Longrightarrow> thr s p = P_wait_at j \<Longrightarrow> pst s j = ZOMBIE \<Longrightarrow>
    wait_cpu c p s (go p (P_fork_end j) (setp j (\<lambda>q. q\<lparr>pid := 0, parent := None, chan := None,
      killed := 0, xstate := 0, pstate := UNUSED\<rparr>) s))"
| wait_skip: "cpus s c = S_in p \<Longrightarrow> thr s p = P_wait_at j \<Longrightarrow> pst s j \<noteq> ZOMBIE \<Longrightarrow>
    wait_cpu c p s (go p (P_wait_rel j) s)"
| wait_next: "cpus s c = S_in p \<Longrightarrow> thr s p = P_wait_rel j \<Longrightarrow>
    wait_cpu c p s (go p (P_wait (Suc j)) (unlockp j s))"
| wait_end: "cpus s c = S_in p \<Longrightarrow> thr s p = P_wait j \<Longrightarrow> \<not> j < NPROC \<Longrightarrow>
    wait_cpu c p s (go p P_run s)"

definition kstep :: "sys \<Rightarrow> sys \<Rightarrow> bool" where
  "kstep s s' \<longleftrightarrow> (\<exists>c. scheduler c s s' \<or> (\<exists>p. sched c p s s' \<or> yield c p s s' \<or> forkret_cpu c p s s' \<or>
     critical c p s s' \<or> sleep_cpu c p s s' \<or> wakeup_cpu c p s s' \<or> kill_cpu c p s s' \<or> exit_cpu c p s s' \<or>
     allocproc_cpu c p s s' \<or> fork_cpu c p s s' \<or> wait_cpu c p s s'))"


text \<open>The state when \<open>userinit\<close> has made the first process and the CPUs enter \<open>scheduler\<close>.\<close>

definition kinit_state :: "sys \<Rightarrow> bool" where
  "kinit_state s \<longleftrightarrow>
     pst s 0 = RUNNABLE \<and> thr s 0 = P_off R_fork \<and>
     (\<forall>p. p \<noteq> 0 \<longrightarrow> pst s p = UNUSED \<and> thr s p = P_off R_dead) \<and>
     (\<forall>i. plk s i = None) \<and> (\<forall>ch. clk s ch = None) \<and> (\<forall>c. cpus s c = S_loop 0 \<and> cproc s c = None)"

inductive kreach :: "sys \<Rightarrow> bool" where
  kreach_init: "kinit_state s \<Longrightarrow> kreach s"
| kreach_step: "kreach s \<Longrightarrow> kstep s s' \<Longrightarrow> kreach s'"

end
