(* ===== verification/Sched_Inv.thy ===== *)
theory Sched_Inv
  imports Sched
begin

text \<open>
  The invariant of the scheduler model: which locks a CPU holds at a place in the code, which state a
  process has there, and which process a \<open>fork\<close> in progress has allocated.  Every step of a thread
  keeps it.
\<close>

section \<open>Locks\<close>

text \<open>The process locks and the channel locks that the thread of \<open>p\<close> holds at a place in the code.\<close>

fun plset :: "nat \<Rightarrow> ppc \<Rightarrow> nat set" where
  "plset p (P_yield _) = {p}"
| "plset p (P_swtch _) = {p}"
| "plset p (P_res _) = {p}"
| "plset p (P_sleep2 _) = {p}"
| "plset p (P_sleep3 _) = {p}"
| "plset p (P_awake _) = {p}"
| "plset p P_exit = {p}"
| "plset p (P_wake_at _ j) = {j}"
| "plset p (P_wake_done _ j) = {j}"
| "plset p (P_kill_at _ j) = {j}"
| "plset p (P_kill_rel _ j) = {j}"
| "plset p (P_kill_end j) = {j}"
| "plset p (P_alloc_at j) = {j}"
| "plset p (P_alloc_rel j) = {j}"
| "plset p (P_alloc_done j) = {j}"
| "plset p (P_forked_at j) = {j}"
| "plset p (P_fork_end j) = {j}"
| "plset p (P_wait_at j) = {j}"
| "plset p (P_wait_rel j) = {j}"
| "plset p _ = {}"

fun clset :: "ppc \<Rightarrow> wchan set" where
  "clset (P_crit ch) = {ch}"
| "clset (P_sleep1 ch) = {ch}"
| "clset (P_sleep2 ch) = {ch}"
| "clset (P_wake ch _) = {ch}"
| "clset (P_wake_at ch _) = {ch}"
| "clset (P_wake_done ch _) = {ch}"
| "clset _ = {}"

definition cpu_plocks :: "sys \<Rightarrow> nat \<Rightarrow> nat set" where
  "cpu_plocks s c =
     (case cpus s c of S_loop i \<Rightarrow> {} | S_test i \<Rightarrow> {i} | S_in p \<Rightarrow> plset p (thr s p)
      | S_ret i \<Rightarrow> {i} | S_back i \<Rightarrow> {i})"

definition cpu_clocks :: "sys \<Rightarrow> nat \<Rightarrow> wchan set" where
  "cpu_clocks s c = (case cpus s c of S_in p \<Rightarrow> clset (thr s p) | _ \<Rightarrow> {})"

definition one_cpu :: "sys \<Rightarrow> bool" where
  "one_cpu s \<longleftrightarrow> (\<forall>c c' p. cpus s c = S_in p \<longrightarrow> cpus s c' = S_in p \<longrightarrow> c = c')"

definition locks_inv :: "sys \<Rightarrow> bool" where
  "locks_inv s \<longleftrightarrow> (\<forall>c i. plk s i = Some c \<longleftrightarrow> i \<in> cpu_plocks s c) \<and>
     (\<forall>c ch. clk s ch = Some c \<longleftrightarrow> ch \<in> cpu_clocks s c)"

text \<open>What holds of the state of a process on a CPU, and of one that is switched out.\<close>

fun on_ok :: "ppc \<Rightarrow> procstate \<Rightarrow> bool" where
  "on_ok (P_swtch (R_yield _)) st = (st = RUNNABLE)"
| "on_ok (P_swtch (R_sleep _)) st = (st = SLEEPING)"
| "on_ok (P_swtch R_dead) st = (st = ZOMBIE)"
| "on_ok (P_swtch R_fork) st = False"
| "on_ok (P_off _) st = False"
| "on_ok (P_res R_dead) st = False"
| "on_ok _ st = (st = RUNNING)"

fun off_ok :: "ppc \<Rightarrow> procstate \<Rightarrow> bool" where
  "off_ok (P_off (R_yield _)) st = (st = RUNNABLE)"
| "off_ok (P_off (R_sleep _)) st = (st = SLEEPING \<or> st = RUNNABLE)"
| "off_ok (P_off R_fork) st = (st = USED \<or> st = RUNNABLE)"
| "off_ok (P_off R_dead) st = (st = ZOMBIE \<or> st = UNUSED)"
| "off_ok _ st = False"

definition place_inv :: "sys \<Rightarrow> bool" where
  "place_inv s \<longleftrightarrow>
     (\<forall>c p. cpus s c = S_in p \<longrightarrow> on_ok (thr s p) (pst s p)) \<and>
     (\<forall>p. (\<forall>c. cpus s c \<noteq> S_in p) \<longrightarrow> off_ok (thr s p) (pst s p)) \<and>
     (\<forall>c p. cproc s c = Some p \<longleftrightarrow> cpus s c = S_in p \<or> cpus s c = S_ret p)"

text \<open>The process that a thread is about to make runnable in \<open>fork\<close>.\<close>

fun newborn :: "ppc \<Rightarrow> nat option" where
  "newborn (P_alloc_done j) = Some j"
| "newborn (P_parent j) = Some j"
| "newborn (P_forked j) = Some j"
| "newborn (P_forked_at j) = Some j"
| "newborn (P_yield pc) = newborn pc"
| "newborn (P_swtch (R_yield pc)) = newborn pc"
| "newborn (P_off (R_yield pc)) = newborn pc"
| "newborn (P_res (R_yield pc)) = newborn pc"
| "newborn _ = None"

fun saved_ok :: "ppc \<Rightarrow> bool" where
  "saved_ok (P_yield pc) = preemptible pc"
| "saved_ok (P_swtch (R_yield pc)) = preemptible pc"
| "saved_ok (P_off (R_yield pc)) = preemptible pc"
| "saved_ok (P_res (R_yield pc)) = preemptible pc"
| "saved_ok _ = True"

definition fork_inv :: "sys \<Rightarrow> bool" where
  "fork_inv s \<longleftrightarrow> (\<forall>p. saved_ok (thr s p)) \<and>
     (\<forall>p j. newborn (thr s p) = Some j \<longrightarrow> pst s j = USED) \<and>
     (\<forall>p q j. newborn (thr s p) = Some j \<longrightarrow> newborn (thr s q) = Some j \<longrightarrow> p = q)"

definition sched_inv :: "sys \<Rightarrow> bool" where
  "sched_inv s \<longleftrightarrow> one_cpu s \<and> locks_inv s \<and> place_inv s \<and> fork_inv s"

lemmas sched_defs = one_cpu_def locks_inv_def place_inv_def fork_inv_def cpu_plocks_def cpu_clocks_def

lemma preemptible_locks: "preemptible pc \<Longrightarrow> plset p pc = {} \<and> clset pc = {} \<and> on_ok pc st = (st = RUNNING) \<and> saved_ok pc"
  by (cases pc) auto


subsection \<open>Changes of one CPU\<close>

text \<open>A CPU takes a free lock, gives one back, or keeps what it holds.\<close>

definition lockchg :: "('a \<Rightarrow> nat option) \<Rightarrow> ('a \<Rightarrow> nat option) \<Rightarrow> 'a set \<Rightarrow> 'a set \<Rightarrow> nat \<Rightarrow> bool" where
  "lockchg L L' S S' c \<longleftrightarrow> S' = S \<and> L' = L \<or> (\<exists>i. S = {} \<and> S' = {i} \<and> L i = None \<and> L' = L(i \<mapsto> c)) \<or>
     (\<exists>i. S = {i} \<and> S' = {} \<and> L' = L(i := None))"

lemma lockchgI [intro]:
  "lockchg L L S S c"
  "L i = None \<Longrightarrow> lockchg L (L(i \<mapsto> c)) {} {i} c"
  "lockchg L (L(i := None)) {i} {} c"
  by (auto simp: lockchg_def)

lemma lockchg_inv:
  assumes "\<forall>c i. L i = Some c \<longleftrightarrow> i \<in> F c" and "lockchg L L' (F c) (F' c) c" and "\<And>d. d \<noteq> c \<Longrightarrow> F' d = F d"
  shows "\<forall>c i. L' i = Some c \<longleftrightarrow> i \<in> F' c"
proof (intro allI)
  fix d i
  show "L' i = Some d \<longleftrightarrow> i \<in> F' d"
  proof (cases "d = c")
    case True
    then show ?thesis using assms(1,2) by (auto simp: lockchg_def split: if_splits)
  next
    case False
    then show ?thesis using assms by (auto simp: lockchg_def) (metis option.inject option.distinct(1) singletonI)+
  qed
qed

lemma locks_cpu:
  assumes "locks_inv s" and "lockchg (plk s) (plk s') (cpu_plocks s c) (cpu_plocks s' c) c"
    and "lockchg (clk s) (clk s') (cpu_clocks s c) (cpu_clocks s' c) c"
    and "\<And>d. d \<noteq> c \<Longrightarrow> cpu_plocks s' d = cpu_plocks s d" and "\<And>d. d \<noteq> c \<Longrightarrow> cpu_clocks s' d = cpu_clocks s d"
  shows "locks_inv s'"
  using lockchg_inv [where F = "cpu_plocks s" and F' = "cpu_plocks s'", OF _ assms(2,4)]
    lockchg_inv [where F = "cpu_clocks s" and F' = "cpu_clocks s'", OF _ assms(3,5)] assms(1)
  unfolding locks_inv_def by blast

text \<open>A step of the thread of \<open>p\<close> on CPU \<open>c\<close>; it may also set up a thread that is on no CPU.\<close>

definition thread_step :: "nat \<Rightarrow> nat \<Rightarrow> sys \<Rightarrow> sys \<Rightarrow> bool" where
  "thread_step c p s s' \<longleftrightarrow> cpus s c = S_in p \<and> cpus s' = cpus s \<and> cproc s' = cproc s \<and>
     (\<forall>q. q \<noteq> p \<longrightarrow> (\<exists>d. cpus s d = S_in q) \<longrightarrow> thr s' q = thr s q) \<and>
     lockchg (plk s) (plk s') (plset p (thr s p)) (plset p (thr s' p)) c \<and>
     lockchg (clk s) (clk s') (clset (thr s p)) (clset (thr s' p)) c"

lemma thread_locks:
  assumes "thread_step c p s s'" and "one_cpu s" and "locks_inv s"
  shows "one_cpu s' \<and> locks_inv s'"
proof
  have o: "cpus s c = S_in p" "cpus s' = cpus s" using assms(1) by (auto simp: thread_step_def)
  show "one_cpu s'" using assms(2) o by (simp add: one_cpu_def)
  have "thr s' q = thr s q" if "d \<noteq> c" and "cpus s d = S_in q" for d q
  proof -
    have "q \<noteq> p" using assms(2) o(1) that unfolding one_cpu_def by metis
    then show ?thesis using assms(1) that(2) unfolding thread_step_def by blast
  qed
  then show "locks_inv s'" using assms(1)
    by (intro locks_cpu [OF assms(3), of s' c])
      (auto simp: thread_step_def cpu_plocks_def cpu_clocks_def split: spc.splits)
qed

lemma held_running:
  assumes "locks_inv s" and "place_inv s" and "cpus s c = S_in p" and "j \<in> plset p (thr s p)"
    and "cpus s d = S_in j" and "\<And>r. thr s p \<noteq> P_swtch r"
  shows "pst s j = RUNNING"
proof (cases "d = c")
  case True
  then show ?thesis using assms(2-6) unfolding place_inv_def by (cases "(thr s p, pst s p)" rule: on_ok.cases) force+
next
  case False
  have "plk s j = Some c" using assms(1,3,4) by (auto simp: locks_inv_def cpu_plocks_def)
  moreover have "plk s j = Some d" if "j \<in> plset j (thr s j)"
    using assms(1,5) that by (auto simp: locks_inv_def cpu_plocks_def)
  ultimately have "j \<notin> plset j (thr s j)" using False by auto
  moreover have "on_ok (thr s j) (pst s j)" using assms(2,5) by (auto simp: place_inv_def)
  ultimately show ?thesis by (cases "(thr s j, pst s j)" rule: on_ok.cases) auto
qed

lemma place_thread:
  assumes "place_inv s" and "thread_step c p s s'" and "on_ok (thr s' p) (pst s' p)"
    and "\<And>q d. q \<noteq> p \<Longrightarrow> cpus s d = S_in q \<Longrightarrow> pst s' q = pst s q"
    and "\<And>q. q \<noteq> p \<Longrightarrow> (\<And>d. cpus s d \<noteq> S_in q) \<Longrightarrow> off_ok (thr s' q) (pst s' q)"
  shows "place_inv s'"
  unfolding place_inv_def
proof (intro conjI allI impI)
  fix d q assume "cpus s' d = S_in q"
  then show "on_ok (thr s' q) (pst s' q)" using assms by (cases "q = p") (auto simp: place_inv_def thread_step_def)
next
  fix q assume "\<forall>d. cpus s' d \<noteq> S_in q"
  then show "off_ok (thr s' q) (pst s' q)" using assms by (cases "q = p") (auto simp: thread_step_def)
qed (use assms(1,2) in \<open>auto simp: place_inv_def thread_step_def\<close>)


lemma fork_thread:
  assumes "fork_inv s" and "saved_ok (thr s' p)"
    and "\<And>q. q \<noteq> p \<Longrightarrow> thr s' q = thr s q \<or> newborn (thr s' q) = None \<and> saved_ok (thr s' q)"
    and "newborn (thr s' p) = newborn (thr s p) \<or> newborn (thr s' p) = None \<or>
      (\<exists>j. newborn (thr s' p) = Some j \<and> pst s j \<noteq> USED \<and> pst s' j = USED)"
    and "\<And>q j. newborn (thr s' q) = Some j \<Longrightarrow> pst s j = USED \<Longrightarrow> pst s' j = USED"
  shows "fork_inv s'"
proof -
  have old: "newborn (thr s' q) = newborn (thr s q) \<or> newborn (thr s' q) = None" if "q \<noteq> p" for q
    using assms(3) [OF that] by auto
  have used: "pst s j = USED" if "newborn (thr s q) = Some j" for q j
    using assms(1) that by (auto simp: fork_inv_def)
  have "saved_ok (thr s' q)" for q using assms(1,2,3) by (cases "q = p") (auto simp: fork_inv_def, metis)
  moreover have "pst s' j = USED" if n: "newborn (thr s' q) = Some j" for q j
  proof (cases "newborn (thr s q) = Some j")
    case True
    then show ?thesis using assms(5) [OF n] used by blast
  next
    case False
    then have "q = p" using old [of q] n by auto
    then show ?thesis using assms(4) n False by auto
  qed
  moreover have "q = r" if n: "newborn (thr s' q) = Some j" "newborn (thr s' r) = Some j" for q r j
  proof (rule ccontr)
    assume "q \<noteq> r"
    then consider "q \<noteq> p" "r \<noteq> p" | "q = p" "r \<noteq> p" | "q \<noteq> p" "r = p" by auto
    then show False
    proof cases
      case 1
      then have "newborn (thr s q) = Some j" "newborn (thr s r) = Some j" using old n by fastforce+
      then show False using assms(1) \<open>q \<noteq> r\<close> unfolding fork_inv_def by blast
    next
      case 2
      then have r: "newborn (thr s r) = Some j" using old n by fastforce
      then have "newborn (thr s p) = Some j" using assms(4) n used 2 by auto
      then show False using assms(1) r 2 unfolding fork_inv_def by blast
    next
      case 3
      then have r: "newborn (thr s q) = Some j" using old n by fastforce
      then have "newborn (thr s p) = Some j" using assms(4) n used 3 by auto
      then show False using assms(1) r 3 unfolding fork_inv_def by blast
    qed
  qed
  ultimately show ?thesis unfolding fork_inv_def by blast
qed

lemma sched_invD:
  assumes "sched_inv s"
  shows "one_cpu s" "locks_inv s" "place_inv s" "fork_inv s"
    "\<And>c p. cpus s c = S_in p \<Longrightarrow> on_ok (thr s p) (pst s p)"
    "\<And>p. (\<And>c. cpus s c \<noteq> S_in p) \<Longrightarrow> off_ok (thr s p) (pst s p)"
    "\<And>p. saved_ok (thr s p)"
    "\<And>p j. newborn (thr s p) = Some j \<Longrightarrow> pst s j = USED"
  using assms by (auto simp: sched_inv_def place_inv_def fork_inv_def)

lemma sched_thread:
  assumes "sched_inv s" and "thread_step c p s s'" and "on_ok (thr s' p) (pst s' p)"
    and "\<And>q d. q \<noteq> p \<Longrightarrow> cpus s d = S_in q \<Longrightarrow> pst s' q = pst s q"
    and "\<And>q. q \<noteq> p \<Longrightarrow> (\<And>d. cpus s d \<noteq> S_in q) \<Longrightarrow> off_ok (thr s q) (pst s q) \<Longrightarrow> off_ok (thr s' q) (pst s' q)"
    and "saved_ok (thr s' p)"
    and "\<And>q. q \<noteq> p \<Longrightarrow> thr s' q = thr s q \<or> newborn (thr s' q) = None \<and> saved_ok (thr s' q)"
    and "newborn (thr s' p) = newborn (thr s p) \<or> newborn (thr s' p) = None \<or>
      (\<exists>j. newborn (thr s' p) = Some j \<and> pst s j \<noteq> USED \<and> pst s' j = USED)"
    and "\<And>q j. newborn (thr s' q) = Some j \<Longrightarrow> pst s j = USED \<Longrightarrow> pst s' j = USED"
  shows "sched_inv s'"
  using thread_locks [OF assms(2)] place_thread [OF _ assms(2,3,4)] fork_thread [OF _ assms(6-9)]
    sched_invD [OF assms(1)] assms(5) by (simp add: sched_inv_def)

lemma sleep_inv:
  assumes "sleep_cpu c p s s'" and inv: "sched_inv s"
  shows "sched_inv s'"
  using assms(1) sched_invD(5) [OF inv, of c p] sched_invD(7) [OF inv, of p]
  by (cases rule: sleep_cpu.cases; intro sched_thread [OF inv, of c p]) (auto simp: thread_step_def)


lemma yield_inv:
  assumes "yield c p s s'" and inv: "sched_inv s"
  shows "sched_inv s'"
  using assms(1) sched_invD(5) [OF inv, of c p] sched_invD(7) [OF inv, of p]
  by (cases rule: yield.cases; intro sched_thread [OF inv, of c p])
    (auto simp: thread_step_def preemptible_locks)

lemma forkret_inv:
  assumes "forkret_cpu c p s s'" and inv: "sched_inv s"
  shows "sched_inv s'"
  using assms(1) sched_invD(5) [OF inv, of c p]
  by (cases rule: forkret_cpu.cases; intro sched_thread [OF inv, of c p]) (auto simp: thread_step_def)

lemma critical_inv:
  assumes "critical c p s s'" and inv: "sched_inv s"
  shows "sched_inv s'"
  using assms(1) sched_invD(5) [OF inv, of c p]
  by (cases rule: critical.cases; intro sched_thread [OF inv, of c p]) (auto simp: thread_step_def)

lemma exit_inv:
  assumes "exit_cpu c p s s'" and inv: "sched_inv s"
  shows "sched_inv s'"
  using assms(1) sched_invD(5) [OF inv, of c p]
  by (cases rule: exit_cpu.cases; intro sched_thread [OF inv, of c p]) (auto simp: thread_step_def)

lemma off_RUNNABLE: "off_ok pc SLEEPING \<Longrightarrow> off_ok pc RUNNABLE"
  by (cases "(pc, SLEEPING)" rule: off_ok.cases) auto

lemma off_fork: "off_ok pc USED \<Longrightarrow> pc = P_off R_fork"
  by (cases "(pc, USED)" rule: off_ok.cases) auto

lemma off_dead: "off_ok pc ZOMBIE \<Longrightarrow> pc = P_off R_dead" "off_ok pc UNUSED \<Longrightarrow> pc = P_off R_dead"
  by (cases "(pc, ZOMBIE)" rule: off_ok.cases; auto) (cases "(pc, UNUSED)" rule: off_ok.cases; auto)

lemma target_running:
  assumes "sched_inv s" and "cpus s c = S_in p" and "j \<in> plset p (thr s p)" and "\<And>r. thr s p \<noteq> P_swtch r"
    and "cpus s d = S_in j"
  shows "pst s j = RUNNING"
  using held_running [OF sched_invD(2,3) [OF assms(1)] assms(2,3,5,4)] .

text \<open>The facts that a step of \<open>p\<close> on another process needs.\<close>

lemma target_facts:
  assumes "sched_inv s" and "cpus s c = S_in p"
  shows "\<forall>j\<in>plset p (thr s p). (\<forall>r. thr s p \<noteq> P_swtch r) \<longrightarrow> (\<forall>d. cpus s d = S_in j \<longrightarrow> pst s j = RUNNING)"
    and "\<forall>j. newborn (thr s p) = Some j \<longrightarrow> pst s j = USED"
    and "\<forall>q j. newborn (thr s q) = Some j \<longrightarrow> newborn (thr s p) = Some j \<longrightarrow> q = p"
    and "\<forall>q j. newborn (thr s q) = Some j \<longrightarrow> pst s j = USED"
    and "on_ok (thr s p) (pst s p)"
  using target_running [OF assms(1,2)] sched_invD(4,5,8) [OF assms(1)] assms(2)
  by (auto simp: fork_inv_def)

lemma wakeup_inv:
  assumes "wakeup_cpu c p s s'" and inv: "sched_inv s"
  shows "sched_inv s'"
  using assms(1) target_facts [OF inv, of c p]
  by (cases rule: wakeup_cpu.cases; intro sched_thread [OF inv, of c p])
    (auto simp: thread_step_def wake_one_def off_RUNNABLE)

lemma kill_inv:
  assumes "kill_cpu c p s s'" and inv: "sched_inv s"
  shows "sched_inv s'"
  using assms(1) target_facts [OF inv, of c p]
  by (cases rule: kill_cpu.cases; intro sched_thread [OF inv, of c p])
    (auto simp: thread_step_def kill_one_def off_RUNNABLE)

lemma fork_cpu_inv:
  assumes "fork_cpu c p s s'" and inv: "sched_inv s"
  shows "sched_inv s'"
  using assms(1) target_facts [OF inv, of c p]
  by (cases rule: fork_cpu.cases; intro sched_thread [OF inv, of c p])
    (auto simp: thread_step_def dest!: off_fork split: if_splits)

lemma wait_inv:
  assumes "wait_cpu c p s s'" and inv: "sched_inv s"
  shows "sched_inv s'"
  using assms(1) target_facts [OF inv, of c p]
  by (cases rule: wait_cpu.cases; intro sched_thread [OF inv, of c p])
    (auto simp: thread_step_def dest!: off_dead)

lemma alloc_inv:
  assumes "allocproc_cpu c p s s'" and inv: "sched_inv s"
  shows "sched_inv s'"
  using assms(1) target_facts [OF inv, of c p]
  by (cases rule: allocproc_cpu.cases; intro sched_thread [OF inv, of c p])
    (auto simp: thread_step_def split: if_splits)

end
