(* ===== verification/Sched_Safe.thy ===== *)
theory Sched_Safe
  imports Sched_Inv
begin

text \<open>
  The scheduler never runs a process on two CPUs, \<open>sched\<close> never panics, and no wakeup is lost.
\<close>

section \<open>The invariant on all steps\<close>

text \<open>The steps that change the place of a CPU.\<close>

lemma swtch_inv:
  assumes "sched c p s s'" and inv: "sched_inv s"
  shows "sched_inv s'"
  using assms(1)
proof cases
  case (sched_swtch r)
  note s' = sched_swtch(1) and on = sched_swtch(2,3)
  have one: "cpus s d \<noteq> S_in p" if "d \<noteq> c" for d using sched_invD(1) [OF inv] on(1) that by (auto simp: one_cpu_def)
  have ok: "on_ok (P_swtch r) (pst s p)" using sched_invD(5) [OF inv on(1)] on(2) by simp
  have L: "locks_inv s'" using on one
    by (intro locks_cpu [OF sched_invD(2) [OF inv], of s' c])
      (auto simp: s' cpu_plocks_def cpu_clocks_def split: spc.splits)
  have O: "one_cpu s'" using sched_invD(1) [OF inv] by (auto simp: one_cpu_def s')
  have "off_ok (P_off r) (pst s p)" using ok by (cases r) auto
  moreover have "off_ok (thr s q) (pst s q)" if "q \<noteq> p" "\<forall>d. d \<noteq> c \<longrightarrow> cpus s d \<noteq> S_in q" for q
    by (rule sched_invD(6) [OF inv]) (use that on(1) in \<open>metis spc.inject(3)\<close>)
  ultimately have "place_inv s'" using sched_invD(3) [OF inv] on one by (auto simp: place_inv_def s')
  moreover have "newborn (P_off r) = newborn (P_swtch r)" "saved_ok (P_off r) = saved_ok (P_swtch r)"
    by (cases r; simp)+
  then have "fork_inv s'" using on(2) sched_invD(7) [OF inv, of p]
    by (intro fork_thread [OF sched_invD(4) [OF inv], of s' p]) (auto simp: s')
  ultimately show ?thesis using L O by (simp add: sched_inv_def)
qed

lemma scheduler_move:
  assumes inv: "sched_inv s" and "cpus s' = (cpus s)(c := k)" and "\<And>p. k \<noteq> S_in p" and "\<And>p. cpus s c \<noteq> S_in p"
    and "ptab s' = ptab s" and "thr s' = thr s" and "clk s' = clk s"
    and "cproc s' = (cproc s)(c := (case k of S_ret p \<Rightarrow> Some p | _ \<Rightarrow> None))"
    and "lockchg (plk s) (plk s') (cpu_plocks s c) (cpu_plocks s' c) c"
  shows "sched_inv s'"
proof -
  have "cpus s d = S_in p \<longleftrightarrow> cpus s' d = S_in p" for d p using assms(2,3,4) by auto
  then have on: "(cpus s' d = S_in p) = (cpus s d = S_in p)" for d p by simp
  have "one_cpu s'" using sched_invD(1) [OF inv] by (simp add: one_cpu_def on)
  moreover have "fork_inv s'" using sched_invD(4) [OF inv] by (simp add: fork_inv_def assms(5,6))
  moreover have "(cproc s' d = Some p) = (cpus s' d = S_in p \<or> cpus s' d = S_ret p)" for d p
    using sched_invD(3) [OF inv] assms(2,3,8) by (cases "d = c") (auto simp: place_inv_def split: spc.splits)
  then have "place_inv s'" using sched_invD(3) [OF inv] by (simp add: place_inv_def on assms(5,6))
  moreover have "locks_inv s'" using assms
    by (intro locks_cpu [OF sched_invD(2) [OF inv], of s' c])
      (auto simp: cpu_plocks_def cpu_clocks_def split: spc.splits)
  ultimately show ?thesis by (simp add: sched_inv_def)
qed

lemma cproc_None:
  assumes "sched_inv s" and "cpus s c = S_loop i \<or> cpus s c = S_test i \<or> cpus s c = S_back i"
  shows "cproc s c = None"
proof (rule ccontr)
  assume "cproc s c \<noteq> None"
  then obtain p where "cproc s c = Some p" by blast
  then have "cpus s c = S_in p \<or> cpus s c = S_ret p" using sched_invD(3) [OF assms(1)] unfolding place_inv_def by blast
  then show False using assms(2) by auto
qed

lemma dispatch_inv:
  assumes inv: "sched_inv s" and c: "cpus s c = S_test i" and r: "pst s i = RUNNABLE" "thr s i = P_off r"
    and s': "s' = go i (P_res r) (gocpu c (S_in i)
      ((setp i (pstate_update (\<lambda>_. RUNNING)) s)\<lparr>cproc := (cproc s)(c := Some i)\<rparr>))"
  shows "sched_inv s'"
proof -
  have off: "cpus s d \<noteq> S_in i" for d using sched_invD(5) [OF inv, of d i] r by auto
  have O: "one_cpu s'" using sched_invD(1) [OF inv] off by (auto simp: one_cpu_def s')
  have L: "locks_inv s'" using off c
    by (intro locks_cpu [OF sched_invD(2) [OF inv], of s' c])
      (auto simp: s' cpu_plocks_def cpu_clocks_def split: spc.splits)
  have "off_ok (P_off r) RUNNABLE" using sched_invD(6) [OF inv, of i] off r by simp
  then have "on_ok (P_res r) RUNNING" by (cases r) auto
  moreover have "off_ok (thr s q) (pst s q)" if "\<forall>d. d \<noteq> c \<longrightarrow> cpus s d \<noteq> S_in q" for q
    by (rule sched_invD(6) [OF inv]) (use that c in \<open>metis spc.distinct(10)\<close>)
  ultimately have "place_inv s'" using sched_invD(3) [OF inv] c off by (auto simp: place_inv_def s')
  moreover have "newborn (P_off r) = newborn (P_res r)" "saved_ok (P_off r) = saved_ok (P_res r)"
    by (cases r; simp)+
  then have "fork_inv s'" using r sched_invD(7) [OF inv, of i]
    by (intro fork_thread [OF sched_invD(4) [OF inv], of s' i]) (auto simp: s')
  ultimately show ?thesis using L O by (simp add: sched_inv_def)
qed

lemma scheduler_inv:
  assumes "scheduler c s s'" and inv: "sched_inv s"
  shows "sched_inv s'"
  using assms(1)
proof cases
  case (sched_acquire i)
  then show ?thesis using cproc_None [OF inv, of c]
    by (intro scheduler_move [OF inv, of s' c "S_test i"]) (auto simp: cpu_plocks_def)
next
  case (sched_run i r)
  then show ?thesis using dispatch_inv [OF inv] by blast
next
  case (sched_skip i)
  then show ?thesis using cproc_None [OF inv, of c]
    by (intro scheduler_move [OF inv, of s' c "S_back i"]) (auto simp: cpu_plocks_def)
next
  case (sched_ret i)
  then show ?thesis
    by (intro scheduler_move [OF inv, of s' c "S_back i"]) (auto simp: cpu_plocks_def)
next
  case (sched_release i)
  then show ?thesis using cproc_None [OF inv, of c]
    by (intro scheduler_move [OF inv, of s' c "S_loop (Suc i mod NPROC)"]) (auto simp: cpu_plocks_def)
qed

lemmas step_invs = scheduler_inv swtch_inv yield_inv forkret_inv critical_inv sleep_inv wakeup_inv kill_inv
  exit_inv alloc_inv fork_cpu_inv wait_inv

lemma kstep_inv: "kstep s s' \<Longrightarrow> sched_inv s \<Longrightarrow> sched_inv s'"
  unfolding kstep_def by (elim exE disjE) (erule (1) step_invs)+

lemma kinit_inv:
  assumes "kinit_state s"
  shows "sched_inv s"
proof -
  have c: "cpus s c = S_loop 0" "cproc s c = None" for c using assms by (auto simp: kinit_state_def)
  have p: "off_ok (thr s p) (pst s p) \<and> newborn (thr s p) = None \<and> saved_ok (thr s p)" for p
    using assms by (cases "p = 0") (auto simp: kinit_state_def)
  have "locks_inv s" using assms c by (simp add: locks_inv_def cpu_plocks_def cpu_clocks_def kinit_state_def)
  then show ?thesis by (simp add: sched_inv_def one_cpu_def place_inv_def fork_inv_def c p)
qed

lemma kreach_inv: "kreach s \<Longrightarrow> sched_inv s"
  by (induction rule: kreach.induct) (auto intro: kinit_inv kstep_inv)


section \<open>One CPU per process\<close>

lemma cpu_locks:
  assumes "sched_inv s" and "cpus s c = S_in p"
  shows "{i. plk s i = Some c} = plset p (thr s p)" and "{ch. clk s ch = Some c} = clset (thr s p)"
  using sched_invD(2) [OF assms(1)] assms(2) by (auto simp: locks_inv_def cpu_plocks_def cpu_clocks_def)

lemma sched_check_ok:
  assumes inv: "sched_inv s" and on: "cpus s c = S_in p" and r: "thr s p = P_swtch r"
  shows "sched_check c (proc_lock s p) (cpu_irq s c) (ptab s p) = Ok ()"
proof -
  have "pst s p \<noteq> RUNNING" using sched_invD(5) [OF inv on] r by (cases r) auto
  moreover have "plk s p = Some c" using cpu_locks(1) [OF inv on] r by auto
  ultimately show ?thesis using cpu_locks [OF inv on] r
    by (simp add: sched_check_def proc_lock_def cpu_irq_def holding_def intr_get_def)
qed


section \<open>No lost wakeup\<close>

definition waits_on :: "sys \<Rightarrow> nat \<Rightarrow> wchan \<Rightarrow> bool" where
  "waits_on s p ch \<longleftrightarrow> pst s p = SLEEPING \<and> chan (ptab s p) = Some ch \<or> thr s p = P_sleep3 ch"

text \<open>A thread in \<open>wakeup\<close> that has still to look at process \<open>p\<close>.\<close>

fun waking :: "wchan \<Rightarrow> nat \<Rightarrow> ppc \<Rightarrow> bool" where
  "waking ch p (P_wake ch' j) = (ch' = ch \<and> j \<le> p)"
| "waking ch p (P_wake_at ch' j) = (ch' = ch \<and> j \<le> p)"
| "waking ch p (P_wake_done ch' j) = (ch' = ch \<and> j < p)"
| "waking ch p _ = False"

definition wake_inv :: "sys \<Rightarrow> bool" where
  "wake_inv s \<longleftrightarrow>
     (\<forall>p ch. p < NPROC \<longrightarrow> cond s ch \<longrightarrow> waits_on s p ch \<longrightarrow> (\<exists>q. q \<noteq> p \<and> waking ch p (thr s q))) \<and>
     (\<forall>p ch. thr s p = P_sleep1 ch \<or> thr s p = P_sleep2 ch \<longrightarrow> \<not> cond s ch)"

lemma wake_frame:
  assumes "wake_inv s" and "cond s' = cond s"
    and "\<And>p ch. cond s ch \<Longrightarrow> waits_on s' p ch \<Longrightarrow> waits_on s p ch"
    and "\<And>p q ch. p < NPROC \<Longrightarrow> p \<noteq> q \<Longrightarrow> waking ch p (thr s q) \<Longrightarrow> waits_on s' p ch \<Longrightarrow> waking ch p (thr s' q)"
    and "\<And>p ch. thr s' p = P_sleep1 ch \<or> thr s' p = P_sleep2 ch \<Longrightarrow> \<not> cond s ch"
  shows "wake_inv s'"
  unfolding wake_inv_def
proof (intro conjI allI impI)
  fix p ch assume p: "p < NPROC" "cond s' ch" "waits_on s' p ch"
  then have "waits_on s p ch" using assms(2,3) by simp
  then obtain q where "q \<noteq> p" "waking ch p (thr s q)"
    using assms(1,2) p(1,2) unfolding wake_inv_def by fastforce
  then show "\<exists>q. q \<noteq> p \<and> waking ch p (thr s' q)" using assms(4) p by metis
qed (use assms(2,5) in auto)

lemma on_cpu: "sched_inv s \<Longrightarrow> (\<And>r. thr s p \<noteq> P_off r) \<Longrightarrow> \<exists>c. cpus s c = S_in p"
  using sched_invD(6) [of s p] by (cases "(thr s p, pst s p)" rule: off_ok.cases) auto

text \<open>The thread that holds the lock of a channel is unique.\<close>

lemma crit_unique:
  assumes "sched_inv s" and "ch \<in> clset (thr s p)" and "ch \<in> clset (thr s q)"
  shows "p = q"
proof -
  have off: "thr s p \<noteq> P_off r" "thr s q \<noteq> P_off r" for r using assms(2,3) by auto
  obtain c d where cd: "cpus s c = S_in p" "cpus s d = S_in q" using on_cpu [OF assms(1)] off by meson
  then have "clk s ch = Some c" "clk s ch = Some d"
    using cpu_locks(2) [OF assms(1)] assms(2,3) by blast+
  then show ?thesis using cd by simp
qed

text \<open>A step of the thread of \<open>p\<close>; it may also set up a thread that is switched out.\<close>

lemma wake_thread:
  assumes w: "wake_inv s" and "cond s' = cond s"
    and t: "\<And>q. q \<noteq> p \<Longrightarrow> thr s' q = thr s q \<or> (\<exists>r r'. thr s q = P_off r \<and> thr s' q = P_off r')"
    and "\<And>q ch. pst s' q = SLEEPING \<Longrightarrow> chan (ptab s' q) = Some ch \<Longrightarrow> waits_on s q ch"
    and "\<And>ch. thr s' p = P_sleep1 ch \<or> thr s' p = P_sleep2 ch \<or> thr s' p = P_sleep3 ch \<Longrightarrow> \<not> cond s ch"
    and "\<And>q ch. q < NPROC \<Longrightarrow> q \<noteq> p \<Longrightarrow> waking ch q (thr s p) \<Longrightarrow> waits_on s' q ch \<Longrightarrow> waking ch q (thr s' p)"
  shows "wake_inv s'"
proof (rule wake_frame [OF w assms(2)])
  fix q ch assume "cond s ch" "waits_on s' q ch"
  then show "waits_on s q ch" using assms(4) [of q ch] assms(5) [of ch] t [of q]
    by (cases "q = p") (auto simp: waits_on_def)
next
  fix q r ch assume "q < NPROC" "q \<noteq> r" "waking ch q (thr s r)" "waits_on s' q ch"
  then show "waking ch q (thr s' r)" using assms(6) [of q ch] t [of r] by (cases "r = p") auto
next
  fix q ch assume "thr s' q = P_sleep1 ch \<or> thr s' q = P_sleep2 ch"
  then show "\<not> cond s ch" using assms(5) [of ch] w t [of q] by (cases "q = p") (auto simp: wake_inv_def)
qed

lemma preemptible_wake: "preemptible pc \<Longrightarrow> pc \<noteq> P_sleep1 ch \<and> pc \<noteq> P_sleep2 ch \<and> pc \<noteq> P_sleep3 ch \<and> \<not> waking ch p pc"
  by (cases pc) auto

lemma sleeping_on: "pst s p = SLEEPING \<Longrightarrow> chan (ptab s p) = Some ch \<Longrightarrow> waits_on s p ch"
  by (simp add: waits_on_def)

lemma yield_wake:
  assumes "yield c p s s'" and inv: "sched_inv s" and w: "wake_inv s"
  shows "wake_inv s'"
  using assms(1) sched_invD(7) [OF inv, of p]
  by (cases rule: yield.cases; intro wake_thread [OF w, of s' p])
    (auto simp: preemptible_wake intro: sleeping_on split: if_splits)

lemma forkret_wake:
  assumes "forkret_cpu c p s s'" and w: "wake_inv s"
  shows "wake_inv s'"
  using assms(1) by (cases rule: forkret_cpu.cases; intro wake_thread [OF w, of s' p]) (auto intro: sleeping_on)

lemma sleep_wake:
  assumes "sleep_cpu c p s s'" and w: "wake_inv s"
  shows "wake_inv s'"
  using assms(1)
  by (cases rule: sleep_cpu.cases; intro wake_thread [OF w, of s' p])
    (use w in \<open>auto simp: wake_inv_def intro: sleeping_on split: if_splits\<close>, auto simp: waits_on_def)

lemma kill_wake:
  assumes "kill_cpu c p s s'" and w: "wake_inv s"
  shows "wake_inv s'"
  using assms(1) by (cases rule: kill_cpu.cases; intro wake_thread [OF w, of s' p])
    (auto simp: kill_one_def intro: sleeping_on split: if_splits)

lemma exit_wake:
  assumes "exit_cpu c p s s'" and w: "wake_inv s"
  shows "wake_inv s'"
  using assms(1) by (cases rule: exit_cpu.cases; intro wake_thread [OF w, of s' p])
    (auto intro: sleeping_on split: if_splits)

lemma fork_wake:
  assumes "fork_cpu c p s s'" and w: "wake_inv s"
  shows "wake_inv s'"
  using assms(1) by (cases rule: fork_cpu.cases; intro wake_thread [OF w, of s' p])
    (auto intro: sleeping_on split: if_splits)

lemma wait_wake:
  assumes "wait_cpu c p s s'" and w: "wake_inv s"
  shows "wake_inv s'"
  using assms(1) by (cases rule: wait_cpu.cases; intro wake_thread [OF w, of s' p])
    (auto intro: sleeping_on split: if_splits)


lemma off_thread:
  assumes "sched_inv s" and "cpus s c = S_in p" and "j \<in> plset p (thr s p)" and "\<And>r. thr s p \<noteq> P_swtch r"
    and "pst s j \<noteq> RUNNING"
  shows "\<exists>r. thr s j = P_off r"
  using on_cpu [OF assms(1), of j] target_running [OF assms(1-4)] assms(5) by blast

lemma alloc_wake:
  assumes "allocproc_cpu c p s s'" and inv: "sched_inv s" and w: "wake_inv s"
  shows "wake_inv s'"
  using assms(1) off_thread [OF inv, of c p] sched_invD(8) [OF inv, of p]
  by (cases rule: allocproc_cpu.cases; intro wake_thread [OF w, of s' p])
    (auto intro: sleeping_on split: if_splits)

lemma swtch_wake:
  assumes "sched c p s s'" and w: "wake_inv s"
  shows "wake_inv s'"
  using assms(1) by (cases rule: sched.cases; intro wake_thread [OF w, of s' p]) (auto intro: sleeping_on)

lemma scheduler_wake:
  assumes "scheduler c s s'" and w: "wake_inv s"
  shows "wake_inv s'"
  using assms(1)
proof cases
  case (sched_run i r)
  then show ?thesis by (intro wake_thread [OF w, of s' i]) (auto intro: sleeping_on split: if_splits)
qed (auto intro!: wake_frame [OF w] simp: waits_on_def, use w in \<open>auto simp: wake_inv_def\<close>)

lemma critical_wake:
  assumes "critical c p s s'" and inv: "sched_inv s" and w: "wake_inv s"
  shows "wake_inv s'"
  using assms(1)
proof cases
  case (crit_acquire ch)
  then show ?thesis by (intro wake_thread [OF w, of s' p]) (auto intro: sleeping_on)
next
  case (crit_clear ch)
  have "waits_on s' = waits_on s" using crit_clear(1) by (auto simp: waits_on_def fun_eq_iff)
  then show ?thesis using w crit_clear(1) by (auto simp: wake_inv_def)
next
  case (crit_wakeup ch)
  have np: "\<not> waits_on s' p ch'" for ch'
    using crit_wakeup sched_invD(5) [OF inv, of c p] by (auto simp: waits_on_def)
  have old: "waits_on s q ch'" if "waits_on s' q ch'" for q ch'
    using crit_wakeup that by (auto simp: waits_on_def split: if_splits)
  have cu: "thr s q \<noteq> P_sleep1 ch \<and> thr s q \<noteq> P_sleep2 ch" for q
    using crit_unique [OF inv, of ch p q] crit_wakeup by auto
  show ?thesis unfolding wake_inv_def
  proof (intro conjI allI impI)
    fix q ch' assume q: "q < NPROC" "cond s' ch'" "waits_on s' q ch'"
    have "q \<noteq> p" using q(3) np by auto
    show "\<exists>r. r \<noteq> q \<and> waking ch' q (thr s' r)"
    proof (cases "ch' = ch")
      case True
      then show ?thesis using \<open>q \<noteq> p\<close> crit_wakeup(1) by (intro exI [of _ p]) simp
    next
      case False
      then have "cond s ch'" using q(2) crit_wakeup(1) by simp
      then obtain r where r: "r \<noteq> q" "waking ch' q (thr s r)" using w q(1) old [OF q(3)] unfolding wake_inv_def by blast
      then have "r \<noteq> p" using crit_wakeup by auto
      then show ?thesis using r crit_wakeup(1) by (intro exI [of _ r]) simp
    qed
  next
    fix q ch' assume "thr s' q = P_sleep1 ch' \<or> thr s' q = P_sleep2 ch'"
    then have "thr s q = P_sleep1 ch' \<or> thr s q = P_sleep2 ch'" using crit_wakeup(1) by (auto split: if_splits)
    then show "\<not> cond s' ch'" using w cu [of q] crit_wakeup(1) by (auto simp: wake_inv_def)
  qed
next
  case (crit_sleep ch)
  then show ?thesis by (intro wake_thread [OF w, of s' p]) (auto intro: sleeping_on)
next
  case (crit_release ch)
  then show ?thesis by (intro wake_thread [OF w, of s' p]) (auto intro: sleeping_on)
qed

lemma wakeup_wake:
  assumes "wakeup_cpu c p s s'" and inv: "sched_inv s" and w: "wake_inv s"
  shows "wake_inv s'"
  using assms(1)
proof cases
  case (wakeup_self ch j)
  then have "j = p" using sched_invD(3) [OF inv] by (auto simp: place_inv_def)
  with wakeup_self show ?thesis by (intro wake_thread [OF w, of s' p]) (auto intro: sleeping_on)
next
  case (wakeup_acquire ch j)
  then show ?thesis by (intro wake_thread [OF w, of s' p]) (auto intro: sleeping_on)
next
  case (wakeup_state ch j)
  have "thr s j \<noteq> P_sleep3 ch"
  proof
    assume j: "thr s j = P_sleep3 ch"
    then obtain d where d: "cpus s d = S_in j" using on_cpu [OF inv, of j] by auto
    have "plk s j = Some c" "plk s j = Some d"
      using cpu_locks(1) [OF inv wakeup_state(2)] cpu_locks(1) [OF inv d] wakeup_state(3) j by auto
    then show False using d wakeup_state(2,3) j by simp
  qed
  then have "\<not> waits_on s' j ch" using wakeup_state by (auto simp: waits_on_def wake_one_def)
  moreover have "waits_on s q ch'" if "pst s' q = SLEEPING" "chan (ptab s' q) = Some ch'" for q ch'
    using that wakeup_state(1) by (auto simp: waits_on_def wake_one_def split: if_splits)
  ultimately show ?thesis using wakeup_state
    by (intro wake_thread [OF w, of s' p]) (auto simp: le_less)
next
  case (wakeup_release ch j)
  then show ?thesis by (intro wake_thread [OF w, of s' p]) (auto intro: sleeping_on)
next
  case (wakeup_end ch j)
  then show ?thesis by (intro wake_thread [OF w, of s' p]) (auto intro: sleeping_on)
qed

lemma kstep_wake: "kstep s s' \<Longrightarrow> sched_inv s \<Longrightarrow> wake_inv s \<Longrightarrow> wake_inv s'"
  unfolding kstep_def
  by (elim exE disjE)
    (blast intro: scheduler_wake swtch_wake yield_wake forkret_wake critical_wake sleep_wake wakeup_wake
      kill_wake exit_wake alloc_wake fork_wake wait_wake)+

lemma kreach_wake: "kreach s \<Longrightarrow> wake_inv s"
proof (induction rule: kreach.induct)
  case (kreach_init s)
  have "pst s p \<noteq> SLEEPING \<and> thr s p \<in> {P_off R_fork, P_off R_dead}" for p
    using kreach_init by (cases "p = 0") (auto simp: kinit_state_def)
  then show ?case by (auto simp: wake_inv_def waits_on_def) (metis ppc.distinct)+
next
  case (kreach_step s s')
  then show ?case using kstep_wake kreach_inv by blast
qed

text \<open>C8.  Sleeping and waking on any number of CPUs (\<^verbatim>\<open>kernel/proc.c\<close>): no wakeup is lost.
  If a process sleeps on a channel while the condition of the channel holds, then a thread on some
  CPU holds the lock of the channel and is in \<open>wakeup\<close>, before that process in its loop.  In
  particular, whenever the lock is free, a process sleeps only while its condition does not hold.\<close>

theorem sleep_no_lost_wakeup:
  assumes "kreach s" and "p < NPROC" and "pst s p = SLEEPING" and "chan (ptab s p) = Some ch" and "cond s ch"
  shows "\<exists>c q. clk s ch = Some c \<and> cpus s c = S_in q \<and> q \<noteq> p \<and> waking ch p (thr s q)"
proof -
  have inv: "sched_inv s" using assms(1) by (rule kreach_inv)
  obtain q where q: "q \<noteq> p" "waking ch p (thr s q)"
    using kreach_wake [OF assms(1)] assms(2-5) sleeping_on unfolding wake_inv_def by blast
  then have "ch \<in> clset (thr s q)" "\<And>r. thr s q \<noteq> P_off r"
    by (cases "(ch, p, thr s q)" rule: waking.cases; auto)+
  moreover then obtain c where "cpus s c = S_in q" using on_cpu [OF inv, of q] by blast
  ultimately show ?thesis using q cpu_locks(2) [OF inv, of c q] by blast
qed


section \<open>A run\<close>

text \<open>
  The first process forks a second one and goes to sleep; the second then makes the condition hold.
\<close>

definition idle_proc :: proc where
  "idle_proc = \<lparr>pstate = UNUSED, chan = None, killed = 0, xstate = 0, pid = 0, parent = None, kstack = 0,
     sz = 0, pagetable = 0, trapframe = 0, pcontext = \<lparr>ra = 0, sp = 0, sregs = []\<rparr>, ofile = [],
     cwd = None, pname = []\<rparr>"

definition boot :: sys where
  "boot = \<lparr>ptab = (\<lambda>_. idle_proc)(0 := idle_proc\<lparr>pstate := RUNNABLE\<rparr>), plk = (\<lambda>_. None), clk = (\<lambda>_. None),
     cond = (\<lambda>_. False), cpus = (\<lambda>_. S_loop 0), cproc = (\<lambda>_. None),
     thr = (\<lambda>_. P_off R_dead)(0 := P_off R_fork)\<rparr>"

lemma pstate_idle [simp]: "pstate idle_proc = UNUSED"
  by (simp add: idle_proc_def)

lemma kreach_steps:
  "kreach s \<Longrightarrow> scheduler c s s' \<Longrightarrow> kreach s'"
  "kreach s \<Longrightarrow> forkret_cpu c p s s' \<Longrightarrow> kreach s'"
  "kreach s \<Longrightarrow> critical c p s s' \<Longrightarrow> kreach s'"
  "kreach s \<Longrightarrow> sleep_cpu c p s s' \<Longrightarrow> kreach s'"
  "kreach s \<Longrightarrow> allocproc_cpu c p s s' \<Longrightarrow> kreach s'"
  "kreach s \<Longrightarrow> fork_cpu c p s s' \<Longrightarrow> kreach s'"
  by (erule kreach_step, unfold kstep_def, blast)+

lemma kreach_swtch:
  assumes "kreach s" and "cpus s c = S_in p" and "thr s p = P_swtch r"
  shows "kreach (go p (P_off r) (gocpu c (S_ret p) s))"
proof (rule kreach_step [OF assms(1)])
  have "sched c p s (go p (P_off r) (gocpu c (S_ret p) s))"
    by (rule sched_swtch [OF assms(2,3) sched_check_ok [OF kreach_inv [OF assms(1)] assms(2,3)]])
  then show "kstep s (go p (P_off r) (gocpu c (S_ret p) s))" unfolding kstep_def by blast
qed

lemma boot_reach: "kreach boot"
  by (rule kreach_init) (auto simp: kinit_state_def boot_def)

lemma boot_runs:
  "\<exists>s. kreach s \<and> cpus s 0 = S_in 1 \<and> pst s 0 = SLEEPING \<and> chan (ptab s 0) = Some Chan_ticks \<and> cond s Chan_ticks"
proof -
  note k0 = boot_reach
  note k1 = kreach_steps(1) [OF k0 [unfolded boot_def] scheduler.sched_acquire [of _ 0 0], simplified]
  note k2 = kreach_steps(1) [OF k1 scheduler.sched_run [of _ 0 0 R_fork], simplified]
  note k3 = kreach_steps(2) [OF k2 forkret_cpu.forkret_release [of _ 0 0], simplified]
  note k4 = kreach_steps(5) [OF k3 allocproc_cpu.alloc_call [of _ 0 0], simplified]
  note k5 = kreach_steps(5) [OF k4 allocproc_cpu.alloc_acquire [of _ 0 0 0], simplified]
  note k6 = kreach_steps(5) [OF k5 allocproc_cpu.alloc_skip [of _ 0 0 0], simplified]
  note k7 = kreach_steps(5) [OF k6 allocproc_cpu.alloc_next [of _ 0 0 0], simplified]
  note k8 = kreach_steps(5) [OF k7 allocproc_cpu.alloc_acquire [of _ 0 0 1], simplified]
  note k9 = kreach_steps(5) [OF k8 allocproc_cpu.alloc_found [of _ 0 0 1 2], simplified]
  note k10 = kreach_steps(6) [OF k9 fork_cpu.fork_release [of _ 0 0 1], simplified]
  note k11 = kreach_steps(6) [OF k10 fork_cpu.fork_parent [of _ 0 0 1], simplified]
  note k12 = kreach_steps(6) [OF k11 fork_cpu.fork_acquire [of _ 0 0 1], simplified]
  note k13 = kreach_steps(6) [OF k12 fork_cpu.fork_state [of _ 0 0 1], simplified]
  note k14 = kreach_steps(6) [OF k13 fork_cpu.fork_return [of _ 0 0 1], simplified]
  note k15 = kreach_steps(3) [OF k14 critical.crit_acquire [of _ 0 0 Chan_ticks], simplified]
  note k16 = kreach_steps(3) [OF k15 critical.crit_sleep [of _ 0 0 Chan_ticks], simplified]
  note k17 = kreach_steps(4) [OF k16 sleep_cpu.sleep_acquire [of _ 0 0 Chan_ticks], simplified]
  note k18 = kreach_steps(4) [OF k17 sleep_cpu.sleep_release [of _ 0 0 Chan_ticks], simplified]
  note k19 = kreach_steps(4) [OF k18 sleep_cpu.sleep_state [of _ 0 0 Chan_ticks], simplified]
  note k20 = kreach_swtch [OF k19, of 0 0 "R_sleep Chan_ticks", simplified]
  note k21 = kreach_steps(1) [OF k20 scheduler.sched_ret [of _ 0 0], simplified]
  note k22 = kreach_steps(1) [OF k21 scheduler.sched_release [of _ 0 0], simplified]
  note k23 = kreach_steps(1) [OF k22 scheduler.sched_acquire [of _ 0 1], simplified]
  note k24 = kreach_steps(1) [OF k23 scheduler.sched_run [of _ 0 1 R_fork], simplified]
  note k25 = kreach_steps(2) [OF k24 forkret_cpu.forkret_release [of _ 0 1], simplified]
  note k26 = kreach_steps(3) [OF k25 critical.crit_acquire [of _ 0 1 Chan_ticks], simplified]
  note k27 = kreach_steps(3) [OF k26 critical.crit_wakeup [of _ 0 1 Chan_ticks], simplified]
  show ?thesis by (rule exI, rule conjI, rule k27) (simp_all add: params)
qed


theorem sleep_no_lost_wakeup_witness:
  "\<exists>s c q. kreach s \<and> pst s 0 = SLEEPING \<and> cond s Chan_ticks \<and> clk s Chan_ticks = Some c \<and>
     waking Chan_ticks 0 (thr s q)"
proof -
  obtain s where s: "kreach s" "pst s 0 = SLEEPING" "chan (ptab s 0) = Some Chan_ticks" "cond s Chan_ticks"
    using boot_runs by blast
  then show ?thesis using sleep_no_lost_wakeup [OF s(1) _ s(2-4)] by (auto simp: params)
qed

end
