(* ===== verification/Sh_Type.thy ===== *)
theory Sh_Type
  imports Sh_Print Sh_Run
begin

text \<open>
  What the shell's parser returns is a command that the rest of the shell can handle: the words of
  every \<open>exec\<close> fit \<open>argv\<close> with its terminating null pointer, and the redirections are the ones that
  \<open>runcmd\<close> and the printer of \<open>Sh_Print\<close> assume.
\<close>

definition redir_ok :: "redir \<Rightarrow> bool" where
  "redir_ok r = (case r of (q, mode, fd) \<Rightarrow> word_ok q \<and>
     (mode = m_rdonly \<and> fd = 0 \<or> (mode = m_trunc \<or> mode = m_append) \<and> fd = 1))"

lemma gettoken_word_ok:
  assumes "gettoken s = (97, w, r)"
  shows "word_ok w"
proof -
  obtain c t where s: "skip_ws s = c # t" using assms by (cases "skip_ws s") (auto simp: gettoken_def)
  have ns: "c \<notin> {124, 40, 41, 59, 38, 60, 62}"
    using assms s by (auto simp: gettoken_def Let_def split: list.splits if_splits)
  then have w: "w = takeWhile (\<lambda>c. \<not> is_ws c \<and> \<not> is_sym c) (c # t)"
    using assms s by (auto simp: gettoken_def Let_def)
  have "\<not> is_ws c" using s hd_dropWhile [of is_ws s] by (auto simp: skip_ws_def)
  moreover have "\<not> is_sym c" using ns by (auto simp: is_sym_def symbols_def split: if_splits)
  moreover have "list_all (\<lambda>c. \<not> is_ws c \<and> \<not> is_sym c) w" unfolding w list_all_iff using set_takeWhileD by fastforce
  ultimately show ?thesis using w by (simp add: word_ok_def)
qed

lemma wrap_ok: "cmd_ok c \<Longrightarrow> list_all redir_ok rs \<Longrightarrow> cmd_ok (wrap c rs)"
  unfolding wrap_def by (induction rs arbitrary: c) (auto simp: redir_ok_def)

lemma parseamps_ok: "cmd_ok c \<Longrightarrow> parseamps c s = (c', r) \<Longrightarrow> cmd_ok c'"
proof (induction c s arbitrary: c' r rule: parseamps.induct)
  case (1 c s)
  obtain tok w u where g: "gettoken s = (tok, w, u)" by (cases "gettoken s") auto
  show ?case
  proof (cases "peek s [38]")
    case True
    then have "parseamps (Back c) u = (c', r)" using "1.prems" g by (simp add: parseamps.simps [of c s])
    then show ?thesis using "1.IH" True g "1.prems"(1) by auto
  next
    case False
    then show ?thesis using "1.prems" by (simp add: parseamps.simps [of c s])
  qed
qed

lemma parseredirs_ok: "parseredirs s = Ok (rs, r) \<Longrightarrow> list_all redir_ok rs"
proof (induction s arbitrary: rs r rule: parseredirs.induct)
  case (1 s)
  obtain tok w u where g: "gettoken s = (tok, w, u)" by (cases "gettoken s") auto
  obtain tok2 q v where g2: "gettoken u = (tok2, q, v)" by (cases "gettoken u") auto
  show ?case
  proof (cases "peek s [60, 62]")
    case True
    then have t2: "tok2 = 97" using "1.prems" g g2 by (auto simp: parseredirs.simps [of s] split: if_splits)
    then obtain rs' where rs': "parseredirs v = Ok (rs', r)"
      "rs = (if tok = 60 then (q, m_rdonly, 0) else if tok = 62 then (q, m_trunc, 1) else (q, m_append, 1)) # rs'"
      using "1.prems" g g2 True by (auto simp: parseredirs.simps [of s] elim!: bindR_eq_OkE)
    have "list_all redir_ok rs'" using "1.IH" True g g2 t2 rs'(1) by auto
    moreover have "word_ok q" using gettoken_word_ok g2 t2 by blast
    then have "redir_ok (if tok = 60 then (q, m_rdonly, 0) else if tok = 62 then (q, m_trunc, 1) else (q, m_append, 1))"
      by (auto simp: redir_ok_def)
    ultimately show ?thesis using rs'(2) by simp
  next
    case False
    then show ?thesis using "1.prems" by (simp add: parseredirs.simps [of s])
  qed
qed

lemma parseargs_ok:
  "parseargs argc s = Ok (args, rs, r) \<Longrightarrow> argc < MAXARGS \<Longrightarrow>
    argc + length args < MAXARGS \<and> list_all word_ok args \<and> list_all redir_ok rs"
proof (induction argc s arbitrary: args rs r rule: parseargs.induct)
  case (1 argc s)
  obtain tok q u where g: "gettoken s = (tok, q, u)" by (cases "gettoken s") auto
  show ?case
  proof (cases "peek s [124, 41, 38, 59] \<or> tok = 0")
    case True
    then show ?thesis using "1.prems" g by (auto simp: parseargs.simps [of argc s] split: if_splits)
  next
    case False
    then have t: "tok = 97" "\<not> Suc argc \<ge> MAXARGS"
      using "1.prems"(1) g by (auto simp: parseargs.simps [of argc s] split: if_splits)
    then obtain rs1 v args' rs2 where v: "parseredirs u = Ok (rs1, v)" "parseargs (Suc argc) v = Ok (args', rs2, r)"
      "args = q # args'" "rs = rs1 @ rs2"
      using "1.prems"(1) g False by (auto simp: parseargs.simps [of argc s] elim!: bindR_eq_OkE)
    have "Suc argc + length args' < MAXARGS \<and> list_all word_ok args' \<and> list_all redir_ok rs2"
      by (rule "1.IH" [OF _ g [symmetric] refl _ _ _ _ refl v(2)]) (use False t v in auto)
    then show ?thesis using v gettoken_word_ok g t parseredirs_ok by auto
  qed
qed


lemma parse_ok:
  "parseline n s = Ok (c, r) \<Longrightarrow> cmd_ok c" "parsepipe n s = Ok (c, r) \<Longrightarrow> cmd_ok c"
  "parseexec n s = Ok (c, r) \<Longrightarrow> cmd_ok c" "parseblock n s = Ok (c, r) \<Longrightarrow> cmd_ok c"
proof (induction n s and n s and n s and n s arbitrary: c r and c r and c r and c r
    rule: parseline_parsepipe_parseexec_parseblock.induct)
  case (2 n s)
  obtain c1 s1 where a: "parsepipe n s = Ok (c1, s1)"
    using 2(3) by (auto elim!: bindR_eq_OkE)
  obtain c2 s2 where b: "parseamps c1 s1 = (c2, s2)" by (cases "parseamps c1 s1")
  obtain tok w s3 where g: "gettoken s2 = (tok, w, s3)" by (cases "gettoken s2") auto
  have "cmd_ok c2" using 2(1) [OF a] parseamps_ok b by blast
  then show ?case using 2(2) [OF a refl b [symmetric] _ g [symmetric] refl] 2(3) a b g
    by (auto split: if_splits elim!: bindR_eq_OkE)
next
  case (4 n s)
  obtain c1 s1 where a: "parseexec n s = Ok (c1, s1)" using 4(3) by (auto elim!: bindR_eq_OkE)
  obtain tok w s3 where g: "gettoken s1 = (tok, w, s3)" by (cases "gettoken s1") auto
  show ?case using 4(1) [OF a] 4(2) [OF a refl _ g [symmetric] refl] 4(3) a g
    by (auto split: if_splits elim!: bindR_eq_OkE)
next
  case (6 n s)
  show ?case
  proof (cases "peek s [40]")
    case False
    then obtain rs s1 args rs' where "parseredirs s = Ok (rs, s1)" "parseargs 0 s1 = Ok (args, rs', r)"
      "c = wrap (Exec args) (rs @ rs')" using 6(2) by (auto elim!: bindR_eq_OkE)
    then show ?thesis using parseredirs_ok parseargs_ok [of 0 s1 args rs' r]
      by (auto intro!: wrap_ok simp: MAXARGS_def)
  qed (use 6 in auto)
next
  case (8 n s)
  obtain tok w s1 where g: "gettoken s = (tok, w, s1)" by (cases "gettoken s") auto
  have p: "peek s [40]" using 8(2) by (auto split: if_splits)
  obtain c1 s2 where a: "parseline n s1 = Ok (c1, s2)" using 8(2) p g by (auto elim!: bindR_eq_OkE)
  obtain tok2 w2 s3 where g2: "gettoken s2 = (tok2, w2, s3)" by (cases "gettoken s2") auto
  obtain rs where rs: "parseredirs s3 = Ok (rs, r)" "c = wrap c1 rs"
    using 8(2) p g a g2 by (auto split: if_splits elim!: bindR_eq_OkE)
  have "cmd_ok c1" by (rule 8(1) [OF _ g [symmetric] refl a]) (use p in simp)
  then show ?case using rs parseredirs_ok wrap_ok by blast
qed simp_all

lemma cmd_ok_fds: "cmd_ok c \<Longrightarrow> fds_ok c"
  by (induction c) auto

text \<open>C32.  The commands of the shell are well typed (\<^verbatim>\<open>user/sh.c\<close>): whatever line
  \<open>parsecmd\<close> accepts, every \<open>exec\<close> in the command it returns has fewer than \<open>MAXARGS\<close> arguments, all
  arguments and file names are non-empty words without blanks and symbols, and every
  redirection opens descriptor 0 for reading or descriptor 1 for writing, as running the command
  with its descriptors wired right needs.\<close>

theorem parsecmd_typed:
  assumes "parsecmd s = Ok c"
  shows "cmd_ok c \<and> fds_ok c"
  using assms parse_ok(1) cmd_ok_fds unfolding parsecmd_def by (fastforce split: if_splits elim!: bindR_eq_OkE)

text \<open>\<open>a < f\<close>\<close>

theorem parsecmd_typed_witness:
  "\<exists>c. parsecmd (unparse (Redir (Exec [[97]]) [102] m_rdonly 0)) = Ok c \<and> cmd_ok c \<and> fds_ok c"
proof -
  have "parsecmd (unparse (Redir (Exec [[97]]) [102] m_rdonly 0)) = Ok (Redir (Exec [[97]]) [102] m_rdonly 0)"
    by code_simp
  then show ?thesis using parsecmd_typed by blast
qed

end
