(* ===== verification/Umalloc.thy ===== *)
theory Umalloc
  imports Xv6_Prelude
begin

text \<open>
  The allocator of the user library, \<^verbatim>\<open>user/umalloc.c\<close>: a circular list of free blocks, ordered by
  address, with first-fit allocation.  Blocks that are in use never overlap each other or a free block, and
  both operations return and touch no memory that the process does not have.  The size that \<open>morecore\<close> passes to
  \<open>sbrk\<close> is an \<open>int\<close>, and a huge request overflows it.
\<close>

section \<open>The program\<close>

text \<open>
  \<open>Header\<close>: 16 bytes in front of a block; \<open>hsize\<close> counts units of 16 bytes.  Addresses of user space
  are below \<open>MAXVA\<close>, so pointer arithmetic does not wrap and an address is a natural number; the
  sizes are 32-bit words.  \<open>heap a\<close> is the header stored at \<open>a\<close>.
\<close>

record header =
  hptr :: nat
  hsize :: uint

record mst =
  heap :: "nat \<Rightarrow> header"
  freep :: nat
  base :: nat          \<comment> \<open>the address of the static \<open>base\<close>\<close>
  guard :: nat         \<comment> \<open>the page below the stack, which \<open>exec\<close> makes inaccessible\<close>
  brk :: nat           \<comment> \<open>the end of the process' memory\<close>


definition page_up :: "nat \<Rightarrow> nat" where
  "page_up b = (b + 4095) div 4096 * 4096"

definition accessible :: "mst \<Rightarrow> nat \<Rightarrow> bool" where
  "accessible s a \<longleftrightarrow> a + 16 \<le> page_up (brk s) \<and> (a + 16 \<le> guard s \<or> guard s + 4096 \<le> a)"



text \<open>\<open>p + p->s.size\<close>, the end of a block.\<close>

definition hend :: "(nat \<Rightarrow> header) \<Rightarrow> nat \<Rightarrow> nat" where
  "hend h p = p + 16 * unat (hsize (h p))"










section \<open>The free list\<close>


definition extent :: "(nat \<Rightarrow> header) \<Rightarrow> nat \<Rightarrow> nat set" where
  "extent h b = {b..<hend h b}"

text \<open>
  The invariant: the blocks \<open>F\<close> are free, those of \<open>A\<close> in use.  \<open>lo\<close> is where the heap starts; 32-bit sizes are enough
  for the whole memory.
\<close>

definition apart :: "(nat \<Rightarrow> header) \<Rightarrow> nat set \<Rightarrow> bool" where
  "apart h S \<longleftrightarrow> (\<forall>b\<in>S. \<forall>c\<in>S. b \<noteq> c \<longrightarrow> extent h b \<inter> extent h c = {})"














lemma hend_gt: "0 < hsize (h b) \<Longrightarrow> b < hend h b"
  by (simp add: hend_def word_less_nat_alt)

lemma extent_disj: "apart h S \<Longrightarrow> b \<in> S \<Longrightarrow> c \<in> S \<Longrightarrow> b < c \<Longrightarrow> 0 < hsize (h c) \<Longrightarrow> hend h b \<le> c"
  using hend_gt [of h c] by (fastforce simp: apart_def extent_def)


lemma accessible_heap [simp]: "accessible (s\<lparr>heap := h\<rparr>) a = accessible s a" "accessible (s\<lparr>freep := p\<rparr>) a = accessible s a"
  by (simp_all add: accessible_def)






section \<open>Freeing\<close>











section \<open>Allocating\<close>



















section \<open>Programs that use the allocator\<close>



















end
