(* ===== verification/Fs_Tx.thy ===== *)
theory Fs_Tx
  imports Log_Reserve Fs
begin

text \<open>
  The file system inside a transaction, where \<open>H\<close> are the blocks that the operation has locked.  The lemmas give the effect of reading, writing and releasing a block on the view
  \<open>blk\<close> of the disk and on the blocks that are in the log, and then of the block allocator.
\<close>

section \<open>Blocks in a transaction\<close>

text \<open>What a transaction may change apart from the view: the cache, wake-ups and the list of logged blocks.\<close>

definition txstep :: "'z logst_scheme \<Rightarrow> 'z logst_scheme \<Rightarrow> bool" where
  "txstep s s' \<longleftrightarrow> (\<exists>ps bs n B. s' = s\<lparr>proc := ps, bufs := bs, log := (log s)\<lparr>lhn := n, lhblock := B\<rparr>\<rparr>)"

lemma txstep_refl [simp]: "txstep s s"
  unfolding txstep_def
  by (intro exI [of _ "proc s"] exI [of _ "bufs s"] exI [of _ "lhn (log s)"] exI [of _ "lhblock (log s)"]) simp

lemma txstepI:
  "s' = s\<lparr>proc := proc s', bufs := bufs s', log := (log s)\<lparr>lhn := lhn (log s'), lhblock := lhblock (log s')\<rparr>\<rparr> \<Longrightarrow>
   txstep s s'"
  unfolding txstep_def by (intro exI)

lemma txstep_trans [trans]: "txstep s s' \<Longrightarrow> txstep s' s'' \<Longrightarrow> txstep s s''"
  unfolding txstep_def [of s s'] txstep_def [of s' s''] by (elim exE, intro txstepI) simp

lemma txstep_same:
  assumes "txstep s s'"
  shows "logarea (log s') = logarea (log s)" "logcap (log s') = logcap (log s)" "disk s' = disk s"
    "lsize (log s') = lsize (log s)" "outstanding (log s') = outstanding (log s)" "committing (log s') = committing (log s)"
  using assms by (auto simp: txstep_def)

lemma txstep_fs:
  fixes s :: "'z fsst_scheme"
  assumes "txstep s s'"
  shows "sb s' = sb s" "itable s' = itable s"
  using assms by (auto simp: txstep_def)

lemma lstep_txstep: "lstep [] s s' \<Longrightarrow> txstep s s'" for s :: "'z logst_scheme"
  unfolding lstep_def txstep_def
  by (elim exE, rename_tac ps bs, rule_tac x = ps in exI, rule_tac x = bs in exI,
    rule exI [of _ "lhn (log s)"], rule exI [of _ "lhblock (log s)"]) simp

lemma txD:
  assumes "logok dv H s"
  shows "bst dv (logged s) H s" "card (logged s) = nat (lhn (log s))" "0 \<le> lhn (log s)" "finite (logged s)"
  using logokD(2,6,8) [of dv H s] assms by (auto simp: logged_def)

lemma logok_step:
  assumes "logok dv H s" and "lstep [] s s'" and "bst dv (logged s) H' s'"
  shows "logok dv H' s'" "logged s' = logged s"
  using assms lstep_log [OF assms(2)] by (simp_all add: logok_def Let_def logged_def)

text \<open>A block that can be released: it is in the log or agrees with the disk.\<close>

definition clean :: "uint \<Rightarrow> 'z logst_scheme \<Rightarrow> uint \<Rightarrow> bool" where
  "clean dv s bn \<longleftrightarrow> bn \<in> logged s \<or> blk dv s bn = disk s bn"

lemma tx_bread:
  assumes t: "logok dv H s" and n: "bn \<notin> H" and c: "card (logged s) + card H < 30"
  shows "\<exists>b s'. bread dv bn s = Ok (b, s') \<and> logok dv (insert bn H) s' \<and> txstep s s' \<and> isbuf dv (bufs s') bn b \<and>
    data (bufs s' ! b) = blk dv s bn \<and> blk dv s' = blk dv s \<and> logged s' = logged s \<and> clean dv s' bn \<and>
    (\<forall>bn'\<in>H. \<forall>j. isbuf dv (bufs s) bn' j \<longrightarrow> isbuf dv (bufs s') bn' j)"
proof -
  note B = txD(1) [OF t]
  have cd: "card (logged s \<union> H) < NBUF" using card_Un_le [of "logged s" H] c by (simp add: NBUF_30)
  obtain b s' where r: "bread dv bn s = Ok (b, s')" "lstep [] s s'" "bst dv (logged s) (insert bn H) s'"
    "isbuf dv (bufs s') bn b" "data (bufs s' ! b) = blk dv s bn" "blk dv s' = blk dv s"
    "\<forall>bn'\<in>H. \<forall>j. isbuf dv (bufs s) bn' j \<longrightarrow> isbuf dv (bufs s') bn' j"
    using bread_step [OF B n] cd by blast
  note k = logok_step [OF _ r(2,3)]
  have "clean dv s' bn"
    using blk_clean [OF B, of bn] n k(2) t lstep_disk [OF r(2)] r(6) by (auto simp: clean_def)
  then show ?thesis using r k t lstep_log [OF r(2)] lstep_txstep [OF r(2)] by auto
qed

lemma log_write_txstep: "log_write b (set_data b d s) = Ok s' \<Longrightarrow> txstep s s'"
  unfolding log_write_def set_data_def bpin_def Let_def
  by (rule txstepI) (auto split: if_splits)

lemma tx_write:
  assumes t: "logok dv H s" and h: "bn \<in> H" and b: "isbuf dv (bufs s) bn b" and d: "length d = BSIZE"
    and room: "card (logged s) < logcap (log s)" and area: "bn \<notin> logarea (log s)" and out: "1 \<le> outstanding (log s)"
  shows "\<exists>s'. log_write b (set_data b d s) = Ok s' \<and> logok dv H s' \<and> txstep s s' \<and> isbuf dv (bufs s') = isbuf dv (bufs s) \<and>
    blk dv s' = (blk dv s)(bn := d) \<and> logged s' = insert bn (logged s) \<and> clean dv s' bn"
proof -
  let ?s = "set_data b d s"
  have 1: "bst dv (logged s) H ?s" "isbuf dv (bufs ?s) = isbuf dv (bufs s)" "blk dv ?s = (blk dv s)(bn := d)"
    using setdata_ok [OF txD(1) [OF t] h b d refl] by (auto simp: set_data_def)
  have l: "log ?s = log s" by (simp add: set_data_def)
  have "logok dv H ?s" using t 1(1) unfolding logok_def Let_def l logged_def by simp
  moreover have "lhn (log ?s) < int (logcap (log ?s))" using room txD(2,3) [OF t] l by simp
  ultimately obtain s' where r: "log_write b ?s = Ok s'" "logok dv H s'" "blk dv s' = (blk dv s)(bn := d)"
    "disk s' = disk ?s" "isbuf dv (bufs s') = isbuf dv (bufs s)" "logged s' = insert bn (logged s)"
    "log s' = (log s)\<lparr>lhn := lhn (log s'), lhblock := lhblock (log s')\<rparr>"
    using log_write_ok [of dv H ?s bn b] h b 1 l t area out unfolding logged_def by auto
  have "txstep s s'" using log_write_txstep [OF r(1)] .
  then show ?thesis using r t by (auto simp: clean_def)
qed

lemma tx_brelse:
  assumes t: "logok dv H s" and h: "bn \<in> H" and b: "isbuf dv (bufs s) bn b" and c: "clean dv s bn"
  shows "\<exists>s'. brelse b s = Ok s' \<and> logok dv (H - {bn}) s' \<and> txstep s s' \<and> isbuf dv (bufs s') = isbuf dv (bufs s) \<and>
    blk dv s' = blk dv s \<and> logged s' = logged s"
proof -
  obtain s' where r: "brelse b s = Ok s'" "lstep [] s s'" "bst dv (logged s) (H - {bn}) s'"
    "isbuf dv (bufs s') = isbuf dv (bufs s)" "blk dv s' = blk dv s"
    using brelse_step [OF txD(1) [OF t] h b] c unfolding clean_def by blast
  then show ?thesis using logok_step [OF _ r(2,3)] t lstep_log [OF r(2)] lstep_txstep [OF r(2)] by auto
qed


section \<open>The block allocator\<close>

definition set_bit_at :: "nat \<Rightarrow> byte list \<Rightarrow> byte list" where
  "set_bit_at b d = d[b div 8 := d ! (b div 8) OR push_bit (b mod 8) 1]"

lemma length_set_bit_at [simp]: "length (set_bit_at b d) = length d"
  by (simp add: set_bit_at_def)

lemma bit_free_iff: "bit_free d b \<longleftrightarrow> \<not> bit (d ! (b div 8)) (b mod 8)"
  by (simp add: bit_free_def and_exp_eq_0_iff_not_bit)

lemma bit_free_set:
  assumes "b < 8 * length d" and "c < 8 * length d"
  shows "bit_free (set_bit_at b d) c \<longleftrightarrow> bit_free d c \<and> c \<noteq> b"
proof -
  have l: "b div 8 < length d" "c div 8 < length d" using assms by auto
  have "c = b \<longleftrightarrow> c div 8 = b div 8 \<and> c mod 8 = b mod 8" by (metis div_mult_mod_eq)
  then show ?thesis using l by (auto simp: bit_free_iff set_bit_at_def nth_list_update bit_simps)
qed

text \<open>The first free block, and what allocating a block does to the view.\<close>

definition first_free :: "superblock \<Rightarrow> (uint \<Rightarrow> byte list) \<Rightarrow> nat option" where
  "first_free sbk B = find (bit_free (B (bmapstart sbk))) [0..<unat (fssize sbk)]"

definition take_blk :: "superblock \<Rightarrow> nat \<Rightarrow> (uint \<Rightarrow> byte list) \<Rightarrow> uint \<Rightarrow> byte list" where
  "take_blk sbk b B = B(bmapstart sbk := set_bit_at b (B (bmapstart sbk)), of_nat b := replicate BSIZE 0)"

text \<open>The bitmap is one block, as in the file system that \<open>mkfs\<close> makes.\<close>

lemma strides_one: "0 < n \<Longrightarrow> n \<le> k \<Longrightarrow> strides k n = [0]"
proof -
  assume n: "0 < n" "n \<le> k"
  then have "(n + k - 1) div k = 1" by (intro div_nat_eqI) auto
  then show ?thesis by (simp add: strides_def)
qed

lemma bzero_ok:
  assumes t: "logok dv H s" and n: "bn \<notin> H" "bn \<notin> logarea (log s)" and out: "1 \<le> outstanding (log s)"
    and room: "card (logged s) + card H < logcap (log s)"
  shows "\<exists>s'. bzero dv bn s = Ok s' \<and> logok dv H s' \<and> txstep s s' \<and> blk dv s' = (blk dv s)(bn := replicate BSIZE 0) \<and>
    logged s' = insert bn (logged s) \<and> (\<forall>bn'\<in>H. \<forall>j. isbuf dv (bufs s) bn' j \<longrightarrow> isbuf dv (bufs s') bn' j)"
proof -
  obtain b s1 where 1: "bread dv bn s = Ok (b, s1)" "logok dv (insert bn H) s1" "txstep s s1" "isbuf dv (bufs s1) bn b"
    "blk dv s1 = blk dv s" "logged s1 = logged s"
    "\<forall>bn'\<in>H. \<forall>j. isbuf dv (bufs s) bn' j \<longrightarrow> isbuf dv (bufs s1) bn' j"
    using tx_bread [OF t n(1)] room logcap_30 [of "log s"] by auto
  note f = txstep_same [OF 1(3)]
  obtain s2 where 2: "log_write b (set_data b (replicate BSIZE 0) s1) = Ok s2" "logok dv (insert bn H) s2" "txstep s1 s2"
    "isbuf dv (bufs s2) = isbuf dv (bufs s1)" "blk dv s2 = (blk dv s)(bn := replicate BSIZE 0)"
    "logged s2 = insert bn (logged s)" "clean dv s2 bn"
    using tx_write [OF 1(2) insertI1 1(4), of "replicate BSIZE 0"] room n(2) out f 1(5,6) by auto
  obtain s3 where 3: "brelse b s2 = Ok s3" "logok dv (insert bn H - {bn}) s3" "txstep s2 s3"
    "isbuf dv (bufs s3) = isbuf dv (bufs s2)" "blk dv s3 = blk dv s2" "logged s3 = logged s2"
    using tx_brelse [OF 2(2) insertI1 _ 2(7), of b] 1(4) 2(4) by auto
  have "insert bn H - {bn} = H" using n(1) by auto
  then show ?thesis using 1 2 3 txstep_trans [OF txstep_trans [OF 1(3) 2(3)] 3(3)]
    by (intro exI [of _ s3]) (simp add: bzero_def)
qed

lemma balloc_ok:
  fixes s :: "'z fsst_scheme"
  assumes t: "logok dv H s" and bm: "bmapstart (sb s) \<notin> H \<union> logarea (log s)" and size: "0 < fssize (sb s)" "unat (fssize (sb s)) \<le> BPB"
    and b: "first_free (sb s) (blk dv s) = Some b" and nb: "of_nat b \<notin> H \<union> logarea (log s)"
    and room: "card (insert (bmapstart (sb s)) (logged s)) + card H < logcap (log s)" and out: "1 \<le> outstanding (log s)"
  shows "\<exists>s'. balloc dv s = Ok (of_nat b, s') \<and> logok dv H s' \<and> txstep s s' \<and> blk dv s' = take_blk (sb s) b (blk dv s) \<and>
    logged s' = insert (of_nat b) (insert (bmapstart (sb s)) (logged s)) \<and>
    (\<forall>bn'\<in>H. \<forall>j. isbuf dv (bufs s) bn' j \<longrightarrow> isbuf dv (bufs s') bn' j)"
proof -
  let ?bm = "bmapstart (sb s)"
  have c: "card (logged s) \<le> card (insert ?bm (logged s))" by (rule card_insert_le)
  obtain p s1 where 1: "bread dv ?bm s = Ok (p, s1)" "logok dv (insert ?bm H) s1" "txstep s s1" "isbuf dv (bufs s1) ?bm p"
    "data (bufs s1 ! p) = blk dv s ?bm" "blk dv s1 = blk dv s" "logged s1 = logged s"
    "\<forall>bn'\<in>H. \<forall>j. isbuf dv (bufs s) bn' j \<longrightarrow> isbuf dv (bufs s1) bn' j"
    using tx_bread [OF t, of ?bm] bm room c logcap_30 [of "log s"] by auto
  note f1 = txstep_same [OF 1(3)]
  let ?d = "set_bit_at b (blk dv s ?bm)"
  have ld: "length ?d = BSIZE" using blk_length [OF txD(1) [OF t]] by simp
  obtain s2 where 2: "log_write p (set_data p ?d s1) = Ok s2" "logok dv (insert ?bm H) s2" "txstep s1 s2"
    "isbuf dv (bufs s2) = isbuf dv (bufs s1)" "blk dv s2 = (blk dv s)(?bm := ?d)"
    "logged s2 = insert ?bm (logged s)" "clean dv s2 ?bm"
    using tx_write [OF 1(2) insertI1 1(4) ld] room bm out f1 1(6,7) c by auto
  obtain s3 where 3: "brelse p s2 = Ok s3" "logok dv (insert ?bm H - {?bm}) s3" "txstep s2 s3"
    "isbuf dv (bufs s3) = isbuf dv (bufs s2)" "blk dv s3 = blk dv s2" "logged s3 = logged s2"
    using tx_brelse [OF 2(2) insertI1 _ 2(7), of p] 1(4) 2(4) by auto
  have H: "insert ?bm H - {?bm} = H" using bm by auto
  have f3: "txstep s s3" using txstep_trans [OF txstep_trans [OF 1(3) 2(3)] 3(3)] .
  obtain s4 where 4: "bzero dv (of_nat b) s3 = Ok s4" "logok dv H s4" "txstep s3 s4"
    "blk dv s4 = (blk dv s3)(of_nat b := replicate BSIZE 0)" "logged s4 = insert (of_nat b) (logged s3)"
    "\<forall>bn'\<in>H. \<forall>j. isbuf dv (bufs s3) bn' j \<longrightarrow> isbuf dv (bufs s4) bn' j"
    using bzero_ok [OF 3(2) [unfolded H], of "of_nat b"] nb room out txstep_same [OF f3] 2(6) 3(6) by auto
  have st: "strides BPB (unat (fssize (sb s))) = [0]" using strides_one size by (simp add: word_less_nat_alt)
  have bb: "BBLOCK 0 (sb s) = ?bm" by (simp add: BBLOCK_def)
  have sb1: "sb s1 = sb s" by (rule txstep_fs(1) [OF 1(3)])
  have fd: "find (bit_free (blk dv s ?bm)) [0..<min BPB (unat (fssize (sb s)))] = Some b"
    using b size(2) by (simp add: first_free_def min_absorb2)
  have "balloc dv s = Ok (of_nat b, s4)"
    using 1(1,5) 2(1) [unfolded set_bit_at_def] 3(1) 4(1) fd unfolding balloc_def st
    by (simp add: bb sb1 Let_def)
  moreover have "blk dv s4 = take_blk (sb s) b (blk dv s)" by (simp add: take_blk_def 4(4) 3(5) 2(5))
  ultimately show ?thesis using 1(8) 2(4,6) 3(4,6) 4 txstep_trans [OF f3 4(3)]
    by (intro exI [of _ s4]) simp
qed

end
