(* ===== verification/Fs_Map.thy ===== *)
theory Fs_Map
  imports Fs_Tx
begin

text \<open>
  The blocks of a file.  \<open>B\<close> is the contents of the disk by block number and \<open>ads\<close> the addresses of an inode.  The
  slots of a file are its direct addresses, the address of the indirect block (number \<open>NDIRECT\<close>) and
  the addresses in that block.  A slot that is 0 stands for a block of zeros.
\<close>

definition aslot :: "(uint \<Rightarrow> byte list) \<Rightarrow> uint list \<Rightarrow> nat \<Rightarrow> uint" where
  "aslot B ads i =
     (if i \<le> NDIRECT then ads ! i
      else if ads ! NDIRECT = 0 then 0
      else get32 (B (ads ! NDIRECT)) (4 * (i - NDIRECT - 1)))"

abbreviation NSLOT :: nat where
  "NSLOT \<equiv> NDIRECT + 1 + NINDIRECT"

text \<open>The slot of block \<open>k\<close> of the file, and the contents of the block.\<close>

definition fslot :: "nat \<Rightarrow> nat" where
  "fslot k = (if k < NDIRECT then k else Suc k)"

definition fblk :: "(uint \<Rightarrow> byte list) \<Rightarrow> uint list \<Rightarrow> nat \<Rightarrow> byte list" where
  "fblk B ads k = (let x = aslot B ads (fslot k) in if x = 0 then replicate BSIZE 0 else B x)"

lemma fslot_less [simp]: "k < MAXFILE \<Longrightarrow> fslot k < NSLOT"
  by (auto simp: fslot_def params)

lemma fslot_eq [simp]: "fslot j = fslot k \<longleftrightarrow> j = k" "fslot k \<noteq> NDIRECT"
  by (auto simp: fslot_def)

text \<open>
  The invariant.  \<open>M\<close> are the blocks that belong to no file: the boot block, the log, the inodes and the bitmap, which are
  marked as used.  The blocks of a file are marked as used, and no two slots share a block.
\<close>

definition usedb :: "superblock \<Rightarrow> (uint \<Rightarrow> byte list) \<Rightarrow> uint \<Rightarrow> bool" where
  "usedb sbk B x \<longleftrightarrow> unat x < unat (fssize sbk) \<and> \<not> bit_free (B (bmapstart sbk)) (unat x)"

definition diskok :: "superblock \<Rightarrow> uint set \<Rightarrow> (uint \<Rightarrow> byte list) \<Rightarrow> bool" where
  "diskok sbk M B \<longleftrightarrow> (\<forall>x. length (B x) = BSIZE) \<and> 0 < fssize sbk \<and> unat (fssize sbk) \<le> BPB \<and> 0 \<in> M \<and>
     bmapstart sbk \<in> M \<and> (\<forall>x\<in>M. unat x < unat (fssize sbk) \<longrightarrow> usedb sbk B x)"

definition fileok :: "superblock \<Rightarrow> uint set \<Rightarrow> (uint \<Rightarrow> byte list) \<Rightarrow> uint list \<Rightarrow> bool" where
  "fileok sbk M B ads \<longleftrightarrow> length ads = NDIRECT + 1 \<and>
     (\<forall>i<NSLOT. aslot B ads i \<noteq> 0 \<longrightarrow> aslot B ads i \<notin> M \<and> usedb sbk B (aslot B ads i)) \<and>
     (\<forall>i<NSLOT. \<forall>j<NSLOT. i \<noteq> j \<longrightarrow> aslot B ads i \<noteq> 0 \<longrightarrow> aslot B ads i \<noteq> aslot B ads j)"

lemma diskokD:
  assumes "diskok sbk M B"
  shows "length (B x) = BSIZE" "0 < fssize sbk" "unat (fssize sbk) \<le> BPB" "0 \<in> M" "bmapstart sbk \<in> M"
    "x \<in> M \<Longrightarrow> unat x < unat (fssize sbk) \<Longrightarrow> usedb sbk B x"
  using assms by (auto simp: diskok_def)

lemma fileokD:
  assumes "fileok sbk M B ads"
  shows "length ads = NDIRECT + 1"
    "i < NSLOT \<Longrightarrow> aslot B ads i \<noteq> 0 \<Longrightarrow> aslot B ads i \<notin> M"
    "i < NSLOT \<Longrightarrow> aslot B ads i \<noteq> 0 \<Longrightarrow> usedb sbk B (aslot B ads i)"
    "i < NSLOT \<Longrightarrow> j < NSLOT \<Longrightarrow> i \<noteq> j \<Longrightarrow> aslot B ads i \<noteq> 0 \<Longrightarrow> aslot B ads i \<noteq> aslot B ads j"
  using assms by (auto simp: fileok_def)

lemma slot_ind: "aslot B ads NDIRECT = ads ! NDIRECT"
  by (simp add: aslot_def)

section \<open>Allocating a block for a slot\<close>

definition alloc_slot ::
  "superblock \<Rightarrow> nat \<Rightarrow> nat \<Rightarrow> (uint \<Rightarrow> byte list) \<Rightarrow> uint list \<Rightarrow> (uint \<Rightarrow> byte list) \<times> uint list" where
  "alloc_slot sbk i b B ads =
     (let B = take_blk sbk b B
      in if i \<le> NDIRECT then (B, ads[i := of_nat b])
         else (B(ads ! NDIRECT := put32 (4 * (i - NDIRECT - 1)) (of_nat b) (B (ads ! NDIRECT))), ads))"

lemma first_freeD:
  assumes "diskok sbk M B" and "first_free sbk B = Some b"
  shows "b < unat (fssize sbk)" "bit_free (B (bmapstart sbk)) b" "unat (of_nat b :: uint) = b" "\<not> usedb sbk B (of_nat b)"
    "of_nat b \<notin> M" "(of_nat b :: uint) \<noteq> 0"
proof -
  show 1: "b < unat (fssize sbk)" "bit_free (B (bmapstart sbk)) b"
    using find_SomeD [OF assms(2) [unfolded first_free_def]] by auto
  show 2: "unat (of_nat b :: uint) = b"
    using 1(1) diskokD(3) [OF assms(1)] by (simp add: unat_of_nat BPB_def)
  show 3: "\<not> usedb sbk B (of_nat b)" using 1 2 by (simp add: usedb_def)
  show 4: "of_nat b \<notin> M" using diskokD(6) [OF assms(1), of "of_nat b"] 1(1) 2 3 by auto
  show "(of_nat b :: uint) \<noteq> 0" using 4 diskokD(4) [OF assms(1)] by auto
qed

lemma get32_zero: "get32 (replicate n 0) off = 0"
proof -
  have "of_le (replicate m 0) = (0 :: uint)" for m by (induction m) simp_all
  then show ?thesis by (simp add: get32_def)
qed

definition can_alloc :: "superblock \<Rightarrow> uint set \<Rightarrow> (uint \<Rightarrow> byte list) \<Rightarrow> uint list \<Rightarrow> nat \<Rightarrow> nat \<Rightarrow> bool" where
  "can_alloc sbk M B ads i b \<longleftrightarrow> diskok sbk M B \<and> fileok sbk M B ads \<and> first_free sbk B = Some b \<and> i < NSLOT \<and>
     aslot B ads i = 0 \<and> (NDIRECT < i \<longrightarrow> ads ! NDIRECT \<noteq> 0)"

text \<open>The blocks that are written: the bitmap, the new block, and the indirect block.\<close>

lemma alloc_blocks:
  assumes c: "can_alloc sbk M B ads i b" and r: "alloc_slot sbk i b B ads = (B', ads')"
  shows "x \<noteq> bmapstart sbk \<Longrightarrow> x \<noteq> of_nat b \<Longrightarrow> \<not> (NDIRECT < i \<and> x = ads ! NDIRECT) \<Longrightarrow> B' x = B x"
    and "B' (bmapstart sbk) = set_bit_at b (B (bmapstart sbk))" "B' (of_nat b) = replicate BSIZE 0"
    and "NDIRECT < i \<Longrightarrow> B' (ads ! NDIRECT) = put32 (4 * (i - NDIRECT - 1)) (of_nat b) (B (ads ! NDIRECT))"
proof -
  have d: "diskok sbk M B" and f: "fileok sbk M B ads" and ff: "first_free sbk B = Some b" and i: "i < NSLOT"
    and ind: "NDIRECT < i \<Longrightarrow> ads ! NDIRECT \<noteq> 0" using c by (auto simp: can_alloc_def)
  note b = first_freeD [OF d ff]
  have nb: "of_nat b \<noteq> bmapstart sbk" using b(5) diskokD(5) [OF d] by auto
  have ni: "ads ! NDIRECT \<noteq> bmapstart sbk" "ads ! NDIRECT \<noteq> of_nat b" if "NDIRECT < i"
    using fileokD(2,3) [OF f, of NDIRECT] ind [OF that] diskokD(5) [OF d] b(4) by (auto simp: slot_ind)
  show "x \<noteq> bmapstart sbk \<Longrightarrow> x \<noteq> of_nat b \<Longrightarrow> \<not> (NDIRECT < i \<and> x = ads ! NDIRECT) \<Longrightarrow> B' x = B x"
    "B' (bmapstart sbk) = set_bit_at b (B (bmapstart sbk))" "B' (of_nat b) = replicate BSIZE 0"
    "NDIRECT < i \<Longrightarrow> B' (ads ! NDIRECT) = put32 (4 * (i - NDIRECT - 1)) (of_nat b) (B (ads ! NDIRECT))"
    using r ni nb by (auto simp: alloc_slot_def take_blk_def Let_def split: if_splits)
qed

lemma alloc_slots:
  assumes c: "can_alloc sbk M B ads i b" and r: "alloc_slot sbk i b B ads = (B', ads')" and j: "j < NSLOT"
  shows "aslot B' ads' j = (if j = i then of_nat b else aslot B ads j)"
proof -
  have d: "diskok sbk M B" and f: "fileok sbk M B ads" and ff: "first_free sbk B = Some b" and i: "i < NSLOT" "aslot B ads i = 0"
    and ind: "NDIRECT < i \<Longrightarrow> ads ! NDIRECT \<noteq> 0" using c by (auto simp: can_alloc_def)
  note b = first_freeD [OF d ff] and bl = alloc_blocks [OF c r] and len = fileokD(1) [OF f]
  have ni: "ads ! NDIRECT \<noteq> bmapstart sbk" "ads ! NDIRECT \<noteq> of_nat b" if "ads ! NDIRECT \<noteq> 0"
    using fileokD(2,3) [OF f, of NDIRECT] that diskokD(5) [OF d] b(4) by (auto simp: slot_ind)
  consider "i < NDIRECT" | "i = NDIRECT" | "NDIRECT < i" by linarith
  then show ?thesis
  proof cases
    case 1
    then have a: "ads' = ads[i := of_nat b]" using r by (auto simp: alloc_slot_def Let_def)
    then have "ads' ! NDIRECT = ads ! NDIRECT" using 1 by simp
    moreover have "ads ! NDIRECT \<noteq> 0 \<Longrightarrow> B' (ads ! NDIRECT) = B (ads ! NDIRECT)" using bl(1) ni 1 by auto
    ultimately show ?thesis using 1 a len by (auto simp: aslot_def)
  next
    case 2
    then have a: "ads' = ads[i := of_nat b]" and z: "ads ! NDIRECT = 0" using r i(2) by (auto simp: alloc_slot_def Let_def slot_ind)
    then have "ads' ! NDIRECT = of_nat b" using 2 len by simp
    then show ?thesis using 2 a z len b(6) bl(3) by (auto simp: aslot_def get32_zero)
  next
    case 3
    then have a: "ads' = ads" using r by (auto simp: alloc_slot_def Let_def)
    have l: "4 * (k - NDIRECT - 1) + 4 \<le> length (B (ads ! NDIRECT))" if "k < NSLOT" "NDIRECT < k" for k
      using diskokD(1) [OF d] that by (simp add: BSIZE_def params)
    show ?thesis
    proof (cases "NDIRECT < j")
      case True
      then have "j \<noteq> i \<Longrightarrow> 4 * (j - NDIRECT - 1) + 4 \<le> 4 * (i - NDIRECT - 1) \<or> 4 * (i - NDIRECT - 1) + 4 \<le> 4 * (j - NDIRECT - 1)"
        using 3 by auto
      then show ?thesis
        using a ind [OF 3] bl(4) [OF 3] l [OF i(1) 3] l [OF j True] True 3
        by (auto simp: aslot_def get_put32 get_put32_other)
    next
      case False
      then show ?thesis using a 3 by (auto simp: aslot_def)
    qed
  qed
qed

lemma alloc_used:
  assumes c: "can_alloc sbk M B ads i b" and r: "alloc_slot sbk i b B ads = (B', ads')"
  shows "usedb sbk B' x \<longleftrightarrow> usedb sbk B x \<or> x = of_nat b"
proof -
  have d: "diskok sbk M B" and ff: "first_free sbk B = Some b" using c by (auto simp: can_alloc_def)
  note b = first_freeD [OF d ff] and bl = alloc_blocks [OF c r]
  have l: "8 * length (B (bmapstart sbk)) = BPB" using diskokD(1) [OF d] by (simp add: BSIZE_def BPB_def)
  have "x = of_nat b \<longleftrightarrow> unat x = b" using b(3) by auto
  then show ?thesis
    using b(1) l diskokD(3) [OF d] bit_free_set [of b "B (bmapstart sbk)" "unat x"] by (auto simp: usedb_def bl(2))
qed

lemma alloc_ok:
  assumes c: "can_alloc sbk M B ads i b" and r: "alloc_slot sbk i b B ads = (B', ads')"
  shows "diskok sbk M B'" "fileok sbk M B' ads'" "k < MAXFILE \<Longrightarrow> fblk B' ads' k = fblk B ads k"
proof -
  have d: "diskok sbk M B" and f: "fileok sbk M B ads" and ff: "first_free sbk B = Some b" and i: "i < NSLOT" "aslot B ads i = 0"
    and ind: "NDIRECT < i \<Longrightarrow> ads ! NDIRECT \<noteq> 0" using c by (auto simp: can_alloc_def)
  note b = first_freeD [OF d ff] and bl = alloc_blocks [OF c r] and len = fileokD(1) [OF f]
  note sl = alloc_slots [OF c r] and us = alloc_used [OF c r]
  have l: "4 * (i - NDIRECT - 1) + 4 \<le> length (B (ads ! NDIRECT))"
    using diskokD(1) [OF d] i(1) by (simp add: BSIZE_def params)
  have "length (B' x) = BSIZE" for x
    using bl(1) [of x] bl(2,3) bl(4) l diskokD(1) [OF d]
    by (cases "x = bmapstart sbk"; cases "x = of_nat b"; cases "NDIRECT < i \<and> x = ads ! NDIRECT") auto
  then show "diskok sbk M B'" using d us by (auto simp: diskok_def)
  have "length ads' = length ads" using r by (auto simp: alloc_slot_def Let_def split: if_splits)
  then show "fileok sbk M B' ads'"
    using f b(4,5,6) us sl len unfolding fileok_def by (auto split: if_splits)
  show "fblk B' ads' k = fblk B ads k" if "k < MAXFILE"
  proof (cases "fslot k = i")
    case True
    then show ?thesis using sl [of i] i b(6) bl(3) by (simp add: fblk_def)
  next
    case False
    let ?x = "aslot B ads (fslot k)"
    have "?x \<noteq> bmapstart sbk \<and> ?x \<noteq> of_nat b \<and> ?x \<noteq> ads ! NDIRECT" if "?x \<noteq> 0"
      using fileokD(2,3) [OF f fslot_less [OF \<open>k < MAXFILE\<close>] that] diskokD(5) [OF d] b(4)
        fileokD(4) [OF f fslot_less [OF \<open>k < MAXFILE\<close>], of NDIRECT] that by (auto simp: slot_ind)
    then show ?thesis using False sl [OF fslot_less [OF that]] bl(1) [of ?x] by (auto simp: fblk_def Let_def)
  qed
qed

section \<open>Storing into a block of a file\<close>

lemma store_ok:
  assumes d: "diskok sbk M B" and f: "fileok sbk M B ads" and k: "k < MAXFILE" and x: "x = aslot B ads (fslot k)" "x \<noteq> 0"
    and l: "length v = BSIZE"
  shows "diskok sbk M (B(x := v))" "fileok sbk M (B(x := v)) ads" "usedb sbk (B(x := v)) = usedb sbk B"
    "j < MAXFILE \<Longrightarrow> fblk (B(x := v)) ads j = (if j = k then v else fblk B ads j)"
proof -
  note s = fslot_less [OF k]
  have xm: "x \<noteq> bmapstart sbk" using fileokD(2) [OF f s] x diskokD(5) [OF d] by auto
  have xi: "x \<noteq> ads ! NDIRECT" using fileokD(4) [OF f s, of NDIRECT] x by (auto simp: slot_ind)
  have sl: "aslot (B(x := v)) ads = aslot B ads" using xi by (auto simp: aslot_def fun_eq_iff)
  show us: "usedb sbk (B(x := v)) = usedb sbk B" using xm by (auto simp: usedb_def fun_eq_iff)
  show "diskok sbk M (B(x := v))" using d l us by (auto simp: diskok_def)
  show "fileok sbk M (B(x := v)) ads" using f unfolding fileok_def sl us .
  show "fblk (B(x := v)) ads j = (if j = k then v else fblk B ads j)" if "j < MAXFILE"
  proof (cases "j = k")
    case False
    then have "aslot B ads (fslot j) \<noteq> x" using fileokD(4) [OF f s fslot_less [OF that]] x by auto
    then show ?thesis using False by (auto simp: fblk_def sl Let_def)
  qed (use x sl in \<open>simp add: fblk_def\<close>)
qed

text \<open>Blocks that belong to another file are not affected.\<close>

lemma fileok_other:
  assumes f: "fileok sbk M B ads2" and same: "\<And>i. i < NSLOT \<Longrightarrow> aslot B ads2 i \<noteq> 0 \<Longrightarrow> B' (aslot B ads2 i) = B (aslot B ads2 i)"
    and u: "\<And>x. usedb sbk B x \<Longrightarrow> usedb sbk B' x"
  shows "fileok sbk M B' ads2" "k < MAXFILE \<Longrightarrow> fblk B' ads2 k = fblk B ads2 k"
proof -
  have sl: "aslot B' ads2 j = aslot B ads2 j" for j
    using same [of NDIRECT] by (auto simp: aslot_def)
  show "fileok sbk M B' ads2" using f u unfolding fileok_def sl by auto
  show "k < MAXFILE \<Longrightarrow> fblk B' ads2 k = fblk B ads2 k"
    using same [OF fslot_less] by (auto simp: fblk_def sl Let_def)
qed

end
