(* ===== verification/Fs_File.thy ===== *)
theory Fs_File
  imports Fs_Map
begin

text \<open>
  Reading and writing files, \<open>bmap\<close>, \<open>readi\<close>, \<open>writei\<close> and \<open>iupdate\<close> of \<^verbatim>\<open>kernel/fs.c\<close>, as operations on the
  contents of a file: \<open>writei\<close> replaces a range of bytes, \<open>readi\<close> returns one, and no block of another file changes.
\<close>

section \<open>Operations on one file\<close>

definition own :: "(uint \<Rightarrow> byte list) \<Rightarrow> uint list \<Rightarrow> uint set" where
  "own B ads = {aslot B ads j |j. j < NSLOT \<and> aslot B ads j \<noteq> 0}"

text \<open>
  What an operation on a file leaves alone: used blocks stay used, slots keep their block, blocks of other files keep their
  contents, and the blocks that the file gains were free.
\<close>

definition keeps ::
  "superblock \<Rightarrow> (uint \<Rightarrow> byte list) \<Rightarrow> uint list \<Rightarrow> uint set \<Rightarrow> (uint \<Rightarrow> byte list) \<Rightarrow> uint list \<Rightarrow> bool" where
  "keeps sbk B ads X B' ads' \<longleftrightarrow>
     (\<forall>y. usedb sbk B y \<longrightarrow> usedb sbk B' y) \<and>
     (\<forall>j<NSLOT. aslot B ads j \<noteq> 0 \<longrightarrow> aslot B' ads' j = aslot B ads j) \<and>
     (\<forall>y. usedb sbk B y \<longrightarrow> y \<notin> X \<longrightarrow> y \<notin> own B ads \<longrightarrow> B' y = B y) \<and>
     (\<forall>y\<in>own B' ads'. y \<in> own B ads \<or> \<not> usedb sbk B y)"

lemma keeps_refl: "keeps sbk B ads X B ads"
  by (simp add: keeps_def)

lemma keeps_trans:
  assumes "keeps sbk B ads X B' ads'" and "keeps sbk B' ads' X B'' ads''"
  shows "keeps sbk B ads X B'' ads''"
  unfolding keeps_def
proof (intro conjI allI impI ballI)
  show "usedb sbk B'' y" if "usedb sbk B y" for y using assms that unfolding keeps_def by blast
  show "aslot B'' ads'' j = aslot B ads j" if "j < NSLOT" "aslot B ads j \<noteq> 0" for j
    using assms that unfolding keeps_def by metis
  show "B'' y = B y" if "usedb sbk B y" "y \<notin> X" "y \<notin> own B ads" for y
  proof -
    have "usedb sbk B' y" "B' y = B y" "y \<notin> own B' ads'" using assms(1) that unfolding keeps_def by blast+
    then show ?thesis using assms(2) that(2) unfolding keeps_def by metis
  qed
  show "y \<in> own B ads \<or> \<not> usedb sbk B y" if "y \<in> own B'' ads''" for y
    using assms that unfolding keeps_def by blast
qed

lemma own_alloc:
  assumes "can_alloc sbk M B ads i b" and "alloc_slot sbk i b B ads = (B', ads')"
  shows "own B' ads' = insert (of_nat b) (own B ads)"
proof -
  have i: "i < NSLOT" "aslot B ads i = 0" using assms(1) by (auto simp: can_alloc_def)
  have "(of_nat b :: uint) \<noteq> 0" using first_freeD(6) assms(1) unfolding can_alloc_def by blast
  then show ?thesis using alloc_slots [OF assms] i by (auto simp: own_def) metis+
qed

lemma alloc_keeps:
  assumes c: "can_alloc sbk M B ads i b" and r: "alloc_slot sbk i b B ads = (B', ads')" and X: "bmapstart sbk \<in> X"
  shows "keeps sbk B ads X B' ads'"
proof -
  have d: "diskok sbk M B" "first_free sbk B = Some b" and i: "i < NSLOT" "aslot B ads i = 0" "NDIRECT < i \<Longrightarrow> ads ! NDIRECT \<noteq> 0"
    using c by (auto simp: can_alloc_def)
  note b = first_freeD [OF d]
  have "ads ! NDIRECT \<in> own B ads" if "NDIRECT < i"
    using i(3) [OF that] by (auto simp: own_def slot_ind intro!: exI [of _ NDIRECT])
  then have "B' y = B y" if "usedb sbk B y" "y \<notin> X" "y \<notin> own B ads" for y
    using alloc_blocks(1) [OF c r, of y] that X b(4) by blast
  then show ?thesis
    using alloc_used [OF c r] alloc_slots [OF c r] own_alloc [OF c r] i(2) b(4) unfolding keeps_def by auto
qed

lemma store_keeps:
  assumes d: "diskok sbk M B" and f: "fileok sbk M B ads" and k: "k < MAXFILE" and x: "x = aslot B ads (fslot k)" "x \<noteq> 0"
    and l: "length v = BSIZE"
  shows "keeps sbk B ads X (B(x := v)) ads"
proof -
  note s = fslot_less [OF k]
  have "x \<noteq> ads ! NDIRECT" using fileokD(4) [OF f s, of NDIRECT] x by (auto simp: slot_ind)
  then have sl: "aslot (B(x := v)) ads = aslot B ads" by (auto simp: aslot_def fun_eq_iff)
  have "x \<in> own B ads" using x s by (auto simp: own_def)
  then show ?thesis using store_ok(3) [OF assms] sl by (auto simp: keeps_def own_def)
qed

section \<open>An inode in memory\<close>

abbreviation iads :: "nat \<Rightarrow> 'z fsst_scheme \<Rightarrow> uint list" where
  "iads ip s \<equiv> addrs (itable s ! ip)"

definition fok :: "uint \<Rightarrow> uint set \<Rightarrow> nat \<Rightarrow> 'z fsst_scheme \<Rightarrow> bool" where
  "fok dv M ip s \<longleftrightarrow> logok dv {} s \<and> 1 \<le> outstanding (log s) \<and> ip < length (itable s) \<and> idev (itable s ! ip) = dv \<and>
     diskok (sb s) M (blk dv s) \<and> fileok (sb s) M (blk dv s) (iads ip s) \<and> logarea (log s) \<subseteq> M \<and>
     bmapstart (sb s) \<notin> logarea (log s)"

text \<open>Changes to the inode table in a transaction.\<close>

definition fstep :: "'z fsst_scheme \<Rightarrow> 'z fsst_scheme \<Rightarrow> bool" where
  "fstep s s' \<longleftrightarrow> txstep (s\<lparr>itable := itable s'\<rparr>) s'"

lemma txstep_itable: "txstep s s' \<Longrightarrow> txstep (s\<lparr>itable := t\<rparr>) (s'\<lparr>itable := t\<rparr>)" for s :: "'z fsst_scheme"
  unfolding txstep_def [of s] by (elim exE, intro txstepI) simp

lemma txstep_fstep: "txstep s s' \<Longrightarrow> fstep s s'"
  using txstep_fs(2) [of s s'] unfolding fstep_def by simp

lemma fstep_itable: "fstep s (s\<lparr>itable := t\<rparr>)"
  by (simp add: fstep_def)

lemma fstep_trans:
  assumes "fstep s s'" and "fstep s' s''"
  shows "fstep s s''"
proof -
  have "txstep (s\<lparr>itable := itable s''\<rparr>) (s'\<lparr>itable := itable s''\<rparr>)"
    using txstep_itable [OF assms(1) [unfolded fstep_def], of "itable s''"] by simp
  then show ?thesis using txstep_trans assms(2) unfolding fstep_def by blast
qed

lemma fstep_same:
  assumes "fstep s s'"
  shows "logarea (log s') = logarea (log s)" "logcap (log s') = logcap (log s)" "disk s' = disk s"
    "outstanding (log s') = outstanding (log s)" "sb s' = sb s" "lsize (log s') = lsize (log s)"
  using txstep_same [OF assms [unfolded fstep_def]] txstep_fs(1) [OF assms [unfolded fstep_def]] by simp_all

lemma itable_simps [simp]:
  fixes s :: "'z fsst_scheme"
  shows "logok dv H (s\<lparr>itable := t\<rparr>) = logok dv H s" "blk dv (s\<lparr>itable := t\<rparr>) = blk dv s" "logged (s\<lparr>itable := t\<rparr>) = logged s"
proof -
  have m: "mypid (s\<lparr>itable := t\<rparr>) = mypid s" by (simp add: mypid_def myproc_def split: option.split)
  show "blk dv (s\<lparr>itable := t\<rparr>) = blk dv s" by (simp add: blk_def fun_eq_iff split: option.split)
  show "logged (s\<lparr>itable := t\<rparr>) = logged s" by (simp add: logged_def)
  show "logok dv H (s\<lparr>itable := t\<rparr>) = logok dv H s" by (simp add: logok_def Let_def bst_def m)
qed

text \<open>The free blocks.\<close>

definition nfree :: "superblock \<Rightarrow> (uint \<Rightarrow> byte list) \<Rightarrow> nat" where
  "nfree sbk B = card {b. b < unat (fssize sbk) \<and> bit_free (B (bmapstart sbk)) b}"

lemma first_free_exists: "0 < nfree sbk B \<Longrightarrow> \<exists>b. first_free sbk B = Some b"
proof (rule ccontr)
  assume n: "0 < nfree sbk B" "\<nexists>b. first_free sbk B = Some b"
  then have "find (bit_free (B (bmapstart sbk))) [0..<unat (fssize sbk)] = None" by (auto simp: first_free_def)
  then have e: "{b. b < unat (fssize sbk) \<and> bit_free (B (bmapstart sbk)) b} = {}" by (auto simp: find_None_iff)
  show False using n(1) by (simp only: nfree_def e card.empty)
qed

lemma nfree_alloc:
  assumes "can_alloc sbk M B ads i b" and "alloc_slot sbk i b B ads = (B', ads')"
  shows "Suc (nfree sbk B') = nfree sbk B"
proof -
  have d: "diskok sbk M B" "first_free sbk B = Some b" using assms(1) by (auto simp: can_alloc_def)
  note b = first_freeD [OF d]
  let ?F = "\<lambda>B. {b. b < unat (fssize sbk) \<and> bit_free (B (bmapstart sbk)) b}"
  have l: "8 * length (B (bmapstart sbk)) = BPB" using diskokD(1) [OF d(1)] by (simp add: BSIZE_def BPB_def)
  have "?F B' = ?F B - {b}"
    using bit_free_set [of b "B (bmapstart sbk)"] alloc_blocks(2) [OF assms] b(1) l diskokD(3) [OF d(1)] by auto
  moreover have "b \<in> ?F B" "finite (?F B)" using b by auto
  ultimately show ?thesis unfolding nfree_def using card_Suc_Diff1 [of "?F B" b] by simp
qed


lemma fokD:
  assumes "fok dv M ip s"
  shows "logok dv {} s" "1 \<le> outstanding (log s)" "ip < length (itable s)" "idev (itable s ! ip) = dv"
    "diskok (sb s) M (blk dv s)" "fileok (sb s) M (blk dv s) (iads ip s)" "logarea (log s) \<subseteq> M"
    "bmapstart (sb s) \<notin> logarea (log s)"
  using assms by (simp_all add: fok_def)

text \<open>What an operation on the file at \<open>ip\<close> does to the state.\<close>

definition fop :: "uint \<Rightarrow> uint set \<Rightarrow> nat \<Rightarrow> 'z fsst_scheme \<Rightarrow> 'z fsst_scheme \<Rightarrow> bool" where
  "fop dv M ip s s' \<longleftrightarrow> fok dv M ip s' \<and> fstep s s' \<and>
     itable s' = (itable s)[ip := (itable s ! ip)\<lparr>addrs := iads ip s'\<rparr>] \<and>
     keeps (sb s) (blk dv s) (iads ip s) {bmapstart (sb s)} (blk dv s') (iads ip s')"

lemma fopD:
  assumes "fop dv M ip s s'"
  shows "fok dv M ip s'" "sb s' = sb s" "logcap (log s') = logcap (log s)" "logarea (log s') = logarea (log s)"
    "itable s' = (itable s)[ip := (itable s ! ip)\<lparr>addrs := iads ip s'\<rparr>]"
    "keeps (sb s) (blk dv s) (iads ip s) {bmapstart (sb s)} (blk dv s') (iads ip s')" "disk s' = disk s"
proof -
  have f: "fstep s s'" using assms by (simp add: fop_def)
  show "sb s' = sb s" "logcap (log s') = logcap (log s)" "logarea (log s') = logarea (log s)" "disk s' = disk s"
    using fstep_same [OF f] by simp_all
qed (use assms in \<open>simp_all add: fop_def\<close>)

lemma fop_trans:
  assumes "fop dv M ip s s'" and "fop dv M ip s' s''"
  shows "fop dv M ip s s''"
proof -
  define a a' where "a = iads ip s'" and "a' = iads ip s''"
  have i1: "itable s' = (itable s)[ip := (itable s ! ip)\<lparr>addrs := a\<rparr>]" and i2: "itable s'' = (itable s')[ip := (itable s' ! ip)\<lparr>addrs := a'\<rparr>]"
    using assms by (simp_all add: fop_def a_def a'_def)
  have "ip < length (itable s')" using assms(1) by (simp add: fop_def fok_def)
  then have "ip < length (itable s)" unfolding i1 by simp
  then have "itable s'' = (itable s)[ip := (itable s ! ip)\<lparr>addrs := a'\<rparr>]" unfolding i2 i1 by simp
  moreover have f: "fstep s s'" "fstep s' s''" using assms by (simp_all add: fop_def)
  moreover have "keeps (sb s) (blk dv s) (iads ip s) {bmapstart (sb s)} (blk dv s'') (iads ip s'')"
    by (rule keeps_trans [of _ _ _ _ "blk dv s'" "iads ip s'"]) (use assms fstep_same(5) [OF f(1)] in \<open>simp_all add: fop_def\<close>)
  ultimately show ?thesis using assms(2) fstep_trans [OF f] by (simp add: fop_def a'_def)
qed

text \<open>Allocating a block for a direct slot or for the indirect block.\<close>

lemma alloc_direct:
  assumes ok: "fok dv M ip s" and i: "i \<le> NDIRECT" "iads ip s ! i = 0" and free: "0 < nfree (sb s) (blk dv s)"
    and room: "card (insert (bmapstart (sb s)) (logged s)) < logcap (log s)"
  shows "\<exists>b s1 s'. balloc dv s = Ok (of_nat b, s1) \<and> s' = upd_inode ip (\<lambda>x. x\<lparr>addrs := (addrs x)[i := of_nat b]\<rparr>) s1 \<and>
    fop dv M ip s s' \<and> logged s' = {of_nat b, bmapstart (sb s)} \<union> logged s \<and>
    can_alloc (sb s) M (blk dv s) (iads ip s) i b \<and>
    alloc_slot (sb s) i b (blk dv s) (iads ip s) = (blk dv s', iads ip s')"
proof -
  note F = fokD [OF ok]
  obtain b where b: "first_free (sb s) (blk dv s) = Some b" using first_free_exists [OF free] by blast
  note fb = first_freeD [OF F(5) b]
  have i': "i < NSLOT" using i by simp
  have c: "can_alloc (sb s) M (blk dv s) (iads ip s) i b"
    using F(5,6) b i i' by (simp add: can_alloc_def aslot_def)
  obtain s1 where 1: "balloc dv s = Ok (of_nat b, s1)" "logok dv {} s1" "txstep s s1"
    "blk dv s1 = take_blk (sb s) b (blk dv s)" "logged s1 = insert (of_nat b) (insert (bmapstart (sb s)) (logged s))"
    using balloc_ok [OF F(1) _ diskokD(2,3) [OF F(5)] b] F(2,7,8) fb(5) room by auto
  define s' where "s' = upd_inode ip (\<lambda>x. x\<lparr>addrs := (addrs x)[i := of_nat b]\<rparr>) s1"
  have t: "itable s1 = itable s" "sb s1 = sb s" using txstep_fs [OF 1(3)] by auto
  have a: "iads ip s' = (iads ip s)[i := of_nat b]" using F(3) t by (simp add: s'_def)
  have al: "alloc_slot (sb s) i b (blk dv s) (iads ip s) = (blk dv s', iads ip s')"
    using a i(1) 1(4) by (simp add: alloc_slot_def s'_def)
  have fs: "fstep s s'" using fstep_trans [OF txstep_fstep [OF 1(3)] fstep_itable] by (simp add: s'_def)
  note S = fstep_same [OF fs]
  have "fok dv M ip s'"
    using F(2,3,4,7,8) S 1(2) t alloc_ok(1,2) [OF c al] unfolding fok_def by (simp add: s'_def)
  moreover have "itable s' = (itable s)[ip := (itable s ! ip)\<lparr>addrs := iads ip s'\<rparr>]"
    unfolding a using t by (simp add: s'_def)
  moreover have "keeps (sb s) (blk dv s) (iads ip s) {bmapstart (sb s)} (blk dv s') (iads ip s')"
    by (rule alloc_keeps [OF c al]) simp
  ultimately show ?thesis using 1(1,5) c al fs
    by (intro exI [of _ b] exI [of _ s1] exI [of _ s']) (auto simp: fop_def s'_def)
qed


section \<open>Block addresses\<close>

text \<open>The last part of \<open>bmap\<close>: the address in entry \<open>j\<close> of the indirect block \<open>ind\<close>, allocated if there is none.\<close>

definition bmap_entry :: "uint \<Rightarrow> uint \<Rightarrow> nat \<Rightarrow> 'z fsst_scheme \<Rightarrow> (uint \<times> 'z fsst_scheme) res" where
  "bmap_entry dv ind j s =
     bindR (bread dv ind s) (\<lambda>(bp, s).
     let addr = get32 (data (bufs s ! bp)) (4 * j)
     in if addr = 0
        then bindR (balloc dv s) (\<lambda>(addr, s).
             bindR (log_write bp (set_data bp (put32 (4 * j) addr (data (bufs s ! bp))) s)) (\<lambda>s.
             bindR (brelse bp s) (\<lambda>s. Ok (addr, s))))
        else bindR (brelse bp s) (\<lambda>s. Ok (addr, s)))"

lemma bmap_split:
  "bmap ip bn s =
     (if bn < NDIRECT
      then if iads ip s ! bn = 0
           then bindR (balloc (idev (itable s ! ip)) s) (\<lambda>(addr, s).
             Ok (addr, upd_inode ip (\<lambda>x. x\<lparr>addrs := (addrs x)[bn := addr]\<rparr>) s))
           else Ok (iads ip s ! bn, s)
      else if bn - NDIRECT < NINDIRECT
      then bindR (if iads ip s ! NDIRECT = 0
                  then bindR (balloc (idev (itable s ! ip)) s) (\<lambda>(addr, s).
                    Ok (addr, upd_inode ip (\<lambda>x. x\<lparr>addrs := (addrs x)[NDIRECT := addr]\<rparr>) s))
                  else Ok (iads ip s ! NDIRECT, s))
             (\<lambda>(addr, s'). bmap_entry (idev (itable s ! ip)) addr (bn - NDIRECT) s')
      else Panic ''bmap: out of range'')"
  unfolding bmap_def bmap_entry_def Let_def by (rule refl)

lemma fop_tx:
  assumes ok: "fok dv M ip s" and t: "txstep s s'" and l: "logok dv {} s'" and b: "blk dv s' = blk dv s"
  shows "fop dv M ip s s'"
proof -
  note S = txstep_same [OF t] txstep_fs [OF t]
  have "fok dv M ip s'" using fokD [OF ok] S l b by (simp add: fok_def)
  then show ?thesis using txstep_fstep [OF t] S b by (simp add: fop_def keeps_refl)
qed

lemma bmap_entry_ok:
  assumes ok: "fok dv M ip s" and ind: "ind = iads ip s ! NDIRECT" "ind \<noteq> 0" and j: "j < NINDIRECT"
    and free: "0 < nfree (sb s) (blk dv s)"
    and room: "card (insert (bmapstart (sb s)) (logged s)) + 1 < logcap (log s)"
  shows "\<exists>x s'. bmap_entry dv ind j s = Ok (x, s') \<and> fop dv M ip s s' \<and> iads ip s' = iads ip s \<and>
    x = aslot (blk dv s') (iads ip s) (Suc (NDIRECT + j)) \<and> x \<noteq> 0 \<and>
    (\<forall>k<MAXFILE. fblk (blk dv s') (iads ip s) k = fblk (blk dv s) (iads ip s) k) \<and>
    logged s' \<subseteq> {x, bmapstart (sb s), ind} \<union> logged s \<and> nfree (sb s) (blk dv s) \<le> Suc (nfree (sb s) (blk dv s'))"
proof -
  note F = fokD [OF ok]
  let ?i = "Suc (NDIRECT + j)"
  have i: "?i < NSLOT" using j by simp
  have sl: "aslot (blk dv s) (iads ip s) ?i = get32 (blk dv s ind) (4 * j)" using ind by (simp add: aslot_def)
  have c0: "card (logged s) \<le> card (insert (bmapstart (sb s)) (logged s))" by (rule card_insert_le)
  have im: "ind \<notin> M" "usedb (sb s) (blk dv s) ind" using fileokD(2,3) [OF F(6), of NDIRECT] ind by (auto simp: slot_ind)
  obtain bp s1 where 1: "bread dv ind s = Ok (bp, s1)" "logok dv {ind} s1" "txstep s s1" "isbuf dv (bufs s1) ind bp"
    "data (bufs s1 ! bp) = blk dv s ind" "blk dv s1 = blk dv s" "logged s1 = logged s" "clean dv s1 ind"
    using tx_bread [OF F(1), of ind] room c0 logcap_30 [of "log s"] by auto
  note S1 = txstep_same [OF 1(3)] txstep_fs [OF 1(3)]
  show ?thesis
  proof (cases "get32 (blk dv s ind) (4 * j) = 0")
    case False
    obtain s2 where 2: "brelse bp s1 = Ok s2" "logok dv {} s2" "txstep s1 s2" "blk dv s2 = blk dv s1" "logged s2 = logged s1"
      using tx_brelse [OF 1(2) _ 1(4,8)] by auto
    have "fop dv M ip s s2" by (rule fop_tx [OF ok txstep_trans [OF 1(3) 2(3)] 2(2)]) (simp add: 2(4) 1(6))
    moreover have "iads ip s2 = iads ip s" using txstep_fs(2) [OF 2(3)] S1(8) by simp
    moreover have "bmap_entry dv ind j s = Ok (get32 (blk dv s ind) (4 * j), s2)"
      using 1(1,5) 2(1) False by (simp add: bmap_entry_def)
    ultimately show ?thesis using False sl 1(6,7) 2(4,5)
      by (intro exI [of _ "get32 (blk dv s ind) (4 * j)"] exI [of _ s2]) auto
  next
    case True
    obtain b where b: "first_free (sb s) (blk dv s) = Some b" using first_free_exists [OF free] by blast
    note fb = first_freeD [OF F(5) b]
    have c: "can_alloc (sb s) M (blk dv s) (iads ip s) ?i b" using F(5,6) b i ind sl True by (simp add: can_alloc_def)
    have nb: "of_nat b \<noteq> ind" "bmapstart (sb s) \<noteq> ind" using im fb(4) diskokD(5) [OF F(5)] by auto
    obtain s2 where 2: "balloc dv s1 = Ok (of_nat b, s2)" "logok dv {ind} s2" "txstep s1 s2"
      "blk dv s2 = take_blk (sb s) b (blk dv s)" "logged s2 = insert (of_nat b) (insert (bmapstart (sb s)) (logged s))"
      "isbuf dv (bufs s2) ind bp"
      using balloc_ok [OF 1(2), of b] S1 F(2,7,8) fb(5) diskokD(2,3) [OF F(5)] b room nb 1(4,6,7) by auto
    note S2 = txstep_same [OF 2(3)] txstep_fs [OF 2(3)]
    have iu: "blk dv s2 ind = blk dv s ind" using 2(4) nb by (simp add: take_blk_def)
    obtain pd where "mypid s2 = Ok pd" using bst_pid [OF txD(1) [OF 2(2)]] by blast
    then have dt: "data (bufs s2 ! bp) = blk dv s ind" using heldD(7) [OF txD(1) [OF 2(2)] _ 2(6)] iu by auto
    let ?v = "put32 (4 * j) (of_nat b) (blk dv s ind)"
    have lv: "length ?v = BSIZE" using diskokD(1) [OF F(5)] j by (simp add: BSIZE_def params)
    have cs: "card (logged s2) < logcap (log s2)"
      using 2(5) room S1(2) S2(2) card_insert_le_m1 [of "card (insert (bmapstart (sb s)) (logged s)) + 1"
        "insert (bmapstart (sb s)) (logged s)" "of_nat b"] by simp
    obtain s3 where 3: "log_write bp (set_data bp ?v s2) = Ok s3" "logok dv {ind} s3" "txstep s2 s3"
      "isbuf dv (bufs s3) = isbuf dv (bufs s2)" "blk dv s3 = (blk dv s2)(ind := ?v)" "logged s3 = insert ind (logged s2)"
      "clean dv s3 ind"
      using tx_write [OF 2(2) _ 2(6) lv cs] im(1) F(2,7) S1(1,5) S2(1,5) by auto
    obtain s4 where 4: "brelse bp s3 = Ok s4" "logok dv {} s4" "txstep s3 s4" "blk dv s4 = blk dv s3" "logged s4 = logged s3"
      using tx_brelse [OF 3(2) _ _ 3(7), of bp] 2(6) 3(4) by auto
    have t: "txstep s s4" using txstep_trans [OF txstep_trans [OF txstep_trans [OF 1(3) 2(3)] 3(3)] 4(3)] .
    note S4 = txstep_same [OF t] txstep_fs [OF t]
    have B: "blk dv s4 = (take_blk (sb s) b (blk dv s))(ind := ?v)" by (simp add: 4(4) 3(5) 2(4))
    have al: "alloc_slot (sb s) ?i b (blk dv s) (iads ip s) = (blk dv s4, iads ip s)"
      unfolding alloc_slot_def Let_def B using ind iu 2(4) by simp
    have "fok dv M ip s4" using F(2,3,4,7,8) S4 4(2) alloc_ok(1,2) [OF c al] unfolding fok_def by simp
    then have "fop dv M ip s s4"
      using S4(8) txstep_fstep [OF t] alloc_keeps [OF c al, of "{bmapstart (sb s)}"] by (simp add: fop_def)
    moreover have "bmap_entry dv ind j s = Ok (of_nat b, s4)"
      using 1(1,5) True 2(1) dt 3(1) 4(1) by (simp add: bmap_entry_def)
    moreover have "aslot (blk dv s4) (iads ip s) ?i = of_nat b" using alloc_slots [OF c al i] by simp
    moreover have "Suc (nfree (sb s) (blk dv s4)) = nfree (sb s) (blk dv s)" by (rule nfree_alloc [OF c al])
    ultimately show ?thesis using fb(6) S4(8) alloc_ok(3) [OF c al] 2(5) 3(6) 4(5)
      by (intro exI [of _ "of_nat b"] exI [of _ s4]) auto
  qed
qed


text \<open>
  The log space that an operation on the file needs besides the data blocks: a block of the bitmap, and the
  indirect block, which may not exist yet.
\<close>

definition noind :: "nat \<Rightarrow> 'z fsst_scheme \<Rightarrow> nat" where
  "noind ip s = (if iads ip s ! NDIRECT = 0 then 1 else 0)"

definition logset :: "nat \<Rightarrow> 'z fsst_scheme \<Rightarrow> uint set" where
  "logset ip s = logged s \<union> {bmapstart (sb s)} \<union> (if iads ip s ! NDIRECT = 0 then {} else {iads ip s ! NDIRECT})"

definition lneed :: "nat \<Rightarrow> 'z fsst_scheme \<Rightarrow> nat" where
  "lneed ip s = card (logset ip s) + noind ip s"

lemma finite_logged: "finite (logged s)"
  by (simp add: logged_def)

lemma finite_logset: "finite (logset ip s)"
  by (simp add: logset_def finite_logged)

lemma card_insert_Suc: "finite A \<Longrightarrow> card (insert x A) \<le> Suc (card A)"
  by (simp add: card_insert_if)

lemma lneed_logged: "card (insert (bmapstart (sb s)) (logged s)) + noind ip s \<le> lneed ip s"
  unfolding lneed_def by (intro add_right_mono card_mono finite_logset) (auto simp: logset_def)

text \<open>The part of \<open>bmap\<close> that finds the indirect block.\<close>

lemma bmap_ind_ok:
  assumes ok: "fok dv M ip s" and free: "noind ip s \<le> nfree (sb s) (blk dv s)" and room: "lneed ip s < logcap (log s)"
  shows "\<exists>s1. (if iads ip s ! NDIRECT = 0
                 then bindR (balloc (idev (itable s ! ip)) s) (\<lambda>(addr, s).
                   Ok (addr, upd_inode ip (\<lambda>x. x\<lparr>addrs := (addrs x)[NDIRECT := addr]\<rparr>) s))
                 else Ok (iads ip s ! NDIRECT, s)) = Ok (iads ip s1 ! NDIRECT, s1) \<and>
    fop dv M ip s s1 \<and> iads ip s1 ! NDIRECT \<noteq> 0 \<and>
    (\<forall>k<MAXFILE. fblk (blk dv s1) (iads ip s1) k = fblk (blk dv s) (iads ip s) k) \<and>
    card (logset ip s1) \<le> lneed ip s \<and> nfree (sb s) (blk dv s) \<le> nfree (sb s) (blk dv s1) + noind ip s"
proof (cases "iads ip s ! NDIRECT = 0")
  case False
  have "fop dv M ip s s" by (rule fop_tx [OF ok]) (use fokD(1) [OF ok] in simp_all)
  then show ?thesis using False by (intro exI [of _ s]) (simp add: lneed_def)
next
  case True
  then have n: "noind ip s = 1" by (simp add: noind_def)
  have r: "card (insert (bmapstart (sb s)) (logged s)) < logcap (log s)" using room lneed_logged [where s = s and ip = ip] by simp
  obtain b s1 s' where a: "balloc dv s = Ok (of_nat b, s1)" "s' = upd_inode ip (\<lambda>x. x\<lparr>addrs := (addrs x)[NDIRECT := of_nat b]\<rparr>) s1"
    "fop dv M ip s s'" "logged s' = {of_nat b, bmapstart (sb s)} \<union> logged s"
    "can_alloc (sb s) M (blk dv s) (iads ip s) NDIRECT b"
    "alloc_slot (sb s) NDIRECT b (blk dv s) (iads ip s) = (blk dv s', iads ip s')"
    using alloc_direct [OF ok order_refl True _ r] free n by auto
  have i: "iads ip s' ! NDIRECT = of_nat b" using alloc_slots [OF a(5,6), of NDIRECT] by (simp add: slot_ind)
  have nz: "(of_nat b :: uint) \<noteq> 0" using first_freeD(6) a(5) unfolding can_alloc_def by blast
  have "logset ip s' = insert (of_nat b) (insert (bmapstart (sb s)) (logged s))"
    using a(4) i nz fopD(2) [OF a(3)] by (auto simp: logset_def)
  then have "card (logset ip s') \<le> Suc (card (insert (bmapstart (sb s)) (logged s)))"
    using card_insert_Suc [of "insert (bmapstart (sb s)) (logged s)" "of_nat b"] finite_logged by simp
  then have "card (logset ip s') \<le> lneed ip s" using lneed_logged [where s = s and ip = ip] n by simp
  moreover have "idev (itable s ! ip) = dv" using fokD(4) [OF ok] .
  moreover have "Suc (nfree (sb s) (blk dv s')) = nfree (sb s) (blk dv s)" by (rule nfree_alloc [OF a(5,6)])
  ultimately show ?thesis using True a(1,2,3) i nz n alloc_ok(3) [OF a(5,6)]
    by (intro exI [of _ s']) auto
qed

lemma bmap_ok:
  assumes ok: "fok dv M ip s" and k: "k < MAXFILE" and free: "noind ip s + 1 \<le> nfree (sb s) (blk dv s)"
    and room: "lneed ip s + 1 < logcap (log s)"
  shows "\<exists>x s'. bmap ip k s = Ok (x, s') \<and> fop dv M ip s s' \<and> x = aslot (blk dv s') (iads ip s') (fslot k) \<and> x \<noteq> 0 \<and>
    (\<forall>j<MAXFILE. fblk (blk dv s') (iads ip s') j = fblk (blk dv s) (iads ip s) j) \<and>
    card (insert x (logset ip s')) + noind ip s' \<le> lneed ip s + 1 \<and>
    nfree (sb s) (blk dv s) + noind ip s' \<le> nfree (sb s) (blk dv s') + noind ip s + 1"
proof (cases "k < NDIRECT")
  case True
  note F = fokD [OF ok]
  have fk: "fslot k = k" using True by (simp add: fslot_def)
  show ?thesis
  proof (cases "iads ip s ! k = 0")
    case False
    have "fop dv M ip s s" by (rule fop_tx [OF ok]) (use F(1) in simp_all)
    moreover have "card (insert (iads ip s ! k) (logset ip s)) \<le> Suc (card (logset ip s))" by (rule card_insert_Suc [OF finite_logset])
    ultimately show ?thesis using True False fk
      by (intro exI [of _ "iads ip s ! k"] exI [of _ s]) (simp add: bmap_split aslot_def lneed_def)
  next
    case z: True
    have r: "card (insert (bmapstart (sb s)) (logged s)) < logcap (log s)" using room lneed_logged [where s = s and ip = ip] by simp
    obtain b s1 s' where a: "balloc dv s = Ok (of_nat b, s1)" "s' = upd_inode ip (\<lambda>x. x\<lparr>addrs := (addrs x)[k := of_nat b]\<rparr>) s1"
      "fop dv M ip s s'" "logged s' = {of_nat b, bmapstart (sb s)} \<union> logged s"
      "can_alloc (sb s) M (blk dv s) (iads ip s) k b"
      "alloc_slot (sb s) k b (blk dv s) (iads ip s) = (blk dv s', iads ip s')"
      using alloc_direct [OF ok _ z _ r] free True by auto
    have nz: "(of_nat b :: uint) \<noteq> 0" using first_freeD(6) a(5) unfolding can_alloc_def by blast
    have i: "iads ip s' ! NDIRECT = iads ip s ! NDIRECT" using alloc_slots [OF a(5,6), of NDIRECT] True by (simp add: slot_ind)
    have "insert (of_nat b) (logset ip s') = insert (of_nat b) (logset ip s)"
      using a(4) i fopD(2) [OF a(3)] by (auto simp: logset_def)
    then have "card (insert (of_nat b) (logset ip s')) \<le> Suc (card (logset ip s))"
      using card_insert_Suc [OF finite_logset, of "of_nat b" ip s] by simp
    moreover have "noind ip s' = noind ip s" using i by (simp add: noind_def)
    moreover have "bmap ip k s = Ok (of_nat b, s')" using True z a(1,2) F(4) by (simp add: bmap_split)
    moreover have "aslot (blk dv s') (iads ip s') k = of_nat b" using alloc_slots [OF a(5,6), of k] True by simp
    moreover have "Suc (nfree (sb s) (blk dv s')) = nfree (sb s) (blk dv s)" by (rule nfree_alloc [OF a(5,6)])
    ultimately show ?thesis using a(3) nz fk alloc_ok(3) [OF a(5,6)]
      by (intro exI [of _ "of_nat b"] exI [of _ s']) (simp add: lneed_def)
  qed
next
  case False
  note F = fokD [OF ok]
  let ?j = "k - NDIRECT"
  have j: "?j < NINDIRECT" using k False by (simp add: MAXFILE_def)
  have fk: "fslot k = Suc (NDIRECT + ?j)" using False by (simp add: fslot_def)
  obtain s1 where 1: "(if iads ip s ! NDIRECT = 0
                 then bindR (balloc (idev (itable s ! ip)) s) (\<lambda>(addr, s).
                   Ok (addr, upd_inode ip (\<lambda>x. x\<lparr>addrs := (addrs x)[NDIRECT := addr]\<rparr>) s))
                 else Ok (iads ip s ! NDIRECT, s)) = Ok (iads ip s1 ! NDIRECT, s1)"
    "fop dv M ip s s1" "iads ip s1 ! NDIRECT \<noteq> 0"
    "\<forall>k<MAXFILE. fblk (blk dv s1) (iads ip s1) k = fblk (blk dv s) (iads ip s) k"
    "card (logset ip s1) \<le> lneed ip s" "nfree (sb s) (blk dv s) \<le> nfree (sb s) (blk dv s1) + noind ip s"
    using bmap_ind_ok [OF ok] free room by auto
  have ok1: "fok dv M ip s1" and sb1: "sb s1 = sb s" and cap: "logcap (log s1) = logcap (log s)"
    using 1(2) fstep_same by (auto simp: fop_def)
  have "card (insert (bmapstart (sb s1)) (logged s1)) \<le> card (logset ip s1)"
    by (intro card_mono finite_logset) (auto simp: logset_def)
  then have r: "card (insert (bmapstart (sb s1)) (logged s1)) + 1 < logcap (log s1)" using 1(5) room cap by simp
  obtain x s2 where 2: "bmap_entry dv (iads ip s1 ! NDIRECT) ?j s1 = Ok (x, s2)" "fop dv M ip s1 s2" "iads ip s2 = iads ip s1"
    "x = aslot (blk dv s2) (iads ip s1) (Suc (NDIRECT + ?j))" "x \<noteq> 0"
    "\<forall>k<MAXFILE. fblk (blk dv s2) (iads ip s1) k = fblk (blk dv s1) (iads ip s1) k"
    "logged s2 \<subseteq> {x, bmapstart (sb s1), iads ip s1 ! NDIRECT} \<union> logged s1"
    "nfree (sb s1) (blk dv s1) \<le> Suc (nfree (sb s1) (blk dv s2))"
    using bmap_entry_ok [OF ok1 refl 1(3) j _ r] free 1(6) sb1 by auto
  have n2: "noind ip s2 = 0" using 2(3) 1(3) by (simp add: noind_def)
  have sb2: "sb s2 = sb s1" using 2(2) fstep_same(5) by (auto simp: fop_def)
  have "insert x (logset ip s2) \<subseteq> insert x (logset ip s1)" using 2(3,7) 1(3) sb2 by (auto simp: logset_def)
  then have "card (insert x (logset ip s2)) \<le> card (insert x (logset ip s1))"
    by (intro card_mono) (simp_all add: finite_logset)
  then have "card (insert x (logset ip s2)) \<le> lneed ip s + 1"
    using card_insert_Suc [OF finite_logset, of x ip s1] 1(5) by linarith
  moreover have "bmap ip k s = Ok (x, s2)" using False j 1(1) 2(1) F(4) by (simp add: bmap_split)
  ultimately show ?thesis using fop_trans [OF 1(2) 2(2)] 2 1(4,6) fk n2 sb1
    by (intro exI [of _ x] exI [of _ s2]) simp
qed


section \<open>Writing\<close>

lemma file_store:
  assumes ok: "fok dv M ip s" and k: "k < MAXFILE" and x: "x = aslot (blk dv s) (iads ip s) (fslot k)" "x \<noteq> 0"
    and room: "card (logged s) < logcap (log s)"
  shows "\<exists>bp s1. bread dv x s = Ok (bp, s1) \<and> data (bufs s1 ! bp) = blk dv s x \<and> itable s1 = itable s \<and>
    (\<forall>v. length v = BSIZE \<longrightarrow> (\<exists>s2 s3. log_write bp (set_data bp v s1) = Ok s2 \<and> brelse bp s2 = Ok s3 \<and>
      fop dv M ip s s3 \<and> iads ip s3 = iads ip s \<and> blk dv s3 = (blk dv s)(x := v) \<and> logged s3 = insert x (logged s)))"
proof -
  note F = fokD [OF ok]
  have xm: "x \<notin> M" using fileokD(2) [OF F(6) fslot_less [OF k]] x by auto
  obtain bp s1 where 1: "bread dv x s = Ok (bp, s1)" "logok dv {x} s1" "txstep s s1" "isbuf dv (bufs s1) x bp"
    "data (bufs s1 ! bp) = blk dv s x" "blk dv s1 = blk dv s" "logged s1 = logged s"
    using tx_bread [OF F(1), of x] room logcap_30 [of "log s"] by auto
  note S1 = txstep_same [OF 1(3)] txstep_fs [OF 1(3)]
  have "\<exists>s2 s3. log_write bp (set_data bp v s1) = Ok s2 \<and> brelse bp s2 = Ok s3 \<and> fop dv M ip s s3 \<and> iads ip s3 = iads ip s \<and>
      blk dv s3 = (blk dv s)(x := v) \<and> logged s3 = insert x (logged s)" if v: "length v = BSIZE" for v
  proof -
    obtain s2 where 2: "log_write bp (set_data bp v s1) = Ok s2" "logok dv {x} s2" "txstep s1 s2"
      "isbuf dv (bufs s2) = isbuf dv (bufs s1)" "blk dv s2 = (blk dv s)(x := v)" "logged s2 = insert x (logged s)"
      "clean dv s2 x"
      using tx_write [OF 1(2) _ 1(4) v] room xm F(2,7) S1 1(6,7) by auto
    obtain s3 where 3: "brelse bp s2 = Ok s3" "logok dv {} s3" "txstep s2 s3" "blk dv s3 = blk dv s2" "logged s3 = logged s2"
      using tx_brelse [OF 2(2) _ _ 2(7), of bp] 1(4) 2(4) by auto
    have t: "txstep s s3" using txstep_trans [OF txstep_trans [OF 1(3) 2(3)] 3(3)] .
    note S3 = txstep_same [OF t] txstep_fs [OF t]
    have B: "blk dv s3 = (blk dv s)(x := v)" by (simp add: 3(4) 2(5))
    have "fok dv M ip s3"
      using F S3 3(2) store_ok(1,2) [OF F(5,6) k x v] by (simp add: fok_def B)
    then have "fop dv M ip s s3"
      using S3(8) txstep_fstep [OF t] store_keeps [OF F(5,6) k x v] by (simp add: fop_def B)
    then show ?thesis using 2(1,6) 3(1,5) B S3(8) by auto
  qed
  then show ?thesis using 1(1,5) S1(8) by blast
qed

text \<open>Byte \<open>p\<close> of the file.\<close>

definition fbyte :: "uint \<Rightarrow> nat \<Rightarrow> 'z fsst_scheme \<Rightarrow> nat \<Rightarrow> byte" where
  "fbyte dv ip s p = fblk (blk dv s) (iads ip s) (p div BSIZE) ! (p mod BSIZE)"

lemma nth_poke:
  "off + length bs \<le> length d \<Longrightarrow> i < length d \<Longrightarrow>
   poke off bs d ! i = (if off \<le> i \<and> i < off + length bs then bs ! (i - off) else d ! i)"
  by (auto simp: poke_def nth_append)

lemma BSIZE_pos [simp]: "0 < BSIZE" "BSIZE \<noteq> 0"
  by (simp_all add: BSIZE_def)

text \<open>The number of blocks that a range of bytes touches.\<close>

definition nblk :: "nat \<Rightarrow> nat \<Rightarrow> nat" where
  "nblk off k = (if k = 0 then 0 else (off + k - 1) div BSIZE - off div BSIZE + 1)"

lemma nblk_step:
  assumes "0 < k" and m: "m = min k (BSIZE - off mod BSIZE)"
  shows "Suc (nblk (off + m) (k - m)) = nblk off k"
proof (cases "k \<le> BSIZE - off mod BSIZE")
  case True
  have "BSIZE * (off div BSIZE) + off mod BSIZE = off" by simp
  then have e: "off + k - 1 = BSIZE * (off div BSIZE) + (off mod BSIZE + k - 1)" using assms(1) by linarith
  have "off mod BSIZE < BSIZE" by simp
  then have "off mod BSIZE + k - 1 < BSIZE" using True assms(1) by linarith
  then have "(off + k - 1) div BSIZE = off div BSIZE" unfolding e by simp
  then show ?thesis using True assms by (simp add: nblk_def)
next
  case False
  then have mm: "m = BSIZE - off mod BSIZE" using m by simp
  have "BSIZE * (off div BSIZE) + off mod BSIZE = off" "off mod BSIZE < BSIZE" by simp_all
  then have "off + m = BSIZE * Suc (off div BSIZE)" using mm mult_Suc_right [of BSIZE "off div BSIZE"] by linarith
  then have d: "(off + m) div BSIZE = Suc (off div BSIZE)" by simp
  have "off + m \<le> off + k - 1" using False mm by simp
  then have "(off + m) div BSIZE \<le> (off + k - 1) div BSIZE" by (rule div_le_mono)
  moreover have "k - m \<noteq> 0" "off + m + (k - m) - 1 = off + k - 1" using False mm by linarith+
  ultimately show ?thesis using d assms(1) unfolding nblk_def by simp
qed

lemma mod_room: "off mod BSIZE + min k (BSIZE - off mod BSIZE) \<le> BSIZE"
proof -
  have "off mod BSIZE < BSIZE" by simp
  moreover have "min k (BSIZE - off mod BSIZE) \<le> BSIZE - off mod BSIZE" by simp
  ultimately show ?thesis by linarith
qed


lemma fbyte_store:
  assumes m: "m = min k (BSIZE - off mod BSIZE)" and l: "length bs = k" and p: "p < MAXFILE * BSIZE"
    and len: "length (fblk B ads (off div BSIZE)) = BSIZE"
    and st: "\<And>j. j < MAXFILE \<Longrightarrow> fblk B' ads' j =
      (if j = off div BSIZE then poke (off mod BSIZE) (take m bs) (fblk B ads (off div BSIZE)) else fblk B ads j)"
  shows "fblk B' ads' (p div BSIZE) ! (p mod BSIZE) =
    (if off \<le> p \<and> p < off + m then bs ! (p - off) else fblk B ads (p div BSIZE) ! (p mod BSIZE))"
proof -
  have j: "p div BSIZE < MAXFILE" using p by (simp add: less_mult_imp_div_less)
  have P: "BSIZE * (p div BSIZE) + p mod BSIZE = p" "p mod BSIZE < BSIZE" by simp_all
  have O: "BSIZE * (off div BSIZE) + off mod BSIZE = off" "off mod BSIZE < BSIZE" by simp_all
  have mb: "off mod BSIZE + m \<le> BSIZE" "length (take m bs) = m" using m l mod_room [of off k] by auto
  show ?thesis
  proof (cases "p div BSIZE = off div BSIZE")
    case True
    then have e: "BSIZE * (p div BSIZE) = BSIZE * (off div BSIZE)" by simp
    have "off \<le> p \<longleftrightarrow> off mod BSIZE \<le> p mod BSIZE" "p < off + m \<longleftrightarrow> p mod BSIZE < off mod BSIZE + m"
      "p - off = p mod BSIZE - off mod BSIZE"
      using P(1) O(1) e by linarith+
    then show ?thesis using st [OF j] True mb len P(2) by (auto simp: nth_poke)
  next
    case False
    have "\<not> (off \<le> p \<and> p < off + m)"
    proof
      assume a: "off \<le> p \<and> p < off + m"
      then have "off div BSIZE \<le> p div BSIZE" by (simp add: div_le_mono)
      moreover have "p < BSIZE * Suc (off div BSIZE)"
        using a O(1) mb(1) mult_Suc_right [of BSIZE "off div BSIZE"] by linarith
      then have "p div BSIZE < Suc (off div BSIZE)" by (simp add: less_mult_imp_div_less mult.commute)
      ultimately show False using False by simp
    qed
    then show ?thesis using st [OF j] False by auto
  qed
qed

lemma fblk_length: "diskok sbk M B \<Longrightarrow> length (fblk B ads k) = BSIZE"
  using diskokD(1) [of sbk M B] by (simp add: fblk_def Let_def)

lemma writei_loop_ok:
  assumes "fok dv M ip s" and "length bs = k" and "off + k \<le> MAXFILE * BSIZE"
    and "noind ip s + nblk off k \<le> nfree (sb s) (blk dv s)" and "lneed ip s + nblk off k < logcap (log s)"
  shows "\<exists>s'. writei_loop ip (From_local bs) off tot k s = Ok (tot + k, off + k, s') \<and> fop dv M ip s s' \<and>
    (\<forall>p<MAXFILE * BSIZE. fbyte dv ip s' p = (if off \<le> p \<and> p < off + k then bs ! (p - off) else fbyte dv ip s p)) \<and>
    (\<forall>p. off \<le> p \<longrightarrow> p < off + k \<longrightarrow> aslot (blk dv s') (iads ip s') (fslot (p div BSIZE)) \<noteq> 0) \<and> lneed ip s' \<le> lneed ip s + nblk off k"
  using assms
proof (induction k arbitrary: bs off tot s rule: less_induct)
  case (less k)
  show ?case
  proof (cases "k = 0")
    case True
    have "fop dv M ip s s" by (rule fop_tx [OF less.prems(1)]) (use fokD(1) [OF less.prems(1)] in simp_all)
    then show ?thesis using True less.prems(5) by (intro exI [of _ s]) (auto simp: writei_loop.simps nblk_def)
  next
    case False
    define m where "m = min k (BSIZE - off mod BSIZE)"
    have m: "0 < m" "m \<le> k" using False by (simp_all add: m_def)
    have nb: "Suc (nblk (off + m) (k - m)) = nblk off k" by (rule nblk_step [OF _ m_def]) (use False in simp)
    let ?j = "off div BSIZE"
    have j: "?j < MAXFILE" using less.prems(3) False by (simp add: less_mult_imp_div_less)
    note F = fokD [OF less.prems(1)]
    obtain x s1 where 1: "bmap ip ?j s = Ok (x, s1)" "fop dv M ip s s1" "x = aslot (blk dv s1) (iads ip s1) (fslot ?j)" "x \<noteq> 0"
      "\<forall>j<MAXFILE. fblk (blk dv s1) (iads ip s1) j = fblk (blk dv s) (iads ip s) j"
      "card (insert x (logset ip s1)) + noind ip s1 \<le> lneed ip s + 1"
      "nfree (sb s) (blk dv s) + noind ip s1 \<le> nfree (sb s) (blk dv s1) + noind ip s + 1"
      using bmap_ok [OF less.prems(1) j] less.prems(4,5) nb by auto
    note D1 = fopD [OF 1(2)] and F1 = fokD [OF fopD(1) [OF 1(2)]]
    have "card (logged s1) \<le> card (insert x (logset ip s1))"
      by (rule card_mono) (auto simp: finite_logset logset_def)
    then have r: "card (logged s1) < logcap (log s1)" using 1(6) less.prems(5) nb D1(3) by simp
    obtain bp s2 where 2: "bread dv x s1 = Ok (bp, s2)" "data (bufs s2 ! bp) = blk dv s1 x" "itable s2 = itable s1"
      "\<forall>v. length v = BSIZE \<longrightarrow> (\<exists>s3 s4. log_write bp (set_data bp v s2) = Ok s3 \<and> brelse bp s3 = Ok s4 \<and>
        fop dv M ip s1 s4 \<and> iads ip s4 = iads ip s1 \<and> blk dv s4 = (blk dv s1)(x := v) \<and> logged s4 = insert x (logged s1))"
      using file_store [OF D1(1) j 1(3,4) r] by blast
    define v where "v = poke (off mod BSIZE) (take m bs) (blk dv s1 x)"
    have lt: "length (take m bs) = m" using m less.prems(2) by simp
    have "off mod BSIZE + m \<le> BSIZE" using mod_room [of off k] by (simp add: m_def)
    then have lv: "length v = BSIZE" using diskokD(1) [OF F1(5)] lt by (simp add: v_def)
    obtain s3 s4 where 4: "log_write bp (set_data bp v s2) = Ok s3" "brelse bp s3 = Ok s4" "fop dv M ip s1 s4"
      "iads ip s4 = iads ip s1" "blk dv s4 = (blk dv s1)(x := v)" "logged s4 = insert x (logged s1)"
      using 2(4) lv by blast
    note D4 = fopD [OF 4(3)]
    have "logset ip s4 = insert x (logset ip s1)" using 4(4,6) D4(2) by (auto simp: logset_def)
    then have ln: "lneed ip s4 \<le> lneed ip s + 1" using 1(6) 4(4) by (simp add: lneed_def noind_def)
    have "x \<noteq> bmapstart (sb s)"
      using fileokD(2) [OF F1(6) fslot_less [OF j]] 1(3,4) diskokD(5) [OF F1(5)] D1(2) by auto
    then have "nfree (sb s) (blk dv s4) = nfree (sb s) (blk dv s1)" by (simp add: nfree_def 4(5))
    then have nf: "noind ip s4 + nblk (off + m) (k - m) \<le> nfree (sb s4) (blk dv s4)"
      using 1(7) less.prems(4) nb 4(4) D1(2) D4(2) by (simp add: noind_def)
    have step: "writei_loop ip (From_local bs) off tot k s = writei_loop ip (From_local (drop m bs)) (off + m) (tot + m) (k - m) s4"
      using False 1(1) 2 4(1,2) F1(4)
      by (subst writei_loop.simps) (simp add: m_def [symmetric] v_def)
    obtain s5 where 5: "writei_loop ip (From_local (drop m bs)) (off + m) (tot + m) (k - m) s4 =
        Ok (tot + m + (k - m), off + m + (k - m), s5)" "fop dv M ip s4 s5"
      "\<forall>p<MAXFILE * BSIZE. fbyte dv ip s5 p = (if off + m \<le> p \<and> p < off + m + (k - m) then drop m bs ! (p - (off + m)) else fbyte dv ip s4 p)"
      "\<forall>p. off + m \<le> p \<longrightarrow> p < off + m + (k - m) \<longrightarrow> aslot (blk dv s5) (iads ip s5) (fslot (p div BSIZE)) \<noteq> 0"
      "lneed ip s5 \<le> lneed ip s4 + nblk (off + m) (k - m)"
      using less.IH [of "k - m" s4 "drop m bs" "off + m" "tot + m"] m D4(1) less.prems(2,3,5) nf ln nb D1(3) D4(3) by auto
    have fb4: "fbyte dv ip s4 p = (if off \<le> p \<and> p < off + m then bs ! (p - off) else fbyte dv ip s p)" if p: "p < MAXFILE * BSIZE" for p
      unfolding fbyte_def
    proof (rule fbyte_store [OF m_def less.prems(2) p fblk_length [OF F(5)]])
      have "blk dv s1 x = fblk (blk dv s1) (iads ip s1) ?j" using 1(3,4) by (simp add: fblk_def)
      then have "blk dv s1 x = fblk (blk dv s) (iads ip s) ?j" using 1(5) j by simp
      then show "fblk (blk dv s4) (iads ip s4) i =
          (if i = ?j then poke (off mod BSIZE) (take m bs) (fblk (blk dv s) (iads ip s) ?j) else fblk (blk dv s) (iads ip s) i)"
        if "i < MAXFILE" for i
        using store_ok(4) [OF F1(5,6) j 1(3,4) lv that] 1(5) that by (simp add: 4(4,5) v_def)
    qed
    have sl4: "aslot (blk dv s4) (iads ip s4) (fslot ?j) \<noteq> 0"
      using D4(6) 1(3,4) fslot_less [OF j] unfolding keeps_def by metis
    have sl5: "aslot (blk dv s5) (iads ip s5) (fslot (p div BSIZE)) \<noteq> 0" if p: "off \<le> p" "p < off + k" for p
    proof (cases "p < off + m")
      case True
      have "BSIZE * (off div BSIZE) + off mod BSIZE = off" "off mod BSIZE + m \<le> BSIZE" using mod_room [of off k] by (simp_all add: m_def)
      then have "p < BSIZE * Suc ?j" using True mult_Suc_right [of BSIZE ?j] by linarith
      then have "p div BSIZE < Suc ?j" by (simp add: less_mult_imp_div_less mult.commute)
      moreover have "?j \<le> p div BSIZE" using p(1) by (simp add: div_le_mono)
      ultimately have "p div BSIZE = ?j" by simp
      then show ?thesis using sl4 fopD(6) [OF 5(2)] fslot_less [OF j] unfolding keeps_def by metis
    qed (use 5(4) p m in simp)
    have "fbyte dv ip s5 p = (if off \<le> p \<and> p < off + k then bs ! (p - off) else fbyte dv ip s p)" if p: "p < MAXFILE * BSIZE" for p
      using 5(3) fb4 [OF p] p m less.prems(2) by auto
    moreover have "fop dv M ip s s5" by (rule fop_trans [OF 1(2) fop_trans [OF 4(3) 5(2)]])
    moreover have "lneed ip s5 \<le> lneed ip s + nblk off k" using 5(5) ln nb by simp
    ultimately show ?thesis using step 5(1) m sl5 by (intro exI [of _ s5]) auto
  qed
qed

end
