(* ===== verification/Fs_Rw.thy ===== *)
theory Fs_Rw
  imports Fs_File
begin

text \<open>
  \<open>iupdate\<close>, \<open>writei\<close> and \<open>readi\<close>: what is written to a file is read back, the inode on disk is
  the inode in memory, and no other file changes.
\<close>

section \<open>The inode on disk\<close>

lemma take_le_list:
  "i < length xs \<Longrightarrow> take 4 (drop (4 * i) (concat (map (le_bytes 4) xs))) = le_bytes 4 (xs ! i)"
proof (induction xs arbitrary: i)
  case (Cons x xs)
  then show ?case by (cases i) simp_all
qed simp

lemma length_dinode_bytes [simp]: "length (daddrs di) = NDIRECT + 1 \<Longrightarrow> length (dinode_bytes di) = 64"
proof -
  have "length (concat (map (le_bytes 4) xs)) = 4 * length xs" for xs :: "uint list" by (induction xs) simp_all
  then show "length (daddrs di) = NDIRECT + 1 \<Longrightarrow> length (dinode_bytes di) = 64"
    by (simp add: dinode_bytes_def NDIRECT_def)
qed

lemma take_drop_poke:
  assumes "off + length bs \<le> length d" and "i + n \<le> length bs"
  shows "take n (drop (off + i) (poke off bs d)) = take n (drop i bs)"
proof -
  have "take n (drop i (take (length bs) (drop off (poke off bs d)))) = take n (drop i bs)"
    by (simp add: peek_poke_same [OF assms(1)])
  then show ?thesis using assms by (simp add: drop_take add.commute)
qed

lemma get_dinode_poke:
  assumes l: "length (daddrs di) = NDIRECT + 1" and o: "off + 64 \<le> length d"
  shows "get_dinode (poke off (dinode_bytes di) d) off = (di :: dinode)"
proof -
  let ?b = "dinode_bytes di"
  note tk = take_drop_poke [of off ?b d]
  have o': "off + length ?b \<le> length d" using l o by simp
  have g16: "get16 (poke off ?b d) (off + i) = of_le (take 2 (drop i ?b))" if "i + 2 \<le> 64" for i
    using tk [OF o', of i 2] that l by (simp add: get16_def)
  have g32: "get32 (poke off ?b d) (off + i) = of_le (take 4 (drop i ?b))" if "i + 4 \<le> 64" for i
    using tk [OF o', of i 4] that l by (simp add: get32_def)
  have a: "take 4 (drop (12 + 4 * i) ?b) = le_bytes 4 (daddrs di ! i)" if "i < NDIRECT + 1" for i
    using take_le_list [of i "daddrs di"] that l by (simp add: dinode_bytes_def)
  have "map (\<lambda>i. get32 (poke off ?b d) (off + 12 + 4 * i)) [0..<NDIRECT + 1] = daddrs di"
  proof (rule nth_equalityI)
    fix i assume "i < length (map (\<lambda>i. get32 (poke off ?b d) (off + 12 + 4 * i)) [0..<NDIRECT + 1])"
    then have i: "i < NDIRECT + 1" by simp
    then have "get32 (poke off ?b d) (off + (12 + 4 * i)) = daddrs di ! i"
      using g32 [of "12 + 4 * i"] a [OF i] by (simp add: NDIRECT_def of_le_le_bytes)
    then show "map (\<lambda>i. get32 (poke off ?b d) (off + 12 + 4 * i)) [0..<NDIRECT + 1] ! i = daddrs di ! i"
      using i by (simp del: upt_Suc add: add.assoc)
  qed (use l in simp)
  moreover have "get16 (poke off ?b d) off = dtype di" "get16 (poke off ?b d) (off + 2) = dmajor di"
    "get16 (poke off ?b d) (off + 4) = dminor di" "get16 (poke off ?b d) (off + 6) = dnlink di"
    "get32 (poke off ?b d) (off + 8) = dsize di"
    using g16 [of 0] g16 [of 2] g16 [of 4] g16 [of 6] g32 [of 8]
    by (simp_all add: dinode_bytes_def of_le_le_bytes)
  ultimately show ?thesis unfolding get_dinode_def by simp
qed

definition disk_inode :: "inode \<Rightarrow> dinode" where
  "disk_inode i = \<lparr>dtype = itype i, dmajor = major i, dminor = minor i, dnlink = nlink i, dsize = isize i, daddrs = addrs i\<rparr>"

text \<open>The block of an inode is neither part of a file nor the log nor the bitmap.\<close>

definition iblk :: "nat \<Rightarrow> 'z fsst_scheme \<Rightarrow> uint" where
  "iblk ip s = IBLOCK (unat (inum (itable s ! ip))) (sb s)"

lemma meta_store:
  assumes d: "diskok sbk M B" and f: "fileok sbk M B ads" and x: "x \<in> M" "x \<noteq> bmapstart sbk" and v: "length v = BSIZE"
  shows "diskok sbk M (B(x := v))" "fileok sbk M (B(x := v)) ads" "usedb sbk (B(x := v)) = usedb sbk B"
    "aslot (B(x := v)) ads i = aslot B ads i" "k < MAXFILE \<Longrightarrow> fblk (B(x := v)) ads k = fblk B ads k"
proof -
  show us: "usedb sbk (B(x := v)) = usedb sbk B" using x(2) by (auto simp: usedb_def fun_eq_iff)
  show "diskok sbk M (B(x := v))" using d v us by (auto simp: diskok_def)
  have "ads ! NDIRECT \<noteq> 0 \<Longrightarrow> ads ! NDIRECT \<noteq> x" using fileokD(2) [OF f, of NDIRECT] x(1) by (auto simp: slot_ind)
  then have sl: "aslot (B(x := v)) ads = aslot B ads" by (auto simp: aslot_def fun_eq_iff)
  then show "aslot (B(x := v)) ads i = aslot B ads i" by simp
  show "fileok sbk M (B(x := v)) ads" using f unfolding fileok_def sl us .
  show "k < MAXFILE \<Longrightarrow> fblk (B(x := v)) ads k = fblk B ads k"
    using fileokD(2) [OF f fslot_less] x(1) by (auto simp: fblk_def sl Let_def)
qed

lemma iupdate_ok:
  assumes ok: "fok dv M ip s" and ib: "iblk ip s \<in> M" "iblk ip s \<notin> logarea (log s)" "iblk ip s \<noteq> bmapstart (sb s)"
    and room: "card (logged s) < logcap (log s)"
  shows "\<exists>s'. iupdate ip s = Ok s' \<and> fok dv M ip s' \<and> txstep s s' \<and> logged s' = insert (iblk ip s) (logged s) \<and>
    blk dv s' = (blk dv s)(iblk ip s := poke (inode_off (unat (inum (itable s ! ip)))) (dinode_bytes (disk_inode (itable s ! ip))) (blk dv s (iblk ip s)))"
proof -
  note F = fokD [OF ok]
  let ?im = "unat (inum (itable s ! ip))" and ?x = "iblk ip s"
  let ?v = "poke (inode_off ?im) (dinode_bytes (disk_inode (itable s ! ip))) (blk dv s ?x)"
  obtain bp s1 where 1: "bread dv ?x s = Ok (bp, s1)" "logok dv {?x} s1" "txstep s s1" "isbuf dv (bufs s1) ?x bp"
    "data (bufs s1 ! bp) = blk dv s ?x" "blk dv s1 = blk dv s" "logged s1 = logged s"
    using tx_bread [OF F(1), of ?x] room logcap_30 [of "log s"] by auto
  note S1 = txstep_same [OF 1(3)] txstep_fs [OF 1(3)]
  have l: "length (addrs (itable s ! ip)) = NDIRECT + 1" using fileokD(1) [OF F(6)] .
  have "inode_off ?im + 64 \<le> BSIZE" by (simp add: inode_off_def IPB_def BSIZE_def)
  then have v: "length ?v = BSIZE" using diskokD(1) [OF F(5)] l by (simp add: disk_inode_def)
  obtain s2 where 2: "log_write bp (set_data bp ?v s1) = Ok s2" "logok dv {?x} s2" "txstep s1 s2"
    "isbuf dv (bufs s2) = isbuf dv (bufs s1)" "blk dv s2 = (blk dv s)(?x := ?v)" "clean dv s2 ?x"
    "logged s2 = insert ?x (logged s)"
    using tx_write [OF 1(2) _ 1(4) v] room ib F(2) S1 1(6,7) by auto
  obtain s3 where 3: "brelse bp s2 = Ok s3" "logok dv {} s3" "txstep s2 s3" "blk dv s3 = blk dv s2"
    "logged s3 = logged s2"
    using tx_brelse [OF 2(2) _ _ 2(6), of bp] 1(4) 2(4) by auto
  have t: "txstep s s3" using txstep_trans [OF txstep_trans [OF 1(3) 2(3)] 3(3)] .
  note S3 = txstep_same [OF t] txstep_fs [OF t]
  have B: "blk dv s3 = (blk dv s)(?x := ?v)" by (simp add: 3(4) 2(5))
  have "fok dv M ip s3"
    using F S3 3(2) meta_store(1,2) [OF F(5,6) ib(1,3) v] by (simp add: fok_def B)
  moreover have "iupdate ip s = Ok s3"
    using 1(1,5) 2(1) 3(1) F(4) S1(8) unfolding iupdate_def disk_inode_def iblk_def by (simp add: Let_def)
  ultimately show ?thesis using t B 2(7) 3(5) by simp
qed


section \<open>Reading\<close>

text \<open>An inode that can be read, in a transaction or outside one.\<close>

definition rok :: "uint \<Rightarrow> uint set \<Rightarrow> nat \<Rightarrow> 'z fsst_scheme \<Rightarrow> bool" where
  "rok dv M ip s \<longleftrightarrow> logok dv {} s \<and> card (logged s) < 30 \<and> ip < length (itable s) \<and> idev (itable s ! ip) = dv \<and>
     fileok (sb s) M (blk dv s) (iads ip s)"

lemma rok_step:
  assumes "rok dv M ip s" and "txstep s s'" and "logok dv {} s'" and "blk dv s' = blk dv s" and "logged s' = logged s"
  shows "rok dv M ip s'"
  using assms txstep_fs [OF assms(2)] by (simp add: rok_def)

lemma bmap_mapped:
  assumes ok: "rok dv M ip s" and k: "k < MAXFILE" and x: "x = aslot (blk dv s) (iads ip s) (fslot k)" "x \<noteq> 0"
  shows "\<exists>s'. bmap ip k s = Ok (x, s') \<and> txstep s s' \<and> logok dv {} s' \<and> blk dv s' = blk dv s \<and> logged s' = logged s"
proof (cases "k < NDIRECT")
  case True
  then show ?thesis using ok x by (intro exI [of _ s]) (simp add: bmap_split aslot_def fslot_def rok_def)
next
  case False
  let ?j = "k - NDIRECT" and ?i = "iads ip s ! NDIRECT"
  have j: "?j < NINDIRECT" using k False by (simp add: MAXFILE_def)
  have i: "?i \<noteq> 0" and g: "get32 (blk dv s ?i) (4 * ?j) = x"
    using x False by (auto simp: aslot_def fslot_def split: if_splits)
  have R: "logok dv {} s" "card (logged s) < 30" "idev (itable s ! ip) = dv" using ok by (auto simp: rok_def)
  obtain bp s1 where 1: "bread dv ?i s = Ok (bp, s1)" "logok dv {?i} s1" "txstep s s1" "isbuf dv (bufs s1) ?i bp"
    "data (bufs s1 ! bp) = blk dv s ?i" "blk dv s1 = blk dv s" "logged s1 = logged s" "clean dv s1 ?i"
    using tx_bread [OF R(1), of ?i] R(2) by auto
  obtain s2 where 2: "brelse bp s1 = Ok s2" "logok dv {} s2" "txstep s1 s2" "blk dv s2 = blk dv s1" "logged s2 = logged s1"
    using tx_brelse [OF 1(2) _ 1(4,8)] by auto
  have "bmap_entry dv ?i ?j s = Ok (x, s2)" using 1(1,5) 2(1) g x(2) by (simp add: bmap_entry_def)
  then have "bmap ip k s = Ok (x, s2)" using False j i R(3) by (simp add: bmap_split)
  then show ?thesis using 1 2 txstep_trans [OF 1(3) 2(3)] by auto
qed

definition mapped :: "uint \<Rightarrow> nat \<Rightarrow> 'z fsst_scheme \<Rightarrow> nat \<Rightarrow> bool" where
  "mapped dv ip s p \<longleftrightarrow> aslot (blk dv s) (iads ip s) (fslot (p div BSIZE)) \<noteq> 0"

lemma block_pos: "r < BSIZE \<Longrightarrow> (BSIZE * q + r) div BSIZE = q \<and> (BSIZE * q + r) mod BSIZE = r"
  by simp

lemma upt_map_block:
  assumes "off mod BSIZE + m \<le> BSIZE" and "length d = BSIZE" and "\<And>p. p div BSIZE = off div BSIZE \<Longrightarrow> f p = d ! (p mod BSIZE)"
  shows "take m (drop (off mod BSIZE) d) = map f [off..<off + m]"
proof (rule nth_equalityI)
  fix i assume "i < length (take m (drop (off mod BSIZE) d))"
  then have i: "i < m" by simp
  have l: "off mod BSIZE + i < BSIZE" using i assms(1) by simp
  have e: "off + i = BSIZE * (off div BSIZE) + (off mod BSIZE + i)"
    using mult_div_mod_eq [of BSIZE off] by linarith
  have "(off + i) div BSIZE = off div BSIZE" "(off + i) mod BSIZE = off mod BSIZE + i"
    using block_pos [OF l, of "off div BSIZE"] unfolding e [symmetric] by simp_all
  then show "take m (drop (off mod BSIZE) d) ! i = map f [off..<off + m] ! i"
    using i assms by simp
qed (use assms in simp)

lemma readi_loop_ok:
  assumes "rok dv M ip s" and "off + k \<le> MAXFILE * BSIZE" and "\<And>p. off \<le> p \<Longrightarrow> p < off + k \<Longrightarrow> mapped dv ip s p"
  shows "\<exists>s'. readi_loop ip To_local off k s = Ok (int k, map (fbyte dv ip s) [off..<off + k], s') \<and> rok dv M ip s' \<and>
    txstep s s' \<and> blk dv s' = blk dv s"
  using assms
proof (induction k arbitrary: off s rule: less_induct)
  case (less k)
  show ?case
  proof (cases "k = 0")
    case True
    then show ?thesis using less.prems(1) by (intro exI [of _ s]) (simp add: readi_loop.simps)
  next
    case False
    define m where "m = min k (BSIZE - off mod BSIZE)"
    have m: "0 < m" "m \<le> k" "off mod BSIZE + m \<le> BSIZE" using False mod_room [of off k] by (simp_all add: m_def)
    let ?j = "off div BSIZE"
    have j: "?j < MAXFILE" using less.prems(2) False by (simp add: less_mult_imp_div_less)
    define x where "x = aslot (blk dv s) (iads ip s) (fslot ?j)"
    have x: "x \<noteq> 0" using less.prems(3) [of off] False by (simp add: mapped_def x_def)
    obtain s1 where 1: "bmap ip ?j s = Ok (x, s1)" "txstep s s1" "logok dv {} s1" "blk dv s1 = blk dv s" "logged s1 = logged s"
      using bmap_mapped [OF less.prems(1) j x_def x] by blast
    have r1: "rok dv M ip s1" by (rule rok_step [OF less.prems(1) 1(2-5)])
    then have R: "card (logged s1) < 30" "idev (itable s1 ! ip) = dv" by (auto simp: rok_def)
    obtain bp s2 where 2: "bread dv x s1 = Ok (bp, s2)" "logok dv {x} s2" "txstep s1 s2" "isbuf dv (bufs s2) x bp"
      "data (bufs s2 ! bp) = blk dv s x" "blk dv s2 = blk dv s" "logged s2 = logged s" "clean dv s2 x"
      using tx_bread [OF 1(3), of x] R(1) 1(4,5) by auto
    obtain s3 where 3: "brelse bp s2 = Ok s3" "logok dv {} s3" "txstep s2 s3" "blk dv s3 = blk dv s" "logged s3 = logged s"
      using tx_brelse [OF 2(2) _ 2(4,8)] 2(6,7) by auto
    have t: "txstep s s3" using txstep_trans [OF txstep_trans [OF 1(2) 2(3)] 3(3)] .
    have r3: "rok dv M ip s3" by (rule rok_step [OF less.prems(1) t 3(2,4,5)])
    have fb: "fbyte dv ip s3 = fbyte dv ip s" "mapped dv ip s3 = mapped dv ip s"
      by (rule ext, simp add: fbyte_def mapped_def 3(4) txstep_fs(2) [OF t])+
    obtain s4 where 4: "readi_loop ip To_local (off + m) (k - m) s3 = Ok (int (k - m), map (fbyte dv ip s) [off + m..<off + m + (k - m)], s4)"
      "rok dv M ip s4" "txstep s3 s4" "blk dv s4 = blk dv s3"
      using less.IH [of "k - m" s3 "off + m"] m r3 less.prems(2,3) fb by auto
    have b: "take m (drop (off mod BSIZE) (blk dv s x)) = map (fbyte dv ip s) [off..<off + m]"
    proof (rule upt_map_block [OF m(3)])
      show "length (blk dv s x) = BSIZE" using blk_length logokD(6) less.prems(1) unfolding rok_def by blast
      show "fbyte dv ip s p = blk dv s x ! (p mod BSIZE)" if "p div BSIZE = ?j" for p
        using that x by (simp add: fbyte_def fblk_def x_def)
    qed
    have e: "[off..<off + m] @ [off + m..<off + m + (k - m)] = [off..<off + k]"
      using m upt_add_eq_append [of off "off + m" "k - m"] by simp
    have "readi_loop ip To_local off k s = Ok (int m + int (k - m), map (fbyte dv ip s) ([off..<off + m] @ [off + m..<off + m + (k - m)]), s4)"
      using False 1(1) 2(1,5) 3(1) 4(1) R(2) b
      by (subst readi_loop.simps) (simp add: m_def [symmetric])
    then show ?thesis using 4(2-4) 3(4) txstep_trans [OF t 4(3)] m unfolding e by (intro exI [of _ s4]) simp
  qed
qed


text \<open>An inode whose blocks up to its size are all there.\<close>

definition full :: "uint \<Rightarrow> nat \<Rightarrow> 'z fsst_scheme \<Rightarrow> bool" where
  "full dv ip s \<longleftrightarrow> unat (isize (itable s ! ip)) \<le> MAXFILE * BSIZE \<and> (\<forall>p<unat (isize (itable s ! ip)). mapped dv ip s p)"

lemma unat_add_small: "unat (a :: uint) + unat b < 2 ^ 32 \<Longrightarrow> unat (a + b) = unat a + unat b"
  by (simp add: unat_word_ariths)

lemma readi_ok:
  assumes ok: "rok dv M ip s" and full: "full dv ip s" and off: "off \<le> isize (itable s ! ip)" "unat off + unat n < 2 ^ 32"
    and l: "l = min (unat n) (unat (isize (itable s ! ip)) - unat off)"
  shows "\<exists>s'. readi ip To_local off n s = Ok (int l, map (fbyte dv ip s) [unat off..<unat off + l], s') \<and> rok dv M ip s' \<and>
    txstep s s' \<and> blk dv s' = blk dv s"
proof -
  let ?z = "isize (itable s ! ip)"
  note u = unat_add_small [OF off(2)]
  have oz: "unat off \<le> unat ?z" using off(1) by (simp add: word_le_nat_alt)
  have c: "\<not> (off > ?z \<or> off + n < off)" using off(1) u by (auto simp: word_less_nat_alt word_le_nat_alt)
  have "unat (?z - off) = unat ?z - unat off" using off(1) by (rule unat_sub)
  then have "unat (if off + n > ?z then ?z - off else n) = l" using u oz by (auto simp: l word_less_nat_alt)
  then have r: "readi ip To_local off n s = readi_loop ip To_local (unat off) l s" using c by (simp add: readi_def Let_def)
  have "unat off + l \<le> unat ?z" using l oz by linarith
  then show ?thesis unfolding r using full by (intro readi_loop_ok [OF ok]) (auto simp: full_def)
qed

section \<open>Writing\<close>

text \<open>Everything but the file at \<open>ip\<close> is as it was.\<close>

definition wkeeps :: "uint \<Rightarrow> nat \<Rightarrow> 'z fsst_scheme \<Rightarrow> 'z fsst_scheme \<Rightarrow> bool" where
  "wkeeps dv ip s s' \<longleftrightarrow> keeps (sb s) (blk dv s) (iads ip s) {bmapstart (sb s), iblk ip s} (blk dv s') (iads ip s')"

lemma keeps_mono: "keeps sbk B ads X B' ads' \<Longrightarrow> X \<subseteq> Y \<Longrightarrow> keeps sbk B ads Y B' ads'"
  unfolding keeps_def by blast

lemma meta_keeps:
  assumes "diskok sbk M B" and "fileok sbk M B ads" and "x \<in> M" "x \<noteq> bmapstart sbk" and "length v = BSIZE" and "x \<in> X"
  shows "keeps sbk B ads X (B(x := v)) ads"
proof -
  have "own (B(x := v)) ads = own B ads" using meta_store(4) [OF assms(1-5)] by (simp add: own_def)
  then show ?thesis using meta_store(3,4) [OF assms(1-5)] assms(6) by (auto simp: keeps_def)
qed

lemma writei_ok:
  assumes ok: "fok dv M ip s" and ib: "iblk ip s \<in> M" "iblk ip s \<notin> logarea (log s)" "iblk ip s \<noteq> bmapstart (sb s)"
    and off: "off \<le> isize (itable s ! ip)" and n: "unat n = length bs" and size: "unat off + length bs \<le> MAXFILE * BSIZE"
    and free: "noind ip s + nblk (unat off) (length bs) \<le> nfree (sb s) (blk dv s)"
    and room: "lneed ip s + nblk (unat off) (length bs) + 1 < logcap (log s)"
  shows "\<exists>s'. writei ip (From_local bs) off n s = Ok (int (length bs), s') \<and> fok dv M ip s' \<and> fstep s s' \<and>
    (\<forall>p<MAXFILE * BSIZE. fbyte dv ip s' p =
       (if unat off \<le> p \<and> p < unat off + length bs then bs ! (p - unat off) else fbyte dv ip s p)) \<and>
    (\<forall>p. unat off \<le> p \<longrightarrow> p < unat off + length bs \<longrightarrow> mapped dv ip s' p) \<and>
    unat (isize (itable s' ! ip)) = max (unat (isize (itable s ! ip))) (unat off + length bs) \<and>
    get_dinode (blk dv s' (iblk ip s)) (inode_off (unat (inum (itable s ! ip)))) = disk_inode (itable s' ! ip) \<and>
    wkeeps dv ip s s' \<and> card (logged s') < 30"
proof -
  have small: "unat off + length bs < 2 ^ 32" using size by (simp add: MAXFILE_def NDIRECT_def NINDIRECT_def BSIZE_def)
  note u = unat_add_small [of off n, unfolded n, OF small]
  have c: "\<not> (off > isize (itable s ! ip) \<or> off + n < off)" "\<not> unat (off + n) > MAXFILE * BSIZE"
    using off u size by (auto simp: word_less_nat_alt word_le_nat_alt)
  obtain s1 where 1: "writei_loop ip (From_local bs) (unat off) 0 (length bs) s = Ok (0 + length bs, unat off + length bs, s1)"
    "fop dv M ip s s1"
    "\<forall>p<MAXFILE * BSIZE. fbyte dv ip s1 p = (if unat off \<le> p \<and> p < unat off + length bs then bs ! (p - unat off) else fbyte dv ip s p)"
    "\<forall>p. unat off \<le> p \<longrightarrow> p < unat off + length bs \<longrightarrow> aslot (blk dv s1) (iads ip s1) (fslot (p div BSIZE)) \<noteq> 0"
    "lneed ip s1 \<le> lneed ip s + nblk (unat off) (length bs)"
    using writei_loop_ok [OF ok refl size free, of 0] room by auto
  note D1 = fopD [OF 1(2)] and F1 = fokD [OF fopD(1) [OF 1(2)]]
  let ?e = "of_nat (unat off + length bs) :: uint"
  have ue: "unat ?e = unat off + length bs" using small by (simp add: unat_of_nat del: of_nat_add)
  define s2 where "s2 = (if ?e > isize (itable s1 ! ip) then upd_inode ip (isize_update (\<lambda>_. ?e)) s1 else s1)"
  have lt: "ip < length (itable s)" using fokD(3) [OF ok] .
  have i1: "itable s1 ! ip = (itable s ! ip)\<lparr>addrs := iads ip s1\<rparr>"
    using nth_list_update_eq [OF lt] by (subst D1(5)) simp
  have z1: "isize (itable s1 ! ip) = isize (itable s ! ip)" "inum (itable s1 ! ip) = inum (itable s ! ip)"
    by (subst i1, simp)+
  have s2: "blk dv s2 = blk dv s1" "log s2 = log s1" "sb s2 = sb s1" "logged s2 = logged s1" "logok dv {} s2 = logok dv {} s1"
    "length (itable s2) = length (itable s1)" "iads ip s2 = iads ip s1" "idev (itable s2 ! ip) = idev (itable s1 ! ip)"
    "inum (itable s2 ! ip) = inum (itable s1 ! ip)" "fstep s1 s2"
    using F1(3) fstep_itable [of s1] by (simp_all add: s2_def fstep_def)
  have z2: "unat (isize (itable s2 ! ip)) = max (unat (isize (itable s ! ip))) (unat off + length bs)"
    using F1(3) z1 ue by (auto simp: s2_def word_less_nat_alt)
  have ok2: "fok dv M ip s2" using F1 s2 by (simp add: fok_def)
  have ib2: "iblk ip s2 = iblk ip s" using s2 z1 D1(2) by (simp add: iblk_def)
  have "card (logged s1) \<le> card (logset ip s1)" by (rule card_mono) (auto simp: finite_logset logset_def)
  then have r2: "card (logged s2) + 1 < logcap (log s2)" using 1(5) room s2 D1(3) by (simp add: lneed_def)
  let ?im = "unat (inum (itable s ! ip))" and ?b = "iblk ip s"
  define v where "v = poke (inode_off ?im) (dinode_bytes (disk_inode (itable s2 ! ip))) (blk dv s2 ?b)"
  have im2: "unat (inum (itable s2 ! ip)) = ?im" using s2(9) z1(2) by simp
  obtain s3 where 3: "iupdate ip s2 = Ok s3" "fok dv M ip s3" "txstep s2 s3" "logged s3 = insert ?b (logged s2)"
    "blk dv s3 = (blk dv s2)(?b := v)"
    using iupdate_ok [OF ok2, unfolded ib2 im2] ib s2(2,3) D1(2,4) r2 unfolding v_def by auto
  have t3: "itable s3 = itable s2" "sb s3 = sb s2" using txstep_fs [OF 3(3)] by auto
  note F2 = fokD [OF ok2]
  have l2: "length (daddrs (disk_inode (itable s2 ! ip))) = NDIRECT + 1" using fileokD(1) [OF F2(6)] by (simp add: disk_inode_def)
  have io: "inode_off ?im + 64 \<le> BSIZE" by (simp add: inode_off_def IPB_def BSIZE_def)
  have lv: "length v = BSIZE" using l2 io diskokD(1) [OF F2(5)] by (simp add: v_def)
  have b2: "?b \<noteq> bmapstart (sb s2)" using ib(3) s2(3) D1(2) by simp
  note ms = meta_store [OF F2(5,6) ib(1) b2 lv]
  have f3: "fbyte dv ip s3 p = fbyte dv ip s1 p" if "p < MAXFILE * BSIZE" for p
    using ms(5) [OF less_mult_imp_div_less [OF that]] s2(1,7) by (simp add: fbyte_def 3(5) t3(1))
  have m3: "mapped dv ip s3 p \<longleftrightarrow> aslot (blk dv s1) (iads ip s1) (fslot (p div BSIZE)) \<noteq> 0" for p
    using ms(4) s2(1,7) by (simp add: mapped_def 3(5) t3(1))
  have "get_dinode (blk dv s3 ?b) (inode_off ?im) = disk_inode (itable s3 ! ip)"
    using get_dinode_poke [OF l2, of "inode_off ?im" "blk dv s2 ?b"] io diskokD(1) [OF F2(5)] by (simp add: 3(5) v_def t3(1))
  moreover have "keeps (sb s2) (blk dv s2) (iads ip s2) {bmapstart (sb s), ?b} (blk dv s3) (iads ip s3)"
    unfolding 3(5) t3(1) by (rule meta_keeps [OF F2(5,6) ib(1) b2 lv]) simp
  then have "wkeeps dv ip s s3"
    unfolding wkeeps_def using keeps_trans [OF keeps_mono [OF D1(6)]] s2(1,3,7) D1(2) by simp
  moreover have "fstep s s3"
    using fstep_trans [OF fstep_trans [OF _ s2(10)] txstep_fstep [OF 3(3)]] 1(2) by (simp add: fop_def)
  moreover have "card (logged s3) < 30"
    using r2 logcap_30 [of "log s2"] card_insert_Suc [OF finite_logged, of ?b s2] 3(4) by simp
  moreover have "writei ip (From_local bs) off n s = Ok (int (length bs), s3)"
    using c 1(1) 3(1) n unfolding writei_def s2_def by (auto split: if_splits)
  ultimately show ?thesis using 1(3,4) 3(2) f3 m3 z2 t3(1) by (intro exI [of _ s3]) simp
qed


text \<open>Files that share no block with the one that is written.\<close>

lemma other_file:
  assumes k: "wkeeps dv ip s s'" and d: "diskok (sb s) M (blk dv s)" and ib: "iblk ip s \<in> M"
    and f: "fileok (sb s) M (blk dv s) ads" and disj: "own (blk dv s) ads \<inter> own (blk dv s) (iads ip s) = {}"
  shows "fileok (sb s) M (blk dv s') ads" "j < MAXFILE \<Longrightarrow> fblk (blk dv s') ads j = fblk (blk dv s) ads j"
proof -
  have same: "blk dv s' (aslot (blk dv s) ads i) = blk dv s (aslot (blk dv s) ads i)"
    if i: "i < NSLOT" "aslot (blk dv s) ads i \<noteq> 0" for i
  proof -
    let ?y = "aslot (blk dv s) ads i"
    have "?y \<notin> {bmapstart (sb s), iblk ip s}" "usedb (sb s) (blk dv s) ?y"
      using fileokD(2,3) [OF f i] diskokD(5) [OF d] ib by auto
    moreover have "?y \<notin> own (blk dv s) (iads ip s)" using disj i by (auto simp: own_def)
    ultimately show ?thesis using k unfolding wkeeps_def keeps_def by blast
  qed
  have u: "usedb (sb s) (blk dv s) x \<Longrightarrow> usedb (sb s) (blk dv s') x" for x using k unfolding wkeeps_def keeps_def by blast
  show "fileok (sb s) M (blk dv s') ads" "j < MAXFILE \<Longrightarrow> fblk (blk dv s') ads j = fblk (blk dv s) ads j"
    using fileok_other [OF f same u] by blast+
qed

text \<open>C6.  Files hold what is written to them (\<open>writei\<close>, \<open>readi\<close> and \<open>bmap\<close> of \<^verbatim>\<open>kernel/fs.c\<close>, through the log and the
  buffer cache).  In a transaction with room in the log and free blocks on disk, writing \<open>bs\<close> at \<open>off\<close>
  returns the number of bytes and extends the size where needed; every later read returns the new
  bytes in the range written and the old ones elsewhere; the inode on disk is the one in memory;
  and no block of a file that shares none with this one has changed.\<close>

theorem writei_readi:
  assumes ok: "fok dv M ip s" and full: "full dv ip s"
    and ib: "iblk ip s \<in> M" "iblk ip s \<notin> logarea (log s)" "iblk ip s \<noteq> bmapstart (sb s)"
    and off: "off \<le> isize (itable s ! ip)" and n: "unat n = length bs" and size: "unat off + length bs \<le> MAXFILE * BSIZE"
    and free: "noind ip s + nblk (unat off) (length bs) \<le> nfree (sb s) (blk dv s)"
    and room: "lneed ip s + nblk (unat off) (length bs) + 1 < logcap (log s)"
  shows "\<exists>s'. writei ip (From_local bs) off n s = Ok (int (length bs), s') \<and>
    unat (isize (itable s' ! ip)) = max (unat (isize (itable s ! ip))) (unat off + length bs) \<and>
    (\<forall>o' m. o' \<le> isize (itable s' ! ip) \<longrightarrow> unat o' + unat m < 2 ^ 32 \<longrightarrow>
       (let l = min (unat m) (unat (isize (itable s' ! ip)) - unat o')
        in \<exists>s''. readi ip To_local o' m s' =
             Ok (int l, map (\<lambda>p. if unat off \<le> p \<and> p < unat off + length bs then bs ! (p - unat off) else fbyte dv ip s p)
                  [unat o'..<unat o' + l], s''))) \<and>
    get_dinode (blk dv s' (iblk ip s)) (inode_off (unat (inum (itable s ! ip)))) = disk_inode (itable s' ! ip) \<and>
    (\<forall>ads j. fileok (sb s) M (blk dv s) ads \<longrightarrow> own (blk dv s) ads \<inter> own (blk dv s) (iads ip s) = {} \<longrightarrow> j < MAXFILE \<longrightarrow>
       fblk (blk dv s') ads j = fblk (blk dv s) ads j)"
proof -
  obtain s' where w: "writei ip (From_local bs) off n s = Ok (int (length bs), s')" "fok dv M ip s'" "fstep s s'"
    "\<forall>p<MAXFILE * BSIZE. fbyte dv ip s' p =
       (if unat off \<le> p \<and> p < unat off + length bs then bs ! (p - unat off) else fbyte dv ip s p)"
    "\<forall>p. unat off \<le> p \<longrightarrow> p < unat off + length bs \<longrightarrow> mapped dv ip s' p"
    "unat (isize (itable s' ! ip)) = max (unat (isize (itable s ! ip))) (unat off + length bs)"
    "get_dinode (blk dv s' (iblk ip s)) (inode_off (unat (inum (itable s ! ip)))) = disk_inode (itable s' ! ip)"
    "wkeeps dv ip s s'" "card (logged s') < 30"
    using writei_ok [OF ok ib off n size free room] by blast
  have r: "rok dv M ip s'" using fokD [OF w(2)] w(9) by (simp add: rok_def)
  have old: "mapped dv ip s' p" if "p < unat (isize (itable s ! ip))" for p
  proof -
    have "p div BSIZE < MAXFILE" "aslot (blk dv s) (iads ip s) (fslot (p div BSIZE)) \<noteq> 0"
      using full that by (auto simp: full_def mapped_def intro: less_mult_imp_div_less)
    moreover have "\<forall>j<NSLOT. aslot (blk dv s) (iads ip s) j \<noteq> 0 \<longrightarrow> aslot (blk dv s') (iads ip s') j = aslot (blk dv s) (iads ip s) j"
      using w(8) by (simp add: wkeeps_def keeps_def)
    ultimately show ?thesis using fslot_less by (simp add: mapped_def)
  qed
  have "mapped dv ip s' p" if "p < unat (isize (itable s' ! ip))" for p
    using old w(5) that off by (cases "p < unat (isize (itable s ! ip))") (auto simp: w(6) word_le_nat_alt)
  then have ful: "full dv ip s'" using full size by (simp add: full_def w(6))
  have "\<exists>s''. readi ip To_local o' m s' = Ok (int l, map (\<lambda>p. if unat off \<le> p \<and> p < unat off + length bs then bs ! (p - unat off)
      else fbyte dv ip s p) [unat o'..<unat o' + l], s'')"
    if o: "o' \<le> isize (itable s' ! ip)" "unat o' + unat m < 2 ^ 32" and l: "l = min (unat m) (unat (isize (itable s' ! ip)) - unat o')" for o' m l
  proof -
    have "unat o' + l \<le> MAXFILE * BSIZE" using l o(1) ful by (auto simp: full_def word_le_nat_alt)
    then have "map (fbyte dv ip s') [unat o'..<unat o' + l] = map (\<lambda>p. if unat off \<le> p \<and> p < unat off + length bs then bs ! (p - unat off)
      else fbyte dv ip s p) [unat o'..<unat o' + l]" using w(4) by (intro map_cong refl) auto
    then show ?thesis using readi_ok [OF r ful o l] by auto
  qed
  note rd = this
  show ?thesis
    by (intro exI [of _ s'] conjI allI impI, rule w(1), rule w(6), unfold Let_def, rule rd, assumption, assumption, rule refl,
      rule w(7), rule other_file(2) [OF w(8) fokD(5) [OF ok] ib(1)])
qed


section \<open>An example\<close>

text \<open>
  A booted machine in a transaction, on a disk of 1000 blocks as \<open>mkfs\<close> lays it out, with an empty
  root directory: the first 48 blocks are marked as used.
\<close>

definition demo_disk :: "uint \<Rightarrow> byte list" where
  "demo_disk b = (if b = 45 then replicate 6 255 @ replicate 1018 0 else replicate BSIZE 0)"

definition demo_sb :: superblock where
  "demo_sb = \<lparr>magic = FSMAGIC, fssize = 1000, nblocks = 954, ninodes = 200, nlog = 30, logstart = 2, inodestart = 32, bmapstart = 45\<rparr>"

definition demo_inode :: inode where
  "demo_inode = \<lparr>idev = 1, inum = 1, ref = 1, ilk = \<lparr>slocked = True, spid = 1\<rparr>, ivalid = True, itype = T_DIR, major = 0, minor = 0,
     nlink = 1, isize = 0, addrs = replicate (NDIRECT + 1) 0\<rparr>"

definition fs_demo :: fsst where
  "fs_demo = binit \<lparr>phys = (\<lambda>_. 0), kend = 0, freelist = 0, proc = [some_proc], nextpid = 2,
     initproc = Some 0, cpu_proc = Some 0, tramp = 0, bufs = replicate (Suc NBUF) blank_buf,
     disk = demo_disk, dlog = [],
     log = \<lparr>lstart = 2, lsize = 30, outstanding = 1, committing = False, ldev = 1, lhn = 0,
       lhblock = replicate LOGSIZE 0\<rparr>, sb = demo_sb, itable = [demo_inode]\<rparr>"

lemma fs_demo_fields: "log fs_demo = \<lparr>lstart = 2, lsize = 30, outstanding = 1, committing = False, ldev = 1, lhn = 0,
    lhblock = replicate LOGSIZE 0\<rparr>" "sb fs_demo = demo_sb" "itable fs_demo = [demo_inode]"
  by (simp_all add: fs_demo_def binit_def Let_def)

lemma fs_demo_bst: "bst 1 {} {} fs_demo \<and> blk 1 fs_demo = demo_disk"
proof -
  have l: "length (demo_disk b) = BSIZE" for b by (simp add: demo_disk_def BSIZE_def)
  show ?thesis unfolding fs_demo_def
    by (rule binit_bst [where pd = 1, THEN rev_mp])
      (auto simp: blank_def blank_buf_def mypid_def myproc_def some_proc_def l)
qed

abbreviation demo_meta :: "uint set" where
  "demo_meta \<equiv> {x. unat x < 46}"

lemma demo_free: "b < 1000 \<Longrightarrow> bit_free (demo_disk 45) b \<longleftrightarrow> 48 \<le> b"
proof -
  assume b: "b < 1000"
  have m: "(255 :: byte) = - 1" by simp
  show ?thesis
  proof (cases "b < 48")
    case True
    then have "b div 8 < 6" by simp
    then have "demo_disk 45 ! (b div 8) = 255" by (simp add: demo_disk_def nth_append)
    then show ?thesis using True by (simp add: bit_free_iff m del: word_n1_ge)
  next
    case False
    then have "6 \<le> b div 8" "b div 8 - 6 < 1018" using b by simp_all
    then have "demo_disk 45 ! (b div 8) = 0" by (simp add: demo_disk_def nth_append)
    then show ?thesis using False by (simp add: bit_free_iff)
  qed
qed

lemma demo_diskok: "diskok demo_sb demo_meta demo_disk"
  unfolding diskok_def
proof (intro conjI allI ballI impI)
  show "length (demo_disk x) = BSIZE" for x by (simp add: demo_disk_def BSIZE_def)
  show "usedb demo_sb demo_disk x" if "x \<in> demo_meta" for x
  proof -
    have "unat x < 46" using that by simp
    then have "\<not> bit_free (demo_disk 45) (unat x)" using demo_free [of "unat x"] by simp
    then show ?thesis using \<open>unat x < 46\<close> by (simp add: usedb_def demo_sb_def)
  qed
qed (simp_all add: demo_sb_def BPB_def)

lemma demo_slot: "aslot demo_disk (addrs demo_inode) i = 0"
proof -
  have "addrs demo_inode ! i = 0" if "i \<le> NDIRECT" for i
    using that by (simp add: demo_inode_def nth_replicate del: replicate_Suc)
  then show ?thesis by (simp add: aslot_def)
qed

lemma demo_area: "logarea (log fs_demo) \<subseteq> {x. unat x < 32}"
proof
  fix x assume "x \<in> logarea (log fs_demo)"
  then consider "x = 2" | t where "t < 29" "x = 2 + of_nat t + 1"
    by (auto simp: fs_demo_fields logarea_def lblk_def logcap_def)
  then show "x \<in> {x. unat x < 32}"
  proof cases
    case 2
    then have "unat x = t + 3" by (simp add: unat_word_ariths unat_of_nat)
    then show ?thesis using 2 by simp
  qed simp
qed

lemma fs_demo_ok: "fok 1 demo_meta 0 fs_demo"
proof -
  have "fileok demo_sb demo_meta demo_disk (addrs demo_inode)"
    unfolding fileok_def demo_slot by (simp add: demo_inode_def)
  moreover have "logok 1 {} fs_demo" using fs_demo_bst by (simp add: logok_def fs_demo_fields logcap_def)
  moreover have "logarea (log fs_demo) \<subseteq> demo_meta" "45 \<notin> logarea (log fs_demo)" using demo_area by force+
  ultimately show ?thesis using fs_demo_bst demo_diskok
    by (simp add: fok_def fs_demo_fields(2,3)) (simp add: fs_demo_fields demo_inode_def demo_sb_def)
qed

theorem writei_readi_witness:
  "\<exists>s' s''. writei 0 (From_local [7, 8, 9]) 0 3 fs_demo = Ok (3, s') \<and> readi 0 To_local 1 5 s' = Ok (2, [8, 9], s'')"
proof -
  have B: "blk 1 fs_demo = demo_disk" using fs_demo_bst by simp
  have full: "full 1 0 fs_demo" by (simp add: full_def fs_demo_fields demo_inode_def)
  have ib: "iblk 0 fs_demo = 32" by (simp add: iblk_def fs_demo_fields demo_inode_def demo_sb_def IBLOCK_def IPB_def)
  have nl: "32 \<notin> logarea (log fs_demo)" using demo_area by force
  have z: "addrs demo_inode ! NDIRECT = 0" using demo_slot [of NDIRECT] by (simp add: slot_ind)
  have nb: "nblk 0 3 = 1" by (simp add: nblk_def BSIZE_def)
  have "{b. b < 1000 \<and> bit_free (demo_disk 45) b} = {48..<1000}" using demo_free by auto
  then have fr: "nfree demo_sb demo_disk = 952" by (simp add: nfree_def demo_sb_def)
  have lg: "logged fs_demo = {}" by (simp add: logged_def fs_demo_fields)
  have ln: "lneed 0 fs_demo = 2" "noind 0 fs_demo = 1"
    using z by (simp_all add: lneed_def logset_def noind_def fs_demo_fields lg)
  have cap: "logcap (log fs_demo) = 29" by (simp add: fs_demo_fields logcap_def)
  have bm: "bmapstart (sb fs_demo) = 45" by (simp add: fs_demo_fields demo_sb_def)
  have z0: "isize (itable fs_demo ! 0) = 0" by (simp add: fs_demo_fields demo_inode_def)
  define bs :: "byte list" where "bs = [7, 8, 9]"
  have lb: "length bs = 3" by (simp add: bs_def)
  have h: "iblk 0 fs_demo \<in> demo_meta" "iblk 0 fs_demo \<notin> logarea (log fs_demo)" "iblk 0 fs_demo \<noteq> bmapstart (sb fs_demo)"
    "0 \<le> isize (itable fs_demo ! 0)" "unat (3 :: uint) = length bs" "unat (0 :: uint) + length bs \<le> MAXFILE * BSIZE"
    "noind 0 fs_demo + nblk (unat (0 :: uint)) (length bs) \<le> nfree (sb fs_demo) (blk 1 fs_demo)"
    "lneed 0 fs_demo + nblk (unat (0 :: uint)) (length bs) + 1 < logcap (log fs_demo)"
    using ib nl bm nb fr ln cap B fs_demo_fields(2) lb by (simp_all add: MAXFILE_def NDIRECT_def BSIZE_def)
  obtain s' where w: "writei 0 (From_local bs) 0 3 fs_demo = Ok (int (length bs), s')"
    "unat (isize (itable s' ! 0)) = max (unat (isize (itable fs_demo ! 0))) (unat (0 :: uint) + length bs)"
    and rd: "\<And>o' m. o' \<le> isize (itable s' ! 0) \<Longrightarrow> unat o' + unat m < 2 ^ 32 \<Longrightarrow>
       (let l = min (unat m) (unat (isize (itable s' ! 0)) - unat o')
        in \<exists>s''. readi 0 To_local o' m s' =
             Ok (int l, map (\<lambda>p. if unat (0 :: uint) \<le> p \<and> p < unat (0 :: uint) + length bs
                  then bs ! (p - unat (0 :: uint)) else fbyte 1 0 fs_demo p) [unat o'..<unat o' + l], s''))"
    using writei_readi [OF fs_demo_ok full h] by blast
  have sz: "unat (isize (itable s' ! 0)) = 3" using w(2) z0 lb by simp
  then have "1 \<le> isize (itable s' ! 0)" by (simp add: word_le_nat_alt)
  from rd [OF this, of 5] obtain s'' where r: "readi 0 To_local 1 5 s' = Ok (int (min (unat (5 :: uint)) (unat (isize (itable s' ! 0)) - unat (1 :: uint))),
      map (\<lambda>p. if unat (0 :: uint) \<le> p \<and> p < unat (0 :: uint) + length bs then bs ! (p - unat (0 :: uint)) else fbyte 1 0 fs_demo p)
        [unat (1 :: uint)..<unat (1 :: uint) + min (unat (5 :: uint)) (unat (isize (itable s' ! 0)) - unat (1 :: uint))], s'')"
    unfolding Let_def by auto
  have u: "[unat (1 :: uint)..<unat (1 :: uint) + min (unat (5 :: uint)) (unat (isize (itable s' ! 0)) - unat (1 :: uint))] = [1, 2]"
  proof -
    have n: "unat (5 :: uint) = 5" "unat (1 :: uint) = 1" by simp_all
    show ?thesis unfolding sz n by code_simp
  qed
  have "readi 0 To_local 1 5 s' = Ok (2, [8, 9], s'')" using r unfolding u sz by (simp add: bs_def)
  then show ?thesis using w(1) lb by (intro exI [of _ s'] exI [of _ s'']) (simp add: bs_def)
qed

end
